(* ===== verification/Cache_Prelude.thy ===== *)
theory Cache_Prelude
  imports Main "HOL-Library.Word" "HOL-Library.AList"
begin

text \<open>
  Shared vocabulary of the development: the outcome type of fallible C++ code, checked
  64-bit signed arithmetic, the record of external code the server calls, and the generic
  lemmas on association lists and invariants that the component theories use.
\<close>

section \<open>Collections\<close>

text \<open>
  \<open>frame_simps\<close> collects what one protocol frame parses to, and \<open>op_specs\<close> the outcome of the
  store operations and of checked arithmetic.
\<close>

named_theorems frame_simps
named_theorems op_specs

section \<open>Outcomes of C++ code\<close>

text \<open>
  A piece of code either completes with a value or stops with a fault. The first five
  faults are undefined behaviour of the language (signed overflow, use of an iterator or
  pointer that is not valid, use of a value that was never written, a pair of pointers that
  is not a range, a floating-point value converted to an integer type it does not fit), the others are the exceptions the code or the standard library throws.
\<close>

datatype fault =
    SignedOverflow
  | DanglingNode
  | UninitialisedRead
  | InvalidRange
  | BadConversion
  | LengthError
  | BadAlloc
  | RuntimeError string
  | InvalidArgument
  | OutOfRange

type_synonym 'a result = "fault + 'a"

definition rbind :: "'a result \<Rightarrow> ('a \<Rightarrow> 'b result) \<Rightarrow> 'b result" where
  "rbind r f = (case r of Inl e \<Rightarrow> Inl e | Inr x \<Rightarrow> f x)"

lemma rbind_Inl [simp]: "rbind (Inl e) f = Inl e"
  by (simp add: rbind_def)

lemma rbind_Inr [simp]: "rbind (Inr x) f = f x"
  by (simp add: rbind_def)

lemma rbind_eq_Inr [simp]: "rbind r f = Inr y \<longleftrightarrow> (\<exists>x. r = Inr x \<and> f x = Inr y)"
  by (cases r) auto

lemma rbind_eq_Inl: "rbind r f = Inl e \<longleftrightarrow> r = Inl e \<or> (\<exists>x. r = Inr x \<and> f x = Inl e)"
  by (cases r) auto

lemma rbind_cong [fundef_cong]:
  "r = r' \<Longrightarrow> (\<And>x. r' = Inr x \<Longrightarrow> f x = g x) \<Longrightarrow> rbind r f = rbind r' g"
  by (cases r) auto

section \<open>64-bit signed arithmetic\<close>

text \<open>
  \<open>int64_t\<close> values are integers in the range below. An operation whose exact result leaves
  the range is undefined behaviour in C++, so it is a fault here and not a wrapped value.
\<close>

definition in_int64 :: "int \<Rightarrow> bool" where
  "in_int64 x \<longleftrightarrow> - (2 ^ 63) \<le> x \<and> x < 2 ^ 63"

definition add64 :: "int \<Rightarrow> int \<Rightarrow> int result" where
  "add64 a b = (if in_int64 (a + b) then Inr (a + b) else Inl SignedOverflow)"

definition sub64 :: "int \<Rightarrow> int \<Rightarrow> int result" where
  "sub64 a b = (if in_int64 (a - b) then Inr (a - b) else Inl SignedOverflow)"

definition mul64 :: "int \<Rightarrow> int \<Rightarrow> int result" where
  "mul64 a b = (if in_int64 (a * b) then Inr (a * b) else Inl SignedOverflow)"

lemma add64_Inr [simp]: "add64 a b = Inr c \<longleftrightarrow> in_int64 (a + b) \<and> c = a + b"
  by (auto simp: add64_def)

lemma add64_Inl [simp]: "add64 a b = Inl e \<longleftrightarrow> \<not> in_int64 (a + b) \<and> e = SignedOverflow"
  by (auto simp: add64_def)

lemma sub64_Inr [simp]: "sub64 a b = Inr c \<longleftrightarrow> in_int64 (a - b) \<and> c = a - b"
  by (auto simp: sub64_def)

lemma sub64_Inl [simp]: "sub64 a b = Inl e \<longleftrightarrow> \<not> in_int64 (a - b) \<and> e = SignedOverflow"
  by (auto simp: sub64_def)

lemma mul64_Inr [simp]: "mul64 a b = Inr c \<longleftrightarrow> in_int64 (a * b) \<and> c = a * b"
  by (auto simp: mul64_def)

lemma mul64_Inl [simp]: "mul64 a b = Inl e \<longleftrightarrow> \<not> in_int64 (a * b) \<and> e = SignedOverflow"
  by (auto simp: mul64_def)

section \<open>Code outside the repository\<close>

text \<open>
  What the server calls and does not contain: \<open>std::hash\<close> on strings (implementation
  defined), POSIX \<open>fnmatch\<close> (true for the return value 0), the rendering of an integer by
  the formatting library for the replacement field \<open>{}\<close>,
  \<open>std::vector<RespValue>::max_size()\<close> (implementation defined), the length of the longest string
  the allocator can provide (beyond it \<open>std::bad_alloc\<close> is thrown), and whether the compiler
  evaluates the arguments of a call from left to right (unspecified).
\<close>

record externals =
  hash_fn :: "string \<Rightarrow> nat"
  fnmatch_fn :: "string \<Rightarrow> string \<Rightarrow> bool"
  fmt_int :: "int \<Rightarrow> string"
  vec_max :: nat
  mem_limit :: nat
  left_to_right :: bool

text \<open>A C string stops at the first NUL byte (\<open>std::string::c_str\<close> handed to a C function).\<close>

definition c_str :: "string \<Rightarrow> string" where
  "c_str s = takeWhile (\<lambda>c. c \<noteq> CHR 0x00) s"

section \<open>Association lists\<close>

lemma distinct_map_fst_delete [simp]:
  "distinct (map fst xs) \<Longrightarrow> distinct (map fst (AList.delete k xs))"
  by (rule distinct_delete)

lemma set_delete: "set (AList.delete k xs) = {x \<in> set xs. fst x \<noteq> k}"
  by (induction xs) auto

lemma map_of_SomeD_fst: "map_of xs k = Some v \<Longrightarrow> k \<in> fst ` set xs"
  by (force dest: map_of_SomeD)

lemma map_of_filter_value:
  "distinct (map fst xs) \<Longrightarrow>
   map_of (filter (\<lambda>(k, v). P v) xs) k =
     (case map_of xs k of None \<Rightarrow> None | Some v \<Rightarrow> if P v then Some v else None)"
proof (induction xs)
  case (Cons x xs)
  obtain k' v' where x: "x = (k', v')" by fastforce
  with Cons.prems have "map_of xs k' = None" by (auto simp: map_of_eq_None_iff)
  with Cons x show ?case by auto
qed simp

end
