(* ===== verification/Charconv.thy ===== *)
theory Charconv
  imports Cache_Prelude
begin

text \<open>
  The parts of the C++ standard library that convert between text and integers and that
  change the case of text, as the server uses them: \<open>std::from_chars\<close> and
  \<open>std::to_string\<close> for \<open>int64_t\<close>, \<open>std::tolower\<close> and \<open>std::toupper\<close> in the C locale. The
  main result is that \<open>from_chars\<close> reads back what \<open>to_string\<close> writes.
\<close>

section \<open>Decimal digits\<close>

definition is_digit :: "char \<Rightarrow> bool" where
  "is_digit c \<longleftrightarrow> 48 \<le> (of_char c :: nat) \<and> (of_char c :: nat) \<le> 57"

definition digit_val :: "char \<Rightarrow> nat" where
  "digit_val c = of_char c - 48"

definition digit_char :: "nat \<Rightarrow> char" where
  "digit_char d = char_of (48 + d)"

definition digits_val :: "string \<Rightarrow> nat" where
  "digits_val ds = foldl (\<lambda>n c. 10 * n + digit_val c) 0 ds"

fun nat_digits :: "nat \<Rightarrow> string" where
  "nat_digits n = (if n < 10 then [digit_char n] else nat_digits (n div 10) @ [digit_char (n mod 10)])"

declare nat_digits.simps [simp del]

lemma of_char_digit_char [simp]: "d < 10 \<Longrightarrow> (of_char (digit_char d) :: nat) = 48 + d"
  by (simp add: digit_char_def)

lemma is_digit_digit_char [simp]: "d < 10 \<Longrightarrow> is_digit (digit_char d)"
  by (simp add: is_digit_def)

lemma digit_val_digit_char [simp]: "d < 10 \<Longrightarrow> digit_val (digit_char d) = d"
  by (simp add: digit_val_def)

lemma digits_val_Nil [simp]: "digits_val [] = 0"
  by (simp add: digits_val_def)

lemma digits_val_snoc [simp]: "digits_val (ds @ [c]) = 10 * digits_val ds + digit_val c"
  by (simp add: digits_val_def)

lemma nat_digits_not_Nil [simp]: "nat_digits n \<noteq> []"
  by (subst nat_digits.simps) simp

lemma nat_digits_is_digit: "c \<in> set (nat_digits n) \<Longrightarrow> is_digit c"
proof (induction n rule: nat_digits.induct)
  case (1 n)
  show ?case
  proof (cases "n < 10")
    case True
    with "1.prems" show ?thesis by (subst (asm) nat_digits.simps) auto
  next
    case False
    with "1.prems" "1.IH" show ?thesis by (subst (asm) nat_digits.simps) auto
  qed
qed

lemma digits_val_nat_digits [simp]: "digits_val (nat_digits n) = n"
proof (induction n rule: nat_digits.induct)
  case (1 n)
  show ?case
  proof (cases "n < 10")
    case True
    then show ?thesis
      using digits_val_snoc [of "[]" "digit_char n"] by (subst nat_digits.simps) simp
  next
    case False
    then show ?thesis using "1.IH" by (subst nat_digits.simps) simp
  qed
qed

lemma hd_nat_digits: "is_digit (hd (nat_digits n))"
  by (rule nat_digits_is_digit [of _ n]) simp

section \<open>std::to\_string and std::from\_chars\<close>

definition to_string :: "int \<Rightarrow> string" where
  "to_string i = (if i < 0 then CHR ''-'' # nat_digits (nat (- i)) else nat_digits (nat i))"

datatype errc = ErrcNone | ErrcInvalidArgument | ErrcOutOfRange

text \<open>
  \<open>from_chars s v\<close> returns the unread suffix (the pointer the code gets back), the error code,
  and the new value of the output variable, which keeps its old value \<open>v\<close> on an error. There
  is no leading white space and no plus sign; the longest run of digits is taken.
\<close>

definition from_chars :: "string \<Rightarrow> int \<Rightarrow> string \<times> errc \<times> int" where
  "from_chars s v =
     (let neg = (s \<noteq> [] \<and> hd s = CHR ''-'');
          t = (if neg then tl s else s);
          ds = takeWhile is_digit t;
          rest = dropWhile is_digit t;
          n = (if neg then - int (digits_val ds) else int (digits_val ds))
      in if ds = [] then (s, ErrcInvalidArgument, v)
         else if in_int64 n then (rest, ErrcNone, n)
         else (rest, ErrcOutOfRange, v))"

lemma is_digit_minus [simp]: "\<not> is_digit CHR ''-''"
  by (simp add: is_digit_def)

lemma to_string_not_Nil [simp]: "to_string i \<noteq> []"
  by (simp add: to_string_def)

lemma to_string_chars: "c \<in> set (to_string i) \<Longrightarrow> c = CHR ''-'' \<or> is_digit c"
  by (auto simp: to_string_def dest: nat_digits_is_digit split: if_splits)

lemma hd_nat_digits_not_minus [simp]: "hd (nat_digits n) \<noteq> CHR ''-''"
  using hd_nat_digits [of n] by auto

lemma takeWhile_nat_digits:
  assumes "r = [] \<or> \<not> is_digit (hd r)"
  shows "takeWhile is_digit (nat_digits n @ r) = nat_digits n"
    and "dropWhile is_digit (nat_digits n @ r) = r"
proof -
  have all: "\<forall>c\<in>set (nat_digits n). is_digit c" by (blast intro: nat_digits_is_digit)
  from assms have r: "takeWhile is_digit r = []" "dropWhile is_digit r = r"
    by (cases r; auto)+
  show "takeWhile is_digit (nat_digits n @ r) = nat_digits n"
    using all r by (simp add: takeWhile_append)
  show "dropWhile is_digit (nat_digits n @ r) = r"
    using all r by (simp add: dropWhile_append)
qed

lemma from_chars_to_string_append:
  assumes "in_int64 i" and "r = [] \<or> \<not> is_digit (hd r)"
  shows "from_chars (to_string i @ r) v = (r, ErrcNone, i)"
  using assms takeWhile_nat_digits [OF assms(2)]
  by (auto simp: from_chars_def to_string_def Let_def)

lemma from_chars_to_string [simp]: "in_int64 i \<Longrightarrow> from_chars (to_string i) v = ([], ErrcNone, i)"
  using from_chars_to_string_append [of i "[]"] by simp

lemma from_chars_in_int64: "from_chars s v = (r, ErrcNone, i) \<Longrightarrow> in_int64 i"
  by (auto simp: from_chars_def Let_def split: if_splits)

lemma from_chars_error_keeps: "from_chars s v = (r, ec, i) \<Longrightarrow> ec \<noteq> ErrcNone \<Longrightarrow> i = v"
  by (auto simp: from_chars_def Let_def split: if_splits)

section \<open>Case conversion\<close>

definition tolower :: "char \<Rightarrow> char" where
  "tolower c = (if 65 \<le> (of_char c :: nat) \<and> (of_char c :: nat) \<le> 90
                then char_of ((of_char c :: nat) + 32) else c)"

definition toupper :: "char \<Rightarrow> char" where
  "toupper c = (if 97 \<le> (of_char c :: nat) \<and> (of_char c :: nat) \<le> 122
                then char_of ((of_char c :: nat) - 32) else c)"

lemma tolower_tolower [simp]: "tolower (tolower c) = tolower c"
  by (simp add: tolower_def)

end
