(* ===== verification/Lru_List.thy ===== *)
theory Lru_List
  imports Cache_Prelude
begin

text \<open>
  The recency list of a shard (\<open>src/src/storage/LruEviction.cpp\<close>). \<open>std::list\<close> nodes have an
  identity that survives splicing, so a list is the sequence of its nodes, front first, each
  with the key it holds; an iterator is the identity of a node, and using the iterator of a
  node that is no longer in the list is undefined behaviour. The locale states what the
  store relies on, and is interpreted on these operations.
\<close>

section \<open>The list\<close>

record lru_list =
  nodes :: "(nat \<times> string) list"
  next_node :: nat

definition lru_empty :: lru_list where
  "lru_empty = \<lparr>nodes = [], next_node = 0\<rparr>"

definition lru_insert :: "string \<Rightarrow> lru_list \<Rightarrow> nat \<times> lru_list" where
  "lru_insert key l =
     (next_node l, l\<lparr>nodes := (next_node l, key) # nodes l, next_node := Suc (next_node l)\<rparr>)"

definition lru_touch :: "nat \<Rightarrow> lru_list \<Rightarrow> lru_list result" where
  "lru_touch n l =
     (case map_of (nodes l) n of
        None \<Rightarrow> Inl DanglingNode
      | Some key \<Rightarrow> Inr (l\<lparr>nodes := (n, key) # AList.delete n (nodes l)\<rparr>))"

definition lru_remove :: "nat \<Rightarrow> lru_list \<Rightarrow> lru_list result" where
  "lru_remove n l =
     (case map_of (nodes l) n of
        None \<Rightarrow> Inl DanglingNode
      | Some key \<Rightarrow> Inr (l\<lparr>nodes := AList.delete n (nodes l)\<rparr>))"

definition lru_key :: "lru_list \<Rightarrow> string result" where
  "lru_key l = (if nodes l = [] then Inl (RuntimeError ''LRU list is empty'') else Inr (snd (last (nodes l))))"

definition evict_lru :: "lru_list \<Rightarrow> (string \<times> lru_list) result" where
  "evict_lru l =
     (if nodes l = [] then Inl (RuntimeError ''LRU list is empty'')
      else Inr (snd (last (nodes l)), l\<lparr>nodes := butlast (nodes l)\<rparr>))"

definition lru_is_empty :: "lru_list \<Rightarrow> bool" where
  "lru_is_empty l \<longleftrightarrow> nodes l = []"

definition lru_size :: "lru_list \<Rightarrow> nat" where
  "lru_size l = length (nodes l)"

section \<open>The contract\<close>

definition lru_inv :: "lru_list \<Rightarrow> bool" where
  "lru_inv l \<longleftrightarrow> distinct (map fst (nodes l)) \<and> (\<forall>n\<in>set (map fst (nodes l)). n < next_node l)"

definition lru_order :: "lru_list \<Rightarrow> nat list" where
  "lru_order l = map fst (nodes l)"

definition lru_at :: "lru_list \<Rightarrow> nat \<Rightarrow> string option" where
  "lru_at l = map_of (nodes l)"

locale recency_list =
  fixes inv :: "'l \<Rightarrow> bool"
    and order :: "'l \<Rightarrow> nat list"
    and at :: "'l \<Rightarrow> nat \<Rightarrow> string option"
    and insert :: "string \<Rightarrow> 'l \<Rightarrow> nat \<times> 'l"
    and touch :: "nat \<Rightarrow> 'l \<Rightarrow> 'l result"
    and remove :: "nat \<Rightarrow> 'l \<Rightarrow> 'l result"
    and evict :: "'l \<Rightarrow> (string \<times> 'l) result"
  assumes order_distinct: "inv l \<Longrightarrow> distinct (order l)"
    and order_dom: "inv l \<Longrightarrow> set (order l) = dom (at l)"
    and insert_law: "inv l \<Longrightarrow> insert k l = (n, l') \<Longrightarrow>
          inv l' \<and> at l n = None \<and> at l' = (at l)(n \<mapsto> k) \<and> order l' = n # order l"
    and touch_law: "inv l \<Longrightarrow> at l n = Some k \<Longrightarrow>
          \<exists>l'. touch n l = Inr l' \<and> inv l' \<and> at l' = at l \<and> order l' = n # removeAll n (order l)"
    and remove_law: "inv l \<Longrightarrow> at l n = Some k \<Longrightarrow>
          \<exists>l'. remove n l = Inr l' \<and> inv l' \<and> at l' = (at l)(n := None) \<and> order l' = removeAll n (order l)"
    and evict_law: "inv l \<Longrightarrow> order l \<noteq> [] \<Longrightarrow>
          \<exists>k l'. evict l = Inr (k, l') \<and> inv l' \<and> at l (last (order l)) = Some k \<and>
                 at l' = (at l)(last (order l) := None) \<and> order l' = butlast (order l)"
    and evict_empty: "order l = [] \<Longrightarrow> evict l = Inl (RuntimeError ''LRU list is empty'')"
begin

lemma touch_keeps_from_eviction:
  assumes "inv l" and "at l n = Some k" and "1 < length (order l)"
    and "touch n l = Inr l'" and "evict l' = Inr (k', l'')"
  shows "at l'' n = Some k"
proof -
  from touch_law [OF assms(1,2)] assms(4)
  have t: "inv l'" "at l' = at l" "order l' = n # removeAll n (order l)" by auto
  have "\<exists>m\<in>set (order l). m \<noteq> n"
  proof (rule ccontr)
    assume "\<not> ?thesis"
    then have "set (order l) \<subseteq> {n}" by auto
    then have "card (set (order l)) \<le> 1" using card_mono [of "{n}"] by fastforce
    then show False using assms(3) distinct_card [OF order_distinct [OF assms(1)]] by simp
  qed
  then have "set (removeAll n (order l)) \<noteq> {}" by auto
  then have "removeAll n (order l) \<noteq> []" by (metis list.set(1))
  then have "last (order l') \<noteq> n"
    using t(3) last_in_set [of "removeAll n (order l)"] by auto
  moreover from evict_law [OF t(1)] assms(5) t(3)
  have "at l'' = (at l')(last (order l') := None)" by auto
  ultimately show ?thesis using t(2) assms(2) by simp
qed

end

interpretation lru: recency_list lru_inv lru_order lru_at lru_insert lru_touch lru_remove evict_lru
proof
  fix l k n l'
  assume "lru_inv l" and "lru_insert k l = (n, l')"
  then show "lru_inv l' \<and> lru_at l n = None \<and> lru_at l' = (lru_at l)(n \<mapsto> k) \<and>
      lru_order l' = n # lru_order l"
    by (fastforce simp: lru_inv_def lru_insert_def lru_at_def lru_order_def map_of_eq_None_iff less_Suc_eq)
next
  fix l n k
  assume "lru_inv l" and "lru_at l n = Some k"
  then show "\<exists>l'. lru_touch n l = Inr l' \<and> lru_inv l' \<and> lru_at l' = lru_at l \<and>
      lru_order l' = n # removeAll n (lru_order l)"
    by (auto simp: lru_inv_def lru_touch_def lru_at_def lru_order_def delete_conv' delete_keys
        distinct_removeAll set_delete fun_eq_iff)
next
  fix l n k
  assume "lru_inv l" and "lru_at l n = Some k"
  then show "\<exists>l'. lru_remove n l = Inr l' \<and> lru_inv l' \<and> lru_at l' = (lru_at l)(n := None) \<and>
      lru_order l' = removeAll n (lru_order l)"
    by (auto simp: lru_inv_def lru_remove_def lru_at_def lru_order_def delete_conv' delete_keys
        distinct_removeAll set_delete)
next
  fix l
  assume inv: "lru_inv l" and ne: "lru_order l \<noteq> []"
  then obtain xs n k where l: "nodes l = xs @ [(n, k)]"
    by (cases "nodes l" rule: rev_cases) (auto simp: lru_order_def)
  with inv have "map_of xs n = None" by (auto simp: lru_inv_def map_of_eq_None_iff)
  with inv l show "\<exists>k l'. evict_lru l = Inr (k, l') \<and> lru_inv l' \<and> lru_at l (last (lru_order l)) = Some k \<and>
      lru_at l' = (lru_at l)(last (lru_order l) := None) \<and> lru_order l' = butlast (lru_order l)"
    by (auto simp: lru_inv_def evict_lru_def lru_at_def lru_order_def map_add_def fun_eq_iff
        split: option.splits)
qed (auto simp: lru_inv_def lru_order_def lru_at_def evict_lru_def dom_map_of_conv_image_fst)

text \<open>
  Least recently used order. Once a node has been touched, evicting from a list of at least
  two nodes removes another node: the key just used survives the next eviction.
\<close>

theorem touched_key_survives_eviction:
  assumes "lru_inv l" and "lru_at l n = Some k" and "1 < length (lru_order l)"
    and "lru_touch n l = Inr l'" and "evict_lru l' = Inr (k', l'')"
  shows "lru_at l'' n = Some k"
  using assms by (rule lru.touch_keeps_from_eviction)

theorem touched_key_survives_eviction_witness:
  "lru_at \<lparr>nodes = [(0, ''a'')], next_node = 2\<rparr> 0 = Some ''a''"
proof (rule touched_key_survives_eviction)
  show "lru_inv \<lparr>nodes = [(1, ''b''), (0, ''a'')], next_node = 2\<rparr>" by (simp add: lru_inv_def)
  show "lru_at \<lparr>nodes = [(1, ''b''), (0, ''a'')], next_node = 2\<rparr> 0 = Some ''a''" by (simp add: lru_at_def)
  show "1 < length (lru_order \<lparr>nodes = [(1, ''b''), (0, ''a'')], next_node = 2\<rparr>)"
    by (simp add: lru_order_def)
  show "lru_touch 0 \<lparr>nodes = [(1, ''b''), (0, ''a'')], next_node = 2\<rparr> =
      Inr \<lparr>nodes = [(0, ''a''), (1, ''b'')], next_node = 2\<rparr>" by (simp add: lru_touch_def)
  show "evict_lru \<lparr>nodes = [(0, ''a''), (1, ''b'')], next_node = 2\<rparr> =
      Inr (''b'', \<lparr>nodes = [(0, ''a'')], next_node = 2\<rparr>)" by (simp add: evict_lru_def)
qed

end
