(* ===== verification/Shard.thy ===== *)
theory Shard
  imports Charconv Lru_List
begin

text \<open>
  One shard of the store (\<open>Store::Shard\<close> and the critical sections of
  \<open>src/src/storage/Store.cpp\<close>). A shard owns a hash map, a recency list, and the heap cells in
  which the store keeps one list iterator per entry: \<open>Entry::lru_node\<close> is the address of such
  a cell. The cells of a shard are allocated and freed only under its lock, so they are part
  of its state. Each definition is the code of one critical section; the clock readings it
  makes are arguments.
\<close>

section \<open>Entries and shards\<close>

record entry =
  entry_value :: string
  expires_at_ms :: int
  lru_node :: "nat option"

definition has_expiry :: "entry \<Rightarrow> bool" where
  "has_expiry ent \<longleftrightarrow> expires_at_ms ent \<ge> 0"

definition is_expired :: "entry \<Rightarrow> int \<Rightarrow> bool" where
  "is_expired ent now_ms \<longleftrightarrow> has_expiry ent \<and> now_ms \<ge> expires_at_ms ent"

record shard =
  smap :: "(string \<times> entry) list"
  lru :: lru_list
  heap :: "(nat \<times> nat) list"
  next_addr :: nat

definition shard_empty :: shard where
  "shard_empty = \<lparr>smap = [], lru = lru_empty, heap = [], next_addr = 0\<rparr>"

text \<open>Reading through and freeing an \<open>Entry::lru_node\<close> pointer; deleting a null pointer is a no-op.\<close>

definition deref_node :: "shard \<Rightarrow> nat option \<Rightarrow> nat result" where
  "deref_node sh p =
     (case p of None \<Rightarrow> Inl DanglingNode
      | Some a \<Rightarrow> (case map_of (heap sh) a of None \<Rightarrow> Inl DanglingNode | Some n \<Rightarrow> Inr n))"

definition delete_node :: "shard \<Rightarrow> nat option \<Rightarrow> shard result" where
  "delete_node sh p =
     (case p of None \<Rightarrow> Inr sh
      | Some a \<Rightarrow> (case map_of (heap sh) a of None \<Rightarrow> Inl DanglingNode
                   | Some n \<Rightarrow> Inr (sh\<lparr>heap := AList.delete a (heap sh)\<rparr>)))"

section \<open>Critical sections\<close>

text \<open>The sequence that \<open>get\<close>, \<open>del\<close>, \<open>incr\<close> and \<open>sweep_expired\<close> use to drop an entry.\<close>

definition unlink_entry :: "shard \<Rightarrow> string \<Rightarrow> entry \<Rightarrow> shard result" where
  "unlink_entry sh key ent =
     rbind (deref_node sh (lru_node ent)) (\<lambda>n.
     rbind (lru_remove n (lru sh)) (\<lambda>l.
     rbind (delete_node (sh\<lparr>lru := l\<rparr>) (lru_node ent)) (\<lambda>sh'.
       Inr (sh'\<lparr>smap := AList.delete key (smap sh')\<rparr>))))"

definition set_locked :: "shard \<Rightarrow> string \<Rightarrow> string \<Rightarrow> int \<Rightarrow> shard result" where
  "set_locked sh key v expires_at =
     (case map_of (smap sh) key of
        Some ent \<Rightarrow>
          let ent' = ent\<lparr>entry_value := v, expires_at_ms := expires_at\<rparr>;
              sh1 = sh\<lparr>smap := AList.update key ent' (smap sh)\<rparr>
          in rbind (deref_node sh1 (lru_node ent')) (\<lambda>n.
             rbind (lru_touch n (lru sh1)) (\<lambda>l. Inr (sh1\<lparr>lru := l\<rparr>)))
      | None \<Rightarrow>
          let ent = \<lparr>entry_value = v, expires_at_ms = expires_at, lru_node = None\<rparr>;
              sh1 = sh\<lparr>smap := (key, ent) # smap sh\<rparr>;
              (n, l) = lru_insert key (lru sh1);
              a = next_addr sh1;
              sh2 = sh1\<lparr>lru := l, heap := (a, n) # heap sh1, next_addr := Suc a\<rparr>
          in Inr (sh2\<lparr>smap := AList.update key (ent\<lparr>lru_node := Some a\<rparr>) (smap sh2)\<rparr>))"

text \<open>
  \<open>get\<close> has two sections: the optimistic one under the shared lock either returns or decides
  that the exclusive lock is needed.
\<close>

datatype get_phase = GetReturn "string option" | GetUpgrade

definition get_shared :: "shard \<Rightarrow> string \<Rightarrow> int \<Rightarrow> get_phase" where
  "get_shared sh key now =
     (case map_of (smap sh) key of
        None \<Rightarrow> GetReturn None
      | Some ent \<Rightarrow> if is_expired ent now then GetUpgrade else GetReturn (Some (entry_value ent)))"

definition get_exclusive :: "shard \<Rightarrow> string \<Rightarrow> int \<Rightarrow> (string option \<times> shard) result" where
  "get_exclusive sh key now =
     (case map_of (smap sh) key of
        None \<Rightarrow> Inr (None, sh)
      | Some ent \<Rightarrow>
          if is_expired ent now then rbind (unlink_entry sh key ent) (\<lambda>sh'. Inr (None, sh'))
          else rbind (deref_node sh (lru_node ent)) (\<lambda>n.
               rbind (lru_touch n (lru sh)) (\<lambda>l.
                 Inr (Some (entry_value ent), sh\<lparr>lru := l\<rparr>))))"

definition del_locked :: "shard \<Rightarrow> string \<Rightarrow> (bool \<times> shard) result" where
  "del_locked sh key =
     (case map_of (smap sh) key of
        None \<Rightarrow> Inr (False, sh)
      | Some ent \<Rightarrow> rbind (unlink_entry sh key ent) (\<lambda>sh'. Inr (True, sh')))"

definition exists_shared :: "shard \<Rightarrow> string \<Rightarrow> int \<Rightarrow> bool" where
  "exists_shared sh key now =
     (case map_of (smap sh) key of None \<Rightarrow> False | Some ent \<Rightarrow> \<not> is_expired ent now)"

definition ttl_shared :: "shard \<Rightarrow> string \<Rightarrow> int \<Rightarrow> int result" where
  "ttl_shared sh key now =
     (case map_of (smap sh) key of
        None \<Rightarrow> Inr (-2)
      | Some ent \<Rightarrow>
          if \<not> has_expiry ent then Inr (-1)
          else rbind (sub64 (expires_at_ms ent) now) (\<lambda>remaining.
                 Inr (if remaining > 0 then remaining else -2)))"

definition expire_locked :: "shard \<Rightarrow> string \<Rightarrow> int \<Rightarrow> int \<Rightarrow> int \<Rightarrow> (bool \<times> shard) result" where
  "expire_locked sh key ttl_ms now1 now2 =
     (case map_of (smap sh) key of
        None \<Rightarrow> Inr (False, sh)
      | Some ent \<Rightarrow>
          if is_expired ent now1 then Inr (False, sh)
          else rbind (add64 now2 ttl_ms) (\<lambda>x.
                 Inr (True, sh\<lparr>smap := AList.update key (ent\<lparr>expires_at_ms := x\<rparr>) (smap sh)\<rparr>)))"

definition incr_locked :: "shard \<Rightarrow> string \<Rightarrow> int \<Rightarrow> (int option \<times> shard) result" where
  "incr_locked sh key now =
     (let store_next = (\<lambda>sh' current.
            rbind (add64 current 1) (\<lambda>next.
            rbind (set_locked sh' key (to_string next) (-1)) (\<lambda>sh''. Inr (Some next, sh''))))
      in case map_of (smap sh) key of
           None \<Rightarrow> store_next sh 0
         | Some ent \<Rightarrow>
             if is_expired ent now then rbind (unlink_entry sh key ent) (\<lambda>sh'. store_next sh' 0)
             else (case from_chars (entry_value ent) 0 of (rest, ec, current) \<Rightarrow>
                     if ec \<noteq> ErrcNone then Inr (None, sh) else store_next sh current))"

definition keys_shared :: "externals \<Rightarrow> shard \<Rightarrow> string \<Rightarrow> int \<Rightarrow> string list" where
  "keys_shared e sh pattern now =
     map fst (filter (\<lambda>(k, v). \<not> is_expired v now \<and>
                (pattern = ''*'' \<or> fnmatch_fn e (c_str pattern) (c_str k))) (smap sh))"

fun delete_nodes :: "shard \<Rightarrow> (string \<times> entry) list \<Rightarrow> shard result" where
  "delete_nodes sh [] = Inr sh"
| "delete_nodes sh ((k, ent) # rest) = rbind (delete_node sh (lru_node ent)) (\<lambda>sh'. delete_nodes sh' rest)"

definition flush_locked :: "shard \<Rightarrow> shard result" where
  "flush_locked sh = rbind (delete_nodes sh (smap sh)) (\<lambda>sh'. Inr (sh'\<lparr>smap := [], lru := lru_empty\<rparr>))"

fun sweep_entries :: "int \<Rightarrow> (string \<times> entry) list \<Rightarrow> shard \<Rightarrow> nat \<Rightarrow> (nat \<times> shard) result" where
  "sweep_entries now [] sh removed = Inr (removed, sh)"
| "sweep_entries now ((k, ent) # rest) sh removed =
     (if is_expired ent now
      then rbind (unlink_entry sh k ent) (\<lambda>sh'. sweep_entries now rest sh' (removed + 1))
      else sweep_entries now rest sh removed)"

definition sweep_locked :: "int \<Rightarrow> shard \<Rightarrow> nat \<Rightarrow> (nat \<times> shard) result" where
  "sweep_locked now sh removed = sweep_entries now (smap sh) sh removed"

definition for_each_shared :: "shard \<Rightarrow> int \<Rightarrow> (string \<times> string \<times> int) list" where
  "for_each_shared sh now =
     map (\<lambda>(k, v). (k, entry_value v, expires_at_ms v)) (filter (\<lambda>(k, v). \<not> is_expired v now) (smap sh))"

definition evict_locked :: "shard \<Rightarrow> (string option \<times> shard) result" where
  "evict_locked sh =
     (if lru_is_empty (lru sh) then Inr (None, sh)
      else rbind (evict_lru (lru sh)) (\<lambda>(evict_key, l).
             let sh1 = sh\<lparr>lru := l\<rparr> in
             case map_of (smap sh1) evict_key of
               None \<Rightarrow> Inr (Some evict_key, sh1)
             | Some ent \<Rightarrow> rbind (delete_node sh1 (lru_node ent)) (\<lambda>sh2.
                 Inr (Some evict_key, sh2\<lparr>smap := AList.delete evict_key (smap sh2)\<rparr>))))"

end
