(* ===== verification/Shard_Correct.thy ===== *)
theory Shard_Correct
  imports Shard
begin

text \<open>
  The invariant of a shard and what every critical section does to it. The map, the iterator
  cells and the recency list point at each other exactly: every entry has its own live cell,
  the cell holds the node of the entry's key, every node belongs to an entry and no cell is
  left behind. Under it no section ever uses a dangling pointer, and each one acts on the
  abstract contents (key to value and deadline) and on the recency order as specified here.
\<close>

section \<open>Linked maps\<close>

definition linked :: "(string \<rightharpoonup> entry) \<Rightarrow> (nat \<rightharpoonup> nat) \<Rightarrow> (nat \<rightharpoonup> string) \<Rightarrow> bool" where
  "linked m h at \<longleftrightarrow>
     (\<forall>k ent. m k = Some ent \<longrightarrow> (\<exists>a n. lru_node ent = Some a \<and> h a = Some n \<and> at n = Some k)) \<and>
     (\<forall>n k. at n = Some k \<longrightarrow> (\<exists>ent a. m k = Some ent \<and> lru_node ent = Some a \<and> h a = Some n)) \<and>
     (\<forall>a n. h a = Some n \<longrightarrow> (\<exists>k ent. m k = Some ent \<and> lru_node ent = Some a))"

lemma linkedD:
  assumes "linked m h at" and "m k = Some ent"
  obtains a n where "lru_node ent = Some a" "h a = Some n" "at n = Some k"
  using assms unfolding linked_def by blast

lemma linked_nodeD:
  assumes "linked m h at" and "at n = Some k"
  obtains ent a where "m k = Some ent" "lru_node ent = Some a" "h a = Some n"
  using assms unfolding linked_def by blast

lemma linked_cellD:
  assumes "linked m h at" and "h a = Some n"
  obtains k ent where "m k = Some ent" "lru_node ent = Some a" "at n = Some k"
proof -
  from assms obtain k ent where k: "m k = Some ent" "lru_node ent = Some a"
    unfolding linked_def by blast
  from assms(1) k(1) obtain a' n' where "lru_node ent = Some a'" "h a' = Some n'" "at n' = Some k"
    by (rule linkedD)
  with k assms(2) that show ?thesis by simp
qed

lemma linked_inj: "linked m h at \<Longrightarrow> inj_on at (dom at)"
proof (rule inj_onI)
  fix n n' assume l: "linked m h at" and d: "n \<in> dom at" "n' \<in> dom at" and eq: "at n = at n'"
  then obtain k where k: "at n = Some k" "at n' = Some k" by auto
  show "n = n'"
    using linked_nodeD [OF l k(1)] linked_nodeD [OF l k(2)] by (metis option.inject)
qed

lemma linked_cell_unique:
  assumes "linked m h at" and "m k = Some ent" and "m k' = Some ent'"
    and "lru_node ent = Some a" and "lru_node ent' = Some a"
  shows "k = k'"
  using linkedD [OF assms(1,2)] linkedD [OF assms(1,3)] assms(4,5) by (metis option.inject)

lemma linked_empty [simp]: "linked Map.empty Map.empty Map.empty"
  by (simp add: linked_def)

lemma linked_drop:
  assumes l: "linked m h at" and k: "m k = Some ent" "lru_node ent = Some a" "h a = Some n"
  shows "linked (m(k := None)) (h(a := None)) (at(n := None))"
proof -
  have node: "at x = Some k'"
    if "m k' = Some ent'" "lru_node ent' = Some y" "h y = Some x" for k' ent' x y
    using l that(1) by (rule linkedD) (use that(2,3) in simp)
  have n: "at n = Some k" by (rule node [OF k])
  have other: "a' \<noteq> a \<and> n' \<noteq> n"
    if "m k' = Some ent'" "k' \<noteq> k" "lru_node ent' = Some a'" "h a' = Some n'" for k' ent' a' n'
  proof
    show "a' \<noteq> a" using linked_cell_unique [OF l that(1) k(1) that(3)] k(2) that(2) by blast
    show "n' \<noteq> n" using node [OF that(1,3,4)] n that(2) by auto
  qed
  show ?thesis
    unfolding linked_def
  proof (intro conjI allI impI)
    fix k' ent' assume "(m(k := None)) k' = Some ent'"
    then have m: "m k' = Some ent'" "k' \<noteq> k" by (auto split: if_splits)
    with l obtain a' n' where "lru_node ent' = Some a'" "h a' = Some n'" "at n' = Some k'"
      by (blast elim: linkedD)
    with other [OF m] show "\<exists>a' n'. lru_node ent' = Some a' \<and> (h(a := None)) a' = Some n' \<and>
        (at(n := None)) n' = Some k'" by auto
  next
    fix n' k' assume "(at(n := None)) n' = Some k'"
    then have at: "at n' = Some k'" "n' \<noteq> n" by (auto split: if_splits)
    with l obtain ent' a' where e: "m k' = Some ent'" "lru_node ent' = Some a'" "h a' = Some n'"
      by (blast elim: linked_nodeD)
    have "k' \<noteq> k" using at(2) e k by auto
    with other [OF e(1) this e(2,3)] e show "\<exists>ent' a'. (m(k := None)) k' = Some ent' \<and>
        lru_node ent' = Some a' \<and> (h(a := None)) a' = Some n'" by auto
  next
    fix a' n' assume "(h(a := None)) a' = Some n'"
    then have h: "h a' = Some n'" "a' \<noteq> a" by (auto split: if_splits)
    with l obtain k' ent' where "m k' = Some ent'" "lru_node ent' = Some a'"
      by (blast elim: linked_cellD)
    with h k show "\<exists>k' ent'. (m(k := None)) k' = Some ent' \<and> lru_node ent' = Some a'"
      by (intro exI [of _ k'] exI [of _ ent']) auto
  qed
qed

lemma linked_add:
  assumes l: "linked m h at" and "m k = None" and "h a = None" and "at n = None" and "lru_node ent = Some a"
  shows "linked (m(k \<mapsto> ent)) (h(a \<mapsto> n)) (at(n \<mapsto> k))"
  using assms unfolding linked_def by (auto split: if_splits) (metis option.distinct(1))+

lemma linked_update:
  assumes "linked m h at" and "m k = Some ent" and "lru_node ent' = lru_node ent"
  shows "linked (m(k \<mapsto> ent')) h at"
  using assms unfolding linked_def by (auto split: if_splits) (metis option.inject)+

section \<open>The invariant\<close>

definition shard_ok :: "shard \<Rightarrow> bool" where
  "shard_ok sh \<longleftrightarrow>
     distinct (map fst (smap sh)) \<and> distinct (map fst (heap sh)) \<and>
     (\<forall>a\<in>set (map fst (heap sh)). a < next_addr sh) \<and> lru_inv (lru sh) \<and>
     linked (map_of (smap sh)) (map_of (heap sh)) (lru_at (lru sh))"

text \<open>The abstract contents, and the keys from the most to the least recently used.\<close>

definition contents :: "shard \<Rightarrow> string \<Rightarrow> (string \<times> int) option" where
  "contents sh k = map_option (\<lambda>ent. (entry_value ent, expires_at_ms ent)) (map_of (smap sh) k)"

definition recency :: "shard \<Rightarrow> string list" where
  "recency sh = map (\<lambda>n. the (lru_at (lru sh) n)) (lru_order (lru sh))"

lemma shard_ok_empty [simp]: "shard_ok shard_empty"
  by (simp add: shard_ok_def shard_empty_def lru_empty_def lru_inv_def lru_at_def)

lemma contents_empty [simp]: "contents shard_empty = Map.empty"
  by (auto simp: contents_def shard_empty_def)

lemma dom_contents: "dom (contents sh) = fst ` set (smap sh)"
  by (auto simp: contents_def dom_map_of_conv_image_fst [symmetric])

lemma card_contents: "shard_ok sh \<Longrightarrow> card (dom (contents sh)) = length (smap sh)"
  by (metis dom_contents shard_ok_def distinct_card length_map list.set_map)

lemma shard_ok_linked: "shard_ok sh \<Longrightarrow> linked (map_of (smap sh)) (map_of (heap sh)) (lru_at (lru sh))"
  by (simp add: shard_ok_def)

lemma shard_ok_lru: "shard_ok sh \<Longrightarrow> lru_inv (lru sh)"
  by (simp add: shard_ok_def)

lemma recency_inj:
  assumes "shard_ok sh"
  shows "inj_on (\<lambda>n. the (lru_at (lru sh) n)) (set (lru_order (lru sh)))"
  using linked_inj [OF shard_ok_linked [OF assms]] lru.order_dom [OF shard_ok_lru [OF assms]]
  by (auto simp: inj_on_def dom_def)

lemma set_recency:
  assumes "shard_ok sh"
  shows "set (recency sh) = dom (contents sh)"
proof -
  note l = shard_ok_linked [OF assms]
  have "set (recency sh) = {k. \<exists>n. lru_at (lru sh) n = Some k}"
    using lru.order_dom [OF shard_ok_lru [OF assms]] by (force simp: recency_def image_iff dom_def)
  also have "\<dots> = dom (map_of (smap sh))"
    using l by (auto simp: dom_def elim: linkedD linked_nodeD)
  also have "\<dots> = dom (contents sh)" by (auto simp: contents_def)
  finally show ?thesis .
qed

lemma distinct_recency: "shard_ok sh \<Longrightarrow> distinct (recency sh)"
  using recency_inj lru.order_distinct [OF shard_ok_lru]
  by (simp add: recency_def distinct_map)

lemma length_recency: "shard_ok sh \<Longrightarrow> length (recency sh) = length (smap sh)"
  by (metis card_contents distinct_card distinct_recency set_recency)

lemma recency_removeAll:
  assumes "shard_ok sh" and "lru_at (lru sh) n = Some k"
  shows "map (\<lambda>n. the (lru_at (lru sh) n)) (removeAll n (lru_order (lru sh))) = removeAll k (recency sh)"
proof -
  have "n \<in> set (lru_order (lru sh))"
    using assms lru.order_dom [OF shard_ok_lru [OF assms(1)]] by auto
  then have "inj_on (\<lambda>n. the (lru_at (lru sh) n)) (insert n (set (lru_order (lru sh))))"
    using recency_inj [OF assms(1)] by (simp add: insert_absorb)
  from map_removeAll_inj_on [OF this] assms(2) show ?thesis by (simp add: recency_def)
qed

section \<open>Building blocks\<close>

lemma deref_ok:
  assumes "shard_ok sh" and "map_of (smap sh) k = Some ent"
  obtains a n where "lru_node ent = Some a" "map_of (heap sh) a = Some n" "lru_at (lru sh) n = Some k"
    "deref_node sh (lru_node ent) = Inr n"
proof -
  from shard_ok_linked [OF assms(1)] assms(2)
  obtain a n where "lru_node ent = Some a" "map_of (heap sh) a = Some n" "lru_at (lru sh) n = Some k"
    by (rule linkedD)
  with that show ?thesis by (simp add: deref_node_def)
qed

lemma touch_entry:
  assumes "shard_ok sh" and "map_of (smap sh) k = Some ent"
  obtains n l where "deref_node sh (lru_node ent) = Inr n" "lru_touch n (lru sh) = Inr l"
    "shard_ok (sh\<lparr>lru := l\<rparr>)" "recency (sh\<lparr>lru := l\<rparr>) = k # removeAll k (recency sh)"
proof -
  obtain a n where n: "lru_at (lru sh) n = Some k" "deref_node sh (lru_node ent) = Inr n"
    using assms by (rule deref_ok)
  from lru.touch_law [OF shard_ok_lru [OF assms(1)] n(1)] obtain l where
    l: "lru_touch n (lru sh) = Inr l" "lru_inv l" "lru_at l = lru_at (lru sh)"
      "lru_order l = n # removeAll n (lru_order (lru sh))" by blast
  have "shard_ok (sh\<lparr>lru := l\<rparr>)" using assms(1) l(2,3) by (simp add: shard_ok_def)
  moreover have "recency (sh\<lparr>lru := l\<rparr>) = k # removeAll k (recency sh)"
    using recency_removeAll [OF assms(1) n(1)] n(1) l(3,4) by (simp add: recency_def)
  ultimately show ?thesis using that n(2) l(1) by blast
qed

lemma unlink_entry_ok:
  assumes "shard_ok sh" and "map_of (smap sh) k = Some ent"
  obtains sh' where "unlink_entry sh k ent = Inr sh'" "shard_ok sh'"
    "smap sh' = AList.delete k (smap sh)" "recency sh' = removeAll k (recency sh)"
proof -
  obtain a n where n: "lru_node ent = Some a" "map_of (heap sh) a = Some n" "lru_at (lru sh) n = Some k"
    "deref_node sh (lru_node ent) = Inr n"
    using assms by (rule deref_ok)
  from lru.remove_law [OF shard_ok_lru [OF assms(1)] n(3)] obtain l where
    l: "lru_remove n (lru sh) = Inr l" "lru_inv l" "lru_at l = (lru_at (lru sh))(n := None)"
      "lru_order l = removeAll n (lru_order (lru sh))" by blast
  let ?sh = "sh\<lparr>lru := l, heap := AList.delete a (heap sh), smap := AList.delete k (smap sh)\<rparr>"
  have "unlink_entry sh k ent = Inr ?sh"
    using n l(1) by (simp add: unlink_entry_def delete_node_def)
  moreover have "shard_ok ?sh"
    using assms(1) l(2,3) linked_drop [OF shard_ok_linked [OF assms(1)] assms(2) n(1,2)]
    by (auto simp: shard_ok_def delete_conv' set_delete)
  moreover have "recency ?sh = removeAll k (recency sh)"
  proof -
    have "recency ?sh = map (\<lambda>n. the (lru_at (lru sh) n)) (removeAll n (lru_order (lru sh)))"
      using l(3,4) by (auto simp: recency_def)
    then show ?thesis using recency_removeAll [OF assms(1) n(3)] by simp
  qed
  ultimately show ?thesis using that by simp
qed

lemma contents_delete:
  "smap sh' = AList.delete k (smap sh) \<Longrightarrow> contents sh' = (contents sh)(k := None)"
  by (auto simp: contents_def delete_conv' fun_eq_iff)

lemma contents_update:
  "smap sh' = AList.update k ent (smap sh) \<Longrightarrow>
   contents sh' = (contents sh)(k \<mapsto> (entry_value ent, expires_at_ms ent))"
  by (auto simp: contents_def update_conv' fun_eq_iff)

lemma shard_ok_update:
  assumes "shard_ok sh" and "map_of (smap sh) k = Some ent" and "lru_node ent' = lru_node ent"
  shows "shard_ok (sh\<lparr>smap := AList.update k ent' (smap sh)\<rparr>)"
  using assms linked_update [OF shard_ok_linked [OF assms(1)] assms(2,3)]
  by (simp add: shard_ok_def update_conv' distinct_update)

section \<open>Specifications of the critical sections\<close>

lemma set_locked_ok:
  assumes ok: "shard_ok sh"
  obtains sh' where "set_locked sh k v x = Inr sh'" "shard_ok sh'"
    "contents sh' = (contents sh)(k \<mapsto> (v, x))" "recency sh' = k # removeAll k (recency sh)"
proof (cases "map_of (smap sh) k")
  case (Some ent)
  let ?ent = "ent\<lparr>entry_value := v, expires_at_ms := x\<rparr>"
  let ?sh = "sh\<lparr>smap := AList.update k ?ent (smap sh)\<rparr>"
  have ok1: "shard_ok ?sh" using ok Some by (rule shard_ok_update) simp
  have m: "map_of (smap ?sh) k = Some ?ent" by (simp add: update_conv')
  obtain n l where t: "deref_node ?sh (lru_node ?ent) = Inr n" "lru_touch n (lru ?sh) = Inr l"
    "shard_ok (?sh\<lparr>lru := l\<rparr>)" "recency (?sh\<lparr>lru := l\<rparr>) = k # removeAll k (recency ?sh)"
    using ok1 m by (rule touch_entry)
  have "set_locked sh k v x = Inr (?sh\<lparr>lru := l\<rparr>)"
    using Some t(1,2) by (simp add: set_locked_def)
  moreover have "contents (?sh\<lparr>lru := l\<rparr>) = (contents sh)(k \<mapsto> (v, x))"
    by (subst contents_update [where k = k and ent = ?ent and sh = sh]) simp_all
  moreover have "recency ?sh = recency sh" by (simp add: recency_def)
  ultimately show ?thesis using that t(3,4) by metis
next
  case None
  obtain n l where nl: "lru_insert k (lru sh) = (n, l)" by fastforce
  from lru.insert_law [OF shard_ok_lru [OF ok] nl]
  have l: "lru_inv l" "lru_at (lru sh) n = None" "lru_at l = (lru_at (lru sh))(n \<mapsto> k)"
    "lru_order l = n # lru_order (lru sh)" by auto
  let ?a = "next_addr sh"
  let ?ent = "\<lparr>entry_value = v, expires_at_ms = x, lru_node = Some ?a\<rparr>"
  let ?sh = "sh\<lparr>smap := (k, ?ent) # smap sh, lru := l, heap := (?a, n) # heap sh, next_addr := Suc ?a\<rparr>"
  have "set_locked sh k v x = Inr ?sh" using None nl by (simp add: set_locked_def Let_def)
  moreover have a: "map_of (heap sh) ?a = None"
    using ok by (force simp: shard_ok_def map_of_eq_None_iff)
  have "shard_ok ?sh"
    using ok None a l linked_add [OF shard_ok_linked [OF ok] None a l(2), of ?ent]
    by (auto simp: shard_ok_def map_of_eq_None_iff less_Suc_eq)
  moreover have "contents ?sh = (contents sh)(k \<mapsto> (v, x))" by (auto simp: contents_def)
  moreover have "recency ?sh = k # removeAll k (recency sh)"
  proof -
    have "k \<notin> set (recency sh)"
      using None by (simp add: set_recency [OF ok] dom_contents map_of_eq_None_iff)
    moreover have "n \<notin> set (lru_order (lru sh))"
      using l(2) lru.order_dom [OF shard_ok_lru [OF ok]] by auto
    ultimately show ?thesis using l(3,4) by (simp add: recency_def)
  qed
  ultimately show ?thesis using that by blast
qed

text \<open>A deadline has passed, and the value a key shows at a point in time.\<close>

definition expired_at :: "int \<Rightarrow> int \<Rightarrow> bool" where
  "expired_at x now \<longleftrightarrow> 0 \<le> x \<and> x \<le> now"

definition live :: "(string \<rightharpoonup> string \<times> int) \<Rightarrow> int \<Rightarrow> string \<Rightarrow> string option" where
  "live c now k = (case c k of None \<Rightarrow> None | Some (v, x) \<Rightarrow> if expired_at x now then None else Some v)"

lemma is_expired_expired_at: "is_expired ent now = expired_at (expires_at_ms ent) now"
  by (auto simp: is_expired_def has_expiry_def expired_at_def)

lemma get_shared_eq:
  "get_shared sh k now =
     (case contents sh k of
        None \<Rightarrow> GetReturn None
      | Some (v, x) \<Rightarrow> if expired_at x now then GetUpgrade else GetReturn (Some v))"
  by (simp add: get_shared_def contents_def is_expired_expired_at split: option.splits)

lemma exists_shared_eq: "exists_shared sh k now = (live (contents sh) now k \<noteq> None)"
  by (auto simp: exists_shared_def live_def contents_def is_expired_expired_at split: option.splits)

lemma ttl_shared_eq:
  "ttl_shared sh k now =
     (case contents sh k of
        None \<Rightarrow> Inr (-2)
      | Some (v, x) \<Rightarrow>
          if x < 0 then Inr (-1)
          else rbind (sub64 x now) (\<lambda>remaining. Inr (if remaining > 0 then remaining else -2)))"
  by (auto simp: ttl_shared_def contents_def has_expiry_def split: option.splits)

lemma get_exclusive_ok:
  assumes ok: "shard_ok sh"
  obtains sh' where "get_exclusive sh k now = Inr (live (contents sh) now k, sh')" "shard_ok sh'"
    "contents sh' = (if live (contents sh) now k = None then (contents sh)(k := None) else contents sh)"
    "recency sh' = (if live (contents sh) now k = None then removeAll k (recency sh)
                    else k # removeAll k (recency sh))"
proof (cases "map_of (smap sh) k")
  case None
  then have c: "contents sh k = None" by (simp add: contents_def)
  then have "k \<notin> set (recency sh)" by (simp add: set_recency [OF ok] domIff)
  with c None ok that [of sh] show ?thesis
    by (simp add: get_exclusive_def live_def fun_upd_idem)
next
  case (Some ent)
  then have c: "contents sh k = Some (entry_value ent, expires_at_ms ent)" by (simp add: contents_def)
  show ?thesis
  proof (cases "is_expired ent now")
    case True
    obtain sh' where u: "unlink_entry sh k ent = Inr sh'" "shard_ok sh'"
      "smap sh' = AList.delete k (smap sh)" "recency sh' = removeAll k (recency sh)"
      using ok Some by (rule unlink_entry_ok)
    have "live (contents sh) now k = None"
      using True c by (simp add: live_def is_expired_expired_at)
    with True Some u contents_delete [OF u(3)] that [of sh'] show ?thesis
      by (simp add: get_exclusive_def)
  next
    case False
    obtain n l where t: "deref_node sh (lru_node ent) = Inr n" "lru_touch n (lru sh) = Inr l"
      "shard_ok (sh\<lparr>lru := l\<rparr>)" "recency (sh\<lparr>lru := l\<rparr>) = k # removeAll k (recency sh)"
      using ok Some by (rule touch_entry)
    have "live (contents sh) now k = Some (entry_value ent)"
      using False c by (simp add: live_def is_expired_expired_at)
    with False Some t that [of "sh\<lparr>lru := l\<rparr>"] show ?thesis
      by (simp add: get_exclusive_def contents_def fun_eq_iff)
  qed
qed

lemma del_locked_ok:
  assumes ok: "shard_ok sh"
  obtains sh' where "del_locked sh k = Inr (k \<in> dom (contents sh), sh')" "shard_ok sh'"
    "contents sh' = (contents sh)(k := None)" "recency sh' = removeAll k (recency sh)"
proof (cases "map_of (smap sh) k")
  case None
  then have c: "contents sh k = None" by (simp add: contents_def)
  then have "k \<notin> set (recency sh)" by (simp add: set_recency [OF ok] domIff)
  with c None ok that [of sh] show ?thesis by (simp add: del_locked_def fun_upd_idem domIff)
next
  case (Some ent)
  then have c: "k \<in> dom (contents sh)" by (simp add: contents_def domIff)
  obtain sh' where u: "unlink_entry sh k ent = Inr sh'" "shard_ok sh'"
    "smap sh' = AList.delete k (smap sh)" "recency sh' = removeAll k (recency sh)"
    using ok Some by (rule unlink_entry_ok)
  with Some c contents_delete [OF u(3)] that [of sh'] show ?thesis by (simp add: del_locked_def)
qed

lemma expire_locked_ok:
  assumes ok: "shard_ok sh" and range: "in_int64 (now2 + ttl)"
  obtains sh' where "expire_locked sh k ttl now1 now2 = Inr (live (contents sh) now1 k \<noteq> None, sh')"
    "shard_ok sh'" "recency sh' = recency sh"
    "contents sh' = (case live (contents sh) now1 k of None \<Rightarrow> contents sh
                     | Some v \<Rightarrow> (contents sh)(k \<mapsto> (v, now2 + ttl)))"
proof (cases "map_of (smap sh) k")
  case None
  with ok that [of sh] show ?thesis by (simp add: expire_locked_def live_def contents_def)
next
  case (Some ent)
  then have c: "contents sh k = Some (entry_value ent, expires_at_ms ent)" by (simp add: contents_def)
  show ?thesis
  proof (cases "is_expired ent now1")
    case True
    with c Some ok that [of sh] show ?thesis
      by (simp add: expire_locked_def live_def is_expired_expired_at)
  next
    case False
    let ?ent = "ent\<lparr>expires_at_ms := now2 + ttl\<rparr>"
    let ?sh = "sh\<lparr>smap := AList.update k ?ent (smap sh)\<rparr>"
    have "shard_ok ?sh" using ok Some by (rule shard_ok_update) simp
    moreover have "contents ?sh = (contents sh)(k \<mapsto> (entry_value ent, now2 + ttl))"
      using contents_update [of ?sh k ?ent sh] by simp
    moreover have "add64 now2 ttl = Inr (now2 + ttl)" using range by simp
    moreover have "live (contents sh) now1 k = Some (entry_value ent)"
      using False c by (simp add: live_def is_expired_expired_at)
    ultimately show ?thesis
      using False Some that [of ?sh] by (simp add: expire_locked_def recency_def)
  qed
qed

text \<open>The number an increment starts from: 0 for a missing or expired key, nothing for a value that is no number.\<close>

definition incr_base :: "string option \<Rightarrow> int option" where
  "incr_base w =
     (case w of None \<Rightarrow> Some 0
      | Some v \<Rightarrow> (case from_chars v 0 of (rest, ec, n) \<Rightarrow> if ec = ErrcNone then Some n else None))"

lemma incr_locked_not_integer:
  assumes "incr_base (live (contents sh) now k) = None"
  shows "incr_locked sh k now = Inr (None, sh)"
  using assms
  by (auto simp: incr_locked_def incr_base_def live_def contents_def is_expired_expired_at
      split: option.splits if_splits prod.splits)

lemma incr_locked_ok:
  assumes ok: "shard_ok sh" and base: "incr_base (live (contents sh) now k) = Some n"
    and range: "in_int64 (n + 1)"
  obtains sh' where "incr_locked sh k now = Inr (Some (n + 1), sh')" "shard_ok sh'"
    "contents sh' = (contents sh)(k \<mapsto> (to_string (n + 1), -1))"
    "recency sh' = k # removeAll k (recency sh)"
proof -
  have add: "add64 n 1 = Inr (n + 1)" using range by simp
  consider (missing) "map_of (smap sh) k = None"
    | (expired) ent where "map_of (smap sh) k = Some ent" "is_expired ent now"
    | (alive) ent where "map_of (smap sh) k = Some ent" "\<not> is_expired ent now" by fastforce
  then show ?thesis
  proof cases
    case missing
    obtain sh' where s: "set_locked sh k (to_string (n + 1)) (-1) = Inr sh'" "shard_ok sh'"
      "contents sh' = (contents sh)(k \<mapsto> (to_string (n + 1), -1))"
      "recency sh' = k # removeAll k (recency sh)"
      using ok by (rule set_locked_ok)
    with missing base add that [of sh'] show ?thesis
      by (simp add: incr_locked_def incr_base_def live_def contents_def)
  next
    case expired
    obtain sh1 where u: "unlink_entry sh k ent = Inr sh1" "shard_ok sh1"
      "smap sh1 = AList.delete k (smap sh)" "recency sh1 = removeAll k (recency sh)"
      using ok expired(1) by (rule unlink_entry_ok)
    obtain sh' where s: "set_locked sh1 k (to_string (n + 1)) (-1) = Inr sh'" "shard_ok sh'"
      "contents sh' = (contents sh1)(k \<mapsto> (to_string (n + 1), -1))"
      "recency sh' = k # removeAll k (recency sh1)"
      using u(2) by (rule set_locked_ok)
    have "n = 0" using base expired
      by (simp add: incr_base_def live_def contents_def is_expired_expired_at)
    with expired add u s contents_delete [OF u(3)] that [of sh'] show ?thesis
      by (simp add: incr_locked_def)
  next
    case alive
    obtain sh' where s: "set_locked sh k (to_string (n + 1)) (-1) = Inr sh'" "shard_ok sh'"
      "contents sh' = (contents sh)(k \<mapsto> (to_string (n + 1), -1))"
      "recency sh' = k # removeAll k (recency sh)"
      using ok by (rule set_locked_ok)
    from base alive have "\<exists>rest. from_chars (entry_value ent) 0 = (rest, ErrcNone, n)"
      by (auto simp: incr_base_def live_def contents_def is_expired_expired_at split: prod.splits if_splits)
    with alive add s that [of sh'] show ?thesis by (auto simp: incr_locked_def)
  qed
qed

lemma incr_locked_overflow:
  assumes ok: "shard_ok sh" and base: "incr_base (live (contents sh) now k) = Some n"
    and range: "\<not> in_int64 (n + 1)"
  shows "incr_locked sh k now = Inl SignedOverflow"
proof -
  from range have "n \<noteq> 0" by (auto simp: in_int64_def)
  with base obtain v where "live (contents sh) now k = Some v" by (auto simp: incr_base_def split: option.splits)
  then obtain ent where "map_of (smap sh) k = Some ent" "\<not> is_expired ent now" "entry_value ent = v"
    by (auto simp: live_def contents_def is_expired_expired_at split: option.splits if_splits)
  with base range \<open>live (contents sh) now k = Some v\<close> show ?thesis
    by (auto simp: incr_locked_def incr_base_def add64_def split: prod.splits if_splits)
qed

lemma evict_locked_empty: "recency sh = [] \<Longrightarrow> evict_locked sh = Inr (None, sh)"
  by (simp add: recency_def lru_order_def evict_locked_def lru_is_empty_def)

lemma evict_locked_ok:
  assumes ok: "shard_ok sh" and ne: "recency sh \<noteq> []"
  obtains sh' where "evict_locked sh = Inr (Some (last (recency sh)), sh')" "shard_ok sh'"
    "contents sh' = (contents sh)(last (recency sh) := None)" "recency sh' = butlast (recency sh)"
proof -
  let ?n = "last (lru_order (lru sh))"
  have one: "lru_order (lru sh) \<noteq> []" using ne by (auto simp: recency_def)
  from lru.evict_law [OF shard_ok_lru [OF ok] one] obtain k l where
    l: "evict_lru (lru sh) = Inr (k, l)" "lru_inv l" "lru_at (lru sh) ?n = Some k"
      "lru_at l = (lru_at (lru sh))(?n := None)" "lru_order l = butlast (lru_order (lru sh))" by blast
  have k: "k = last (recency sh)" using one l(3) by (simp add: recency_def last_map)
  obtain ent a where e: "map_of (smap sh) k = Some ent" "lru_node ent = Some a" "map_of (heap sh) a = Some ?n"
    using shard_ok_linked [OF ok] l(3) by (rule linked_nodeD)
  let ?sh = "sh\<lparr>lru := l, heap := AList.delete a (heap sh), smap := AList.delete k (smap sh)\<rparr>"
  have "\<not> lru_is_empty (lru sh)" using one by (simp add: lru_is_empty_def lru_order_def)
  then have "evict_locked sh = Inr (Some k, ?sh)"
    using l(1) e by (simp add: evict_locked_def delete_node_def Let_def)
  moreover have "shard_ok ?sh"
    using ok l(2,4) linked_drop [OF shard_ok_linked [OF ok] e]
    by (auto simp: shard_ok_def delete_conv' set_delete)
  moreover have "recency ?sh = butlast (recency sh)"
  proof -
    have "?n \<notin> set (butlast (lru_order (lru sh)))"
      using lru.order_distinct [OF shard_ok_lru [OF ok]] one
      by (metis append_butlast_last_id distinct_append disjoint_iff list.set_intros(1))
    then show ?thesis using l(4,5) by (auto simp: recency_def simp flip: map_butlast)
  qed
  ultimately show ?thesis using that contents_delete [of ?sh k sh] k by simp
qed

lemma delete_nodes_ok:
  assumes "distinct (map (lru_node \<circ> snd) es)"
    and "\<forall>(k, ent)\<in>set es. \<exists>a. lru_node ent = Some a \<and> a \<in> fst ` set (heap sh)"
  shows "\<exists>sh'. delete_nodes sh es = Inr sh' \<and> next_addr sh' = next_addr sh \<and>
           set (heap sh') = {c \<in> set (heap sh). Some (fst c) \<notin> lru_node ` snd ` set es}"
  using assms
proof (induction es arbitrary: sh)
  case Nil
  then show ?case by auto
next
  case (Cons p es)
  obtain k ent where p: "p = (k, ent)" by fastforce
  with Cons.prems obtain a where a: "lru_node ent = Some a" "a \<in> fst ` set (heap sh)" by auto
  then obtain n where n: "map_of (heap sh) a = Some n"
    by (metis map_of_eq_None_iff not_Some_eq)
  let ?sh = "sh\<lparr>heap := AList.delete a (heap sh)\<rparr>"
  have "\<forall>(k, ent)\<in>set es. \<exists>a. lru_node ent = Some a \<and> a \<in> fst ` set (heap ?sh)"
  proof (clarify)
    fix k' ent' assume "(k', ent') \<in> set es"
    with Cons.prems p a obtain b where b: "lru_node ent' = Some b" "b \<in> fst ` set (heap sh)" "b \<noteq> a"
      by (force simp: image_iff)
    then show "\<exists>a. lru_node ent' = Some a \<and> a \<in> fst ` set (heap ?sh)"
      by (auto simp: set_delete)
  qed
  with Cons.IH [of ?sh] Cons.prems(1) obtain sh' where
    "delete_nodes ?sh es = Inr sh'" "next_addr sh' = next_addr sh"
    "set (heap sh') = {c \<in> set (heap ?sh). Some (fst c) \<notin> lru_node ` snd ` set es}" by auto
  with p a n show ?case by (auto simp: delete_node_def set_delete)
qed

lemma flush_locked_ok:
  assumes ok: "shard_ok sh"
  obtains sh' where "flush_locked sh = Inr sh'" "shard_ok sh'" "contents sh' = Map.empty"
    "recency sh' = []" "heap sh' = []"
proof -
  note l = shard_ok_linked [OF ok]
  have d: "distinct (map fst (smap sh))" using ok by (simp add: shard_ok_def)
  have ptr: "\<forall>(k, ent)\<in>set (smap sh). \<exists>a. lru_node ent = Some a \<and> a \<in> fst ` set (heap sh)"
  proof (clarify)
    fix k ent assume "(k, ent) \<in> set (smap sh)"
    with d have "map_of (smap sh) k = Some ent" by simp
    with l obtain a n where "lru_node ent = Some a" "map_of (heap sh) a = Some n" by (rule linkedD)
    then show "\<exists>a. lru_node ent = Some a \<and> a \<in> fst ` set (heap sh)"
      by (blast dest: map_of_SomeD_fst)
  qed
  have "inj_on (lru_node \<circ> snd) (set (smap sh))"
  proof (rule inj_onI, clarsimp)
    fix k ent k' ent'
    assume m: "(k, ent) \<in> set (smap sh)" "(k', ent') \<in> set (smap sh)" "lru_node ent = lru_node ent'"
    with ptr obtain a where "lru_node ent = Some a" "lru_node ent' = Some a" by fastforce
    with m d have "k = k'" using linked_cell_unique [OF l] by simp
    with m d show "k = k' \<and> ent = ent'" by (metis map_of_is_SomeI option.inject)
  qed
  then have dp: "distinct (map (lru_node \<circ> snd) (smap sh))"
    using d by (simp add: distinct_map)
  from delete_nodes_ok [OF dp ptr] obtain sh' where
    s: "delete_nodes sh (smap sh) = Inr sh'"
      "set (heap sh') = {c \<in> set (heap sh). Some (fst c) \<notin> lru_node ` snd ` set (smap sh)}" by blast
  have "set (heap sh') = {}"
  proof -
    have "Some (fst c) \<in> lru_node ` snd ` set (smap sh)" if c: "c \<in> set (heap sh)" for c
    proof -
      have "map_of (heap sh) (fst c) = Some (snd c)"
        using c ok by (simp add: shard_ok_def)
      with l obtain k ent where "map_of (smap sh) k = Some ent" "lru_node ent = Some (fst c)"
        by (rule linked_cellD)
      then show ?thesis by (force dest: map_of_SomeD simp: image_iff)
    qed
    with s(2) show ?thesis by auto
  qed
  then have "heap sh' = []" by simp
  with s(1) that [of "sh'\<lparr>smap := [], lru := lru_empty\<rparr>"] show ?thesis
    by (auto simp: flush_locked_def shard_ok_def lru_empty_def lru_inv_def lru_at_def contents_def
        recency_def lru_order_def fun_eq_iff)
qed

text \<open>The keys a sweep drops.\<close>

definition dead_keys :: "int \<Rightarrow> (string \<times> entry) list \<Rightarrow> string set" where
  "dead_keys now es = {k. \<exists>ent. (k, ent) \<in> set es \<and> is_expired ent now}"

lemma dead_keys_simps [simp]:
  "dead_keys now [] = {}"
  "dead_keys now ((k, ent) # es) = (if is_expired ent now then insert k (dead_keys now es) else dead_keys now es)"
  by (auto simp: dead_keys_def)

lemma delete_filter: "AList.delete k xs = filter (\<lambda>p. fst p \<noteq> k) xs"
  by (induction xs) auto

lemma removeAll_filter_neq: "removeAll k xs = filter (\<lambda>y. y \<noteq> k) xs"
  by (induction xs) auto

lemma sweep_entries_ok:
  assumes "shard_ok sh" and "distinct (map fst es)" and "\<forall>(k, ent)\<in>set es. map_of (smap sh) k = Some ent"
  shows "\<exists>sh'. sweep_entries now es sh removed =
                 Inr (removed + length (filter (\<lambda>(k, ent). is_expired ent now) es), sh') \<and>
               shard_ok sh' \<and> smap sh' = filter (\<lambda>p. fst p \<notin> dead_keys now es) (smap sh) \<and>
               recency sh' = filter (\<lambda>k. k \<notin> dead_keys now es) (recency sh)"
  using assms
proof (induction es arbitrary: sh removed)
  case Nil
  then show ?case by simp
next
  case (Cons p es)
  obtain k ent where p: "p = (k, ent)" by fastforce
  show ?case
  proof (cases "is_expired ent now")
    case False
    with Cons p show ?thesis by auto
  next
    case True
    from Cons.prems p have m: "map_of (smap sh) k = Some ent" by simp
    obtain sh1 where u: "unlink_entry sh k ent = Inr sh1" "shard_ok sh1"
      "smap sh1 = AList.delete k (smap sh)" "recency sh1 = removeAll k (recency sh)"
      using Cons.prems(1) m by (rule unlink_entry_ok)
    have "\<forall>(k', ent')\<in>set es. map_of (smap sh1) k' = Some ent'"
      using Cons.prems(2,3) p u(3) by (force simp: delete_conv')
    with Cons.IH [of sh1 "removed + 1"] u(2) Cons.prems(2) obtain sh' where
      "sweep_entries now es sh1 (removed + 1) =
         Inr (removed + 1 + length (filter (\<lambda>(k, ent). is_expired ent now) es), sh')"
      "shard_ok sh'" "smap sh' = filter (\<lambda>p. fst p \<notin> dead_keys now es) (smap sh1)"
      "recency sh' = filter (\<lambda>k. k \<notin> dead_keys now es) (recency sh1)" by auto
    with True p u show ?thesis
      by (auto simp: delete_filter removeAll_filter_neq intro!: filter_cong)
  qed
qed

lemma sweep_locked_ok:
  assumes ok: "shard_ok sh"
  obtains sh' where
    "sweep_locked now sh removed = Inr (removed + length (smap sh) - length (smap sh'), sh')"
    "shard_ok sh'" "length (smap sh') \<le> length (smap sh)"
    "contents sh' = (\<lambda>k. case contents sh k of None \<Rightarrow> None
                        | Some (v, x) \<Rightarrow> if expired_at x now then None else Some (v, x))"
    "recency sh' = filter (\<lambda>k. live (contents sh) now k \<noteq> None) (recency sh)"
proof -
  have d: "distinct (map fst (smap sh))" using ok by (simp add: shard_ok_def)
  then have "\<forall>(k, ent)\<in>set (smap sh). map_of (smap sh) k = Some ent" by auto
  from sweep_entries_ok [OF ok d this, of now removed] obtain sh' where
    s: "sweep_entries now (smap sh) sh removed =
          Inr (removed + length (filter (\<lambda>(k, ent). is_expired ent now) (smap sh)), sh')"
      "shard_ok sh'" "smap sh' = filter (\<lambda>p. fst p \<notin> dead_keys now (smap sh)) (smap sh)"
      "recency sh' = filter (\<lambda>k. k \<notin> dead_keys now (smap sh)) (recency sh)" by blast
  have dead: "k \<in> dead_keys now (smap sh) \<longleftrightarrow>
      (\<exists>ent. map_of (smap sh) k = Some ent \<and> is_expired ent now)" for k
    using d by (auto simp: dead_keys_def dest: map_of_SomeD)
  have flt: "smap sh' = filter (\<lambda>(k, ent). \<not> is_expired ent now) (smap sh)"
    unfolding s(3) using d
    by (intro filter_cong) (auto simp: dead dest!: map_of_SomeD dest: eq_key_imp_eq_value)
  have "length (filter (\<lambda>(k, ent). is_expired ent now) (smap sh)) + length (smap sh') = length (smap sh)"
    unfolding flt using sum_length_filter_compl [of "\<lambda>(k, ent). is_expired ent now" "smap sh"]
    by (simp add: case_prod_unfold)
  then have cnt: "removed + length (filter (\<lambda>(k, ent). is_expired ent now) (smap sh)) =
      removed + length (smap sh) - length (smap sh')" "length (smap sh') \<le> length (smap sh)" by simp_all
  have mo: "map_of (smap sh') k = (case map_of (smap sh) k of None \<Rightarrow> None
      | Some ent \<Rightarrow> if is_expired ent now then None else Some ent)" for k
    unfolding flt map_of_filter_value [OF d] by (simp split: option.splits)
  have "contents sh' = (\<lambda>k. case contents sh k of None \<Rightarrow> None
                        | Some (v, x) \<Rightarrow> if expired_at x now then None else Some (v, x))"
    by (auto simp: contents_def mo is_expired_expired_at fun_eq_iff split: option.splits)
  moreover have "recency sh' = filter (\<lambda>k. live (contents sh) now k \<noteq> None) (recency sh)"
    unfolding s(4)
  proof (rule filter_cong [OF refl])
    fix k assume "k \<in> set (recency sh)"
    then have "k \<in> dom (contents sh)" by (simp add: set_recency [OF ok])
    then show "(k \<notin> dead_keys now (smap sh)) = (live (contents sh) now k \<noteq> None)"
      by (auto simp: dead live_def contents_def is_expired_expired_at)
  qed
  moreover have "sweep_locked now sh removed = Inr (removed + length (smap sh) - length (smap sh'), sh')"
    unfolding sweep_locked_def s(1) cnt(1) ..
  ultimately show ?thesis using s(2) cnt(2) by (intro that)
qed

end
