(* ===== verification/Resp_Types.thy ===== *)
theory Resp_Types
  imports Charconv
begin

text \<open>
  RESP values (\<open>src/src/protocol/RespTypes.hpp\<close>) and their wire encoders
  (\<open>src/src/protocol/RespSerializer.cpp\<close>). The struct has all its fields whatever the tag
  is, so the datatype has one constructor with the fields of the struct.
\<close>

section \<open>Values\<close>

datatype resp_type = SimpleString | ErrorT | IntegerT | BulkString | ArrayT | NullT

datatype resp_value =
  RespValue (rtype: resp_type) (str: string) (integer_field: int) (array_field: "resp_value list")
    (is_null: bool)

text \<open>The value \<open>RespValue{}\<close>, and the values the parser builds from it.\<close>

definition default_value :: resp_value where
  "default_value = RespValue NullT [] 0 [] False"

definition string_value :: "resp_type \<Rightarrow> string \<Rightarrow> resp_value" where
  "string_value t s = RespValue t s 0 [] False"

definition int_value :: "int \<Rightarrow> resp_value" where
  "int_value i = RespValue IntegerT [] i [] False"

definition null_value :: "resp_type \<Rightarrow> resp_value" where
  "null_value t = RespValue t [] 0 [] True"

definition array_value :: "resp_value list \<Rightarrow> resp_value" where
  "array_value vs = RespValue ArrayT [] 0 vs False"

lemmas value_defs = default_value_def string_value_def int_value_def null_value_def array_value_def

lemma value_sel [simp]:
  "rtype (string_value t s) = t" "str (string_value t s) = s"
  "rtype (int_value i) = IntegerT" "integer_field (int_value i) = i"
  "rtype (null_value t) = t" "is_null (null_value t)"
  "rtype (array_value vs) = ArrayT" "array_field (array_value vs) = vs"
  "str (null_value t) = []" "str (int_value i) = []" "str (array_value vs) = []"
  by (simp_all add: value_defs)

section \<open>Encoders\<close>

abbreviation CR :: char where "CR \<equiv> CHR 0x0D"

abbreviation LF :: char where "LF \<equiv> CHR 0x0A"

definition crlf :: string where
  "crlf = [CR, LF]"

definition ok :: string where
  "ok = ''+OK'' @ crlf"

definition error :: "string \<Rightarrow> string" where
  "error msg = ''-ERR '' @ msg @ crlf"

definition null_bulk :: string where
  "null_bulk = ''$-1'' @ crlf"

definition bulk :: "externals \<Rightarrow> string \<Rightarrow> string" where
  "bulk e s = ''$'' @ fmt_int e (int (length s)) @ crlf @ s @ crlf"

definition integer :: "externals \<Rightarrow> int \<Rightarrow> string" where
  "integer e n = '':'' @ fmt_int e n @ crlf"

definition simple :: "string \<Rightarrow> string" where
  "simple s = ''+'' @ s @ crlf"

definition array :: "externals \<Rightarrow> string list \<Rightarrow> string" where
  "array e elements = foldl (\<lambda>out s. out @ bulk e s) (''*'' @ fmt_int e (int (length elements)) @ crlf) elements"

definition nil_array :: string where
  "nil_array = ''*-1'' @ crlf"

text \<open>
  The documented behaviour of the formatting library that the wire format rests on: the
  replacement field \<open>{}\<close> renders an integer in decimal, as \<open>std::to_string\<close> does.
\<close>

definition decimal_fmt :: "externals \<Rightarrow> bool" where
  "decimal_fmt e \<longleftrightarrow> (\<forall>n. fmt_int e n = to_string n)"

lemma decimal_fmtD [simp]: "decimal_fmt e \<Longrightarrow> fmt_int e n = to_string n"
  by (simp add: decimal_fmt_def)

lemma array_concat: "array e xs = ''*'' @ fmt_int e (int (length xs)) @ crlf @ concat (map (bulk e) xs)"
proof -
  have "foldl (\<lambda>out s. out @ bulk e s) acc ys = acc @ concat (map (bulk e) ys)" for acc ys
    by (induction ys arbitrary: acc) auto
  then show ?thesis by (simp add: array_def)
qed

text \<open>
  One concrete choice of the external code, for evaluating the model on examples: keys hash
  to their length, a pattern matches only itself, vectors hold at most a thousand values,
  strings at most four gibibytes, and
  arguments are evaluated from left to right.
\<close>

definition sample_externals :: externals where
  "sample_externals = \<lparr>hash_fn = length, fnmatch_fn = (=), fmt_int = to_string, vec_max = 1000,
                        mem_limit = 1000,
                        left_to_right = True\<rparr>"

lemma decimal_fmt_sample [simp]: "decimal_fmt sample_externals"
  by (simp add: decimal_fmt_def sample_externals_def)

end
