(* ===== verification/Store.thy ===== *)
theory Store
  imports Shard_Correct Resp_Types
begin

text \<open>
  The sharded store (\<open>src/src/storage/Store.cpp\<close>): sixteen shards, the hash of a key selects
  its shard, and every operation is a sequence of the critical sections of theory
  \<open>Shard\<close>. Here the operations run without interference; interleavings are the subject of
  theory \<open>Store_Concurrency\<close>. The clock readings of an operation are arguments, one for each
  place where the code reads the clock.
\<close>

section \<open>Operations\<close>

record store =
  shards :: "shard list"
  max_keys :: nat

definition SHARD_COUNT :: nat where
  "SHARD_COUNT = 16"

definition store_init :: "nat \<Rightarrow> store" where
  "store_init n = \<lparr>shards = replicate SHARD_COUNT shard_empty, max_keys = n\<rparr>"

definition shard_for :: "externals \<Rightarrow> string \<Rightarrow> nat" where
  "shard_for e key = hash_fn e key mod SHARD_COUNT"

definition put_shard :: "store \<Rightarrow> nat \<Rightarrow> shard \<Rightarrow> store" where
  "put_shard s i sh = s\<lparr>shards := (shards s)[i := sh]\<rparr>"

definition store_size :: "store \<Rightarrow> nat" where
  "store_size s = foldl (\<lambda>total sh. total + length (smap sh)) 0 (shards s)"

fun largest_shard :: "shard list \<Rightarrow> nat \<Rightarrow> nat \<Rightarrow> nat \<Rightarrow> nat" where
  "largest_shard [] i max_sz max_idx = max_idx"
| "largest_shard (sh # rest) i max_sz max_idx =
     (if length (smap sh) > max_sz then largest_shard rest (Suc i) (length (smap sh)) i
      else largest_shard rest (Suc i) max_sz max_idx)"

definition maybe_evict :: "store \<Rightarrow> store result" where
  "maybe_evict s =
     (if store_size s < max_keys s then Inr s
      else let max_idx = largest_shard (shards s) 0 0 0 in
           rbind (evict_locked (shards s ! max_idx)) (\<lambda>(evicted, sh). Inr (put_shard s max_idx sh)))"

definition store_set :: "externals \<Rightarrow> store \<Rightarrow> string \<Rightarrow> string \<Rightarrow> int \<Rightarrow> int \<Rightarrow> store result" where
  "store_set e s key v ttl_ms now =
     rbind (maybe_evict s) (\<lambda>s1.
     rbind (if ttl_ms > 0 then add64 now ttl_ms else Inr (-1)) (\<lambda>expires_at.
     rbind (set_locked (shards s1 ! shard_for e key) key v expires_at) (\<lambda>sh.
       Inr (put_shard s1 (shard_for e key) sh))))"

definition store_get :: "externals \<Rightarrow> store \<Rightarrow> string \<Rightarrow> int \<Rightarrow> int \<Rightarrow> (string option \<times> store) result" where
  "store_get e s key now1 now2 =
     (case get_shared (shards s ! shard_for e key) key now1 of
        GetReturn v \<Rightarrow> Inr (v, s)
      | GetUpgrade \<Rightarrow>
          rbind (get_exclusive (shards s ! shard_for e key) key now2) (\<lambda>(v, sh).
            Inr (v, put_shard s (shard_for e key) sh)))"

definition store_del :: "externals \<Rightarrow> store \<Rightarrow> string \<Rightarrow> (bool \<times> store) result" where
  "store_del e s key =
     rbind (del_locked (shards s ! shard_for e key) key) (\<lambda>(b, sh).
       Inr (b, put_shard s (shard_for e key) sh))"

definition store_exists :: "externals \<Rightarrow> store \<Rightarrow> string \<Rightarrow> int \<Rightarrow> bool" where
  "store_exists e s key now = exists_shared (shards s ! shard_for e key) key now"

definition store_ttl :: "externals \<Rightarrow> store \<Rightarrow> string \<Rightarrow> int \<Rightarrow> int result" where
  "store_ttl e s key now = ttl_shared (shards s ! shard_for e key) key now"

definition store_expire :: "externals \<Rightarrow> store \<Rightarrow> string \<Rightarrow> int \<Rightarrow> int \<Rightarrow> int \<Rightarrow> (bool \<times> store) result" where
  "store_expire e s key ttl_ms now1 now2 =
     rbind (expire_locked (shards s ! shard_for e key) key ttl_ms now1 now2) (\<lambda>(b, sh).
       Inr (b, put_shard s (shard_for e key) sh))"

definition store_incr :: "externals \<Rightarrow> store \<Rightarrow> string \<Rightarrow> int \<Rightarrow> (int option \<times> store) result" where
  "store_incr e s key now =
     rbind (incr_locked (shards s ! shard_for e key) key now) (\<lambda>(r, sh).
       Inr (r, put_shard s (shard_for e key) sh))"

definition store_keys :: "externals \<Rightarrow> store \<Rightarrow> string \<Rightarrow> int \<Rightarrow> string list" where
  "store_keys e s pattern now = concat (map (\<lambda>sh. keys_shared e sh pattern now) (shards s))"

fun flush_shards :: "shard list \<Rightarrow> shard list result" where
  "flush_shards [] = Inr []"
| "flush_shards (sh # rest) =
     rbind (flush_locked sh) (\<lambda>sh'. rbind (flush_shards rest) (\<lambda>rest'. Inr (sh' # rest')))"

definition store_flush :: "store \<Rightarrow> store result" where
  "store_flush s = rbind (flush_shards (shards s)) (\<lambda>shs. Inr (s\<lparr>shards := shs\<rparr>))"

fun sweep_shards :: "int \<Rightarrow> shard list \<Rightarrow> nat \<Rightarrow> (nat \<times> shard list) result" where
  "sweep_shards now [] removed = Inr (removed, [])"
| "sweep_shards now (sh # rest) removed =
     rbind (sweep_locked now sh removed) (\<lambda>(removed', sh').
     rbind (sweep_shards now rest removed') (\<lambda>(removed'', rest'). Inr (removed'', sh' # rest')))"

definition store_sweep_expired :: "store \<Rightarrow> int \<Rightarrow> (nat \<times> store) result" where
  "store_sweep_expired s now =
     rbind (sweep_shards now (shards s) 0) (\<lambda>(removed, shs). Inr (removed, s\<lparr>shards := shs\<rparr>))"

text \<open>\<open>for_each\<close> as the list of the callback's arguments, in call order.\<close>

definition store_for_each :: "store \<Rightarrow> int \<Rightarrow> (string \<times> string \<times> int) list" where
  "store_for_each s now = concat (map (\<lambda>sh. for_each_shared sh now) (shards s))"

section \<open>Invariant and abstract contents\<close>

definition store_ok :: "externals \<Rightarrow> store \<Rightarrow> bool" where
  "store_ok e s \<longleftrightarrow>
     length (shards s) = SHARD_COUNT \<and>
     (\<forall>i < SHARD_COUNT. shard_ok (shards s ! i) \<and> (\<forall>k\<in>dom (contents (shards s ! i)). shard_for e k = i))"

definition store_map :: "externals \<Rightarrow> store \<Rightarrow> string \<Rightarrow> (string \<times> int) option" where
  "store_map e s k = contents (shards s ! shard_for e k) k"

lemma shard_for_lt [simp]: "shard_for e k < SHARD_COUNT"
  by (simp add: shard_for_def SHARD_COUNT_def)

lemma store_okD:
  assumes "store_ok e s"
  shows "length (shards s) = SHARD_COUNT" "i < SHARD_COUNT \<Longrightarrow> shard_ok (shards s ! i)"
    "i < SHARD_COUNT \<Longrightarrow> k \<in> dom (contents (shards s ! i)) \<Longrightarrow> shard_for e k = i"
  using assms by (auto simp: store_ok_def)

lemma shard_for_ok: "store_ok e s \<Longrightarrow> shard_ok (shards s ! shard_for e k)"
  by (simp add: store_okD(2))

lemma store_ok_init [simp]: "store_ok e (store_init n)"
  by (simp add: store_ok_def store_init_def)

lemma store_map_init [simp]: "store_map e (store_init n) = Map.empty"
  by (auto simp: store_map_def store_init_def)

lemma put_shard_sel [simp]:
  "shards (put_shard s i sh) = (shards s)[i := sh]" "max_keys (put_shard s i sh) = max_keys s"
  by (simp_all add: put_shard_def)

lemma put_shard_same: "i < length (shards s) \<Longrightarrow> put_shard s i (shards s ! i) = s"
  by (simp add: put_shard_def)

text \<open>Replacing one shard by one that differs at a single key of it.\<close>

lemma put_shard_upd:
  assumes ok: "store_ok e s" and i: "i < SHARD_COUNT" and k: "shard_for e k = i"
    and sh: "shard_ok sh" "contents sh = (contents (shards s ! i))(k := w)"
  shows "store_ok e (put_shard s i sh)" "store_map e (put_shard s i sh) = (store_map e s)(k := w)"
proof -
  note len = store_okD(1) [OF ok]
  show "store_ok e (put_shard s i sh)"
    using ok i k sh len unfolding store_ok_def
    by (auto simp: nth_list_update split: if_splits)
  show "store_map e (put_shard s i sh) = (store_map e s)(k := w)"
    using i k sh(2) len by (auto simp: store_map_def fun_eq_iff nth_list_update)
qed

end
