(* ===== verification/Store_Correct.thy ===== *)
theory Store_Correct
  imports Store
begin

text \<open>
  Correctness of the store operations against the abstract contents: a map from keys to a
  value and a deadline. Every operation keeps the invariant, never touches a dangling
  iterator, and changes the abstract contents as its specification says; \<open>set\<close> respects the
  capacity and evicts the least recently used key of the fullest shard.
\<close>

section \<open>Size and eviction\<close>

lemma store_size_sum: "store_size s = sum_list (map (\<lambda>sh. length (smap sh)) (shards s))"
proof -
  have "foldl (\<lambda>total sh. total + length (smap sh)) n shs = n + sum_list (map (\<lambda>sh. length (smap sh)) shs)"
    for n and shs :: "shard list" by (induction shs arbitrary: n) auto
  then show ?thesis by (simp add: store_size_def)
qed

lemma store_size_put:
  assumes "i < length (shards s)"
  shows "store_size (put_shard s i sh) + length (smap (shards s ! i)) = store_size s + length (smap sh)"
proof -
  let ?f = "\<lambda>sh. length (smap sh)"
  have split: "shards s = take i (shards s) @ shards s ! i # drop (Suc i) (shards s)"
    using assms by (rule id_take_nth_drop)
  have "sum_list (map ?f (shards s)) =
      sum_list (map ?f (take i (shards s))) + ?f (shards s ! i) + sum_list (map ?f (drop (Suc i) (shards s)))"
    by (subst split) simp
  moreover have "sum_list (map ?f ((shards s)[i := sh])) =
      sum_list (map ?f (take i (shards s))) + ?f sh + sum_list (map ?f (drop (Suc i) (shards s)))"
    using assms by (simp add: upd_conv_take_nth_drop)
  ultimately show ?thesis by (simp add: store_size_sum)
qed

lemma largest_shard_cases:
  "(largest_shard shs i sz idx = idx \<and> (\<forall>sh\<in>set shs. length (smap sh) \<le> sz)) \<or>
   (\<exists>j < length shs. largest_shard shs i sz idx = i + j \<and> sz < length (smap (shs ! j)) \<and>
      (\<forall>sh\<in>set shs. length (smap sh) \<le> length (smap (shs ! j))))"
proof (induction shs arbitrary: i sz idx)
  case Nil
  then show ?case by simp
next
  case (Cons a shs)
  show ?case
  proof (cases "sz < length (smap a)")
    case True
    from Cons.IH [of "Suc i" "length (smap a)" i] show ?thesis
    proof (elim disjE conjE exE)
      assume "largest_shard shs (Suc i) (length (smap a)) i = i"
        and "\<forall>sh\<in>set shs. length (smap sh) \<le> length (smap a)"
      with True show ?thesis by (intro disjI2 exI [of _ 0]) simp
    next
      fix j assume "j < length shs" "largest_shard shs (Suc i) (length (smap a)) i = Suc i + j"
        "length (smap a) < length (smap (shs ! j))"
        "\<forall>sh\<in>set shs. length (smap sh) \<le> length (smap (shs ! j))"
      with True show ?thesis by (intro disjI2 exI [of _ "Suc j"]) auto
    qed
  next
    case False
    from Cons.IH [of "Suc i" sz idx] show ?thesis
    proof (elim disjE conjE exE)
      assume "largest_shard shs (Suc i) sz idx = idx" and "\<forall>sh\<in>set shs. length (smap sh) \<le> sz"
      with False show ?thesis by (intro disjI1) auto
    next
      fix j assume "j < length shs" "largest_shard shs (Suc i) sz idx = Suc i + j"
        "sz < length (smap (shs ! j))" "\<forall>sh\<in>set shs. length (smap sh) \<le> length (smap (shs ! j))"
      with False show ?thesis by (intro disjI2 exI [of _ "Suc j"]) auto
    qed
  qed
qed

definition fullest :: "store \<Rightarrow> nat" where
  "fullest s = largest_shard (shards s) 0 0 0"

lemma fullest_lt: "store_ok e s \<Longrightarrow> fullest s < SHARD_COUNT"
  using largest_shard_cases [of "shards s" 0 0 0] store_okD(1) [of e s]
  by (auto simp: fullest_def SHARD_COUNT_def)

lemma fullest_max:
  assumes "store_ok e s" and "i < SHARD_COUNT"
  shows "length (smap (shards s ! i)) \<le> length (smap (shards s ! fullest s))"
proof -
  have mem: "shards s ! i \<in> set (shards s)" using assms store_okD(1) [OF assms(1)] by simp
  from largest_shard_cases [of "shards s" 0 0 0] show ?thesis
  proof (elim disjE conjE exE)
    assume "\<forall>sh\<in>set (shards s). length (smap sh) \<le> 0"
    with mem have "length (smap (shards s ! i)) \<le> 0" by blast
    then show ?thesis by simp
  next
    fix j assume "largest_shard (shards s) 0 0 0 = 0 + j"
      and "\<forall>sh\<in>set (shards s). length (smap sh) \<le> length (smap (shards s ! j))"
    with mem show ?thesis unfolding fullest_def by simp
  qed
qed

lemma fullest_nonempty:
  assumes "store_ok e s" and "0 < store_size s"
  shows "recency (shards s ! fullest s) \<noteq> []"
proof
  assume "recency (shards s ! fullest s) = []"
  then have "length (smap (shards s ! fullest s)) = 0"
    using length_recency [OF store_okD(2) [OF assms(1) fullest_lt [OF assms(1)]]] by simp
  then have "length (smap sh) = 0" if "sh \<in> set (shards s)" for sh
  proof -
    from that obtain i where "i < SHARD_COUNT" "sh = shards s ! i"
      using store_okD(1) [OF assms(1)] by (auto simp: in_set_conv_nth)
    with fullest_max [OF assms(1), of i] \<open>length (smap (shards s ! fullest s)) = 0\<close> show ?thesis by simp
  qed
  then have "store_size s = 0" by (simp add: store_size_sum)
  with assms(2) show False by simp
qed

text \<open>The key a \<open>set\<close> evicts.\<close>

definition victim :: "store \<Rightarrow> string option" where
  "victim s =
     (if store_size s < max_keys s \<or> recency (shards s ! fullest s) = [] then None
      else Some (last (recency (shards s ! fullest s))))"

definition without :: "string option \<Rightarrow> (string \<rightharpoonup> 'a) \<Rightarrow> (string \<rightharpoonup> 'a)" where
  "without w m = (case w of None \<Rightarrow> m | Some k \<Rightarrow> m(k := None))"

lemma maybe_evict_ok:
  assumes ok: "store_ok e s"
  obtains s' where "maybe_evict s = Inr s'" "store_ok e s'" "max_keys s' = max_keys s"
    "store_map e s' = without (victim s) (store_map e s)"
    "store_size s' = (if victim s = None then store_size s else store_size s - 1)"
    "victim s \<noteq> None \<longrightarrow> 0 < store_size s"
proof (cases "store_size s < max_keys s")
  case True
  with ok that [of s] show ?thesis by (simp add: maybe_evict_def victim_def without_def)
next
  case big: False
  let ?sh = "shards s ! fullest s"
  have sh: "shard_ok ?sh" using ok fullest_lt [OF ok] by (rule store_okD(2))
  have i: "fullest s < length (shards s)" using fullest_lt [OF ok] store_okD(1) [OF ok] by simp
  show ?thesis
  proof (cases "recency ?sh = []")
    case True
    then have "maybe_evict s = Inr s"
      using big i by (simp add: maybe_evict_def evict_locked_empty put_shard_same flip: fullest_def)
    with True ok that [of s] show ?thesis by (simp add: victim_def without_def)
  next
    case False
    let ?k = "last (recency ?sh)"
    obtain sh' where e: "evict_locked ?sh = Inr (Some ?k, sh')" "shard_ok sh'"
      "contents sh' = (contents ?sh)(?k := None)" "recency sh' = butlast (recency ?sh)"
      using sh False by (rule evict_locked_ok)
    have "?k \<in> dom (contents ?sh)" using False last_in_set by (metis set_recency [OF sh])
    then have k: "shard_for e ?k = fullest s" by (rule store_okD(3) [OF ok fullest_lt [OF ok]])
    note put = put_shard_upd [OF ok fullest_lt [OF ok] k e(2,3)]
    have len: "Suc (length (smap sh')) = length (smap ?sh)"
    proof -
      have "Suc (length (butlast (recency ?sh))) = length (recency ?sh)"
        using False by (cases "recency ?sh" rule: rev_cases) simp_all
      then show ?thesis
        using length_recency [OF sh] length_recency [OF e(2)] unfolding e(4) by linarith
    qed
    have "store_size (put_shard s (fullest s) sh') + length (smap ?sh) = store_size s + length (smap sh')"
      by (rule store_size_put [OF i])
    then have "Suc (store_size (put_shard s (fullest s) sh')) = store_size s" using len by simp
    moreover have "maybe_evict s = Inr (put_shard s (fullest s) sh')"
      using big e(1) by (simp add: maybe_evict_def flip: fullest_def)
    ultimately show ?thesis
      using that [of "put_shard s (fullest s) sh'"] put big False by (simp add: victim_def without_def)
  qed
qed

section \<open>Specifications of the operations\<close>

text \<open>The deadline \<open>set\<close> stores.\<close>

definition deadline :: "int \<Rightarrow> int \<Rightarrow> int" where
  "deadline ttl now = (if ttl > 0 then now + ttl else -1)"

lemma store_set_ok:
  assumes ok: "store_ok e s" and range: "0 < ttl \<longrightarrow> in_int64 (now + ttl)"
  obtains s' where "store_set e s k v ttl now = Inr s'" "store_ok e s'" "max_keys s' = max_keys s"
    "store_map e s' = (without (victim s) (store_map e s))(k \<mapsto> (v, deadline ttl now))"
    "store_size s' \<le> max (store_size s) (max 1 (max_keys s))"
proof -
  obtain s1 where s1: "maybe_evict s = Inr s1" "store_ok e s1" "max_keys s1 = max_keys s"
    "store_map e s1 = without (victim s) (store_map e s)"
    "store_size s1 = (if victim s = None then store_size s else store_size s - 1)"
    "victim s \<noteq> None \<longrightarrow> 0 < store_size s"
    using ok by (rule maybe_evict_ok)
  let ?i = "shard_for e k" and ?sh = "shards s1 ! shard_for e k"
  obtain sh where sh: "set_locked ?sh k v (deadline ttl now) = Inr sh" "shard_ok sh"
    "contents sh = (contents ?sh)(k \<mapsto> (v, deadline ttl now))" "recency sh = k # removeAll k (recency ?sh)"
    using shard_for_ok [OF s1(2)] by (rule set_locked_ok)
  let ?s = "put_shard s1 ?i sh"
  note put = put_shard_upd [OF s1(2) shard_for_lt refl sh(2,3)]
  have "(if ttl > 0 then add64 now ttl else Inr (-1)) = Inr (deadline ttl now)"
    using range by (auto simp: deadline_def)
  then have run: "store_set e s k v ttl now = Inr ?s"
    using s1(1) sh(1) unfolding store_set_def by simp
  have len: "length (smap sh) \<le> Suc (length (smap ?sh))"
    using length_recency [OF sh(2)] length_recency [OF shard_for_ok [OF s1(2), of k]] sh(4)
      length_filter_le [of "\<lambda>y. y \<noteq> k" "recency ?sh"]
    by (simp add: removeAll_filter_neq)
  have "?i < length (shards s1)" using store_okD(1) [OF s1(2)] by simp
  from store_size_put [OF this, of sh] len have grow: "store_size ?s \<le> Suc (store_size s1)" by simp
  have "store_size ?s \<le> max (store_size s) (max 1 (max_keys s))"
  proof (cases "victim s")
    case None
    show ?thesis
    proof (cases "store_size s < max_keys s")
      case True
      with None s1(5) grow show ?thesis by simp
    next
      case False
      with None have "recency (shards s ! fullest s) = []" by (simp add: victim_def split: if_splits)
      with fullest_nonempty [OF ok] have "store_size s = 0" by auto
      with None s1(5) grow show ?thesis by simp
    qed
  next
    case (Some w)
    with s1(5,6) grow show ?thesis by simp
  qed
  with run put s1 that [of ?s] show ?thesis by simp
qed

lemma store_set_overflow:
  assumes ok: "store_ok e s" and "ttl > 0" and "\<not> in_int64 (now + ttl)"
  shows "store_set e s k v ttl now = Inl SignedOverflow"
proof -
  obtain s1 where "maybe_evict s = Inr s1" using ok by (rule maybe_evict_ok)
  with assms show ?thesis by (simp add: store_set_def add64_def)
qed

lemma store_get_ok:
  assumes ok: "store_ok e s"
  obtains s' where "store_get e s k now1 now2 =
      Inr (case live (store_map e s) now1 k of Some v \<Rightarrow> Some v | None \<Rightarrow> live (store_map e s) now2 k, s')"
    "store_ok e s'" "max_keys s' = max_keys s"
    "store_map e s' = (if live (store_map e s) now1 k = None \<and> live (store_map e s) now2 k = None
                       then (store_map e s)(k := None) else store_map e s)"
    "live (store_map e s) now1 k \<noteq> None \<longrightarrow> s' = s"
proof -
  let ?i = "shard_for e k" and ?sh = "shards s ! shard_for e k"
  have m: "store_map e s k = contents ?sh k" by (simp add: store_map_def)
  have lv: "live (store_map e s) now k = live (contents ?sh) now k" for now by (simp add: live_def m)
  show ?thesis
  proof (cases "get_shared ?sh k now1")
    case (GetReturn r)
    then have "live (store_map e s) now1 k = r \<and> (r = None \<longrightarrow> store_map e s k = None)"
      by (auto simp: get_shared_eq lv live_def m split: option.splits if_splits)
    moreover from this have "r = None \<Longrightarrow> live (store_map e s) now2 k = None" by (simp add: live_def)
    ultimately show ?thesis
      using GetReturn ok that [of s] by (cases r) (auto simp: store_get_def fun_upd_idem)
  next
    case GetUpgrade
    obtain sh where g: "get_exclusive ?sh k now2 = Inr (live (contents ?sh) now2 k, sh)" "shard_ok sh"
      "contents sh = (if live (contents ?sh) now2 k = None then (contents ?sh)(k := None) else contents ?sh)"
      using shard_for_ok [OF ok] by (rule get_exclusive_ok)
    let ?w = "if live (contents ?sh) now2 k = None then None else store_map e s k"
    have c: "contents sh = (contents ?sh)(k := ?w)" by (auto simp: g(3) m fun_eq_iff)
    note put = put_shard_upd [OF ok shard_for_lt refl g(2) c]
    have "live (store_map e s) now1 k = None"
      using GetUpgrade by (auto simp: get_shared_eq live_def m split: option.splits if_splits)
    moreover have "store_get e s k now1 now2 = Inr (live (store_map e s) now2 k, put_shard s ?i sh)"
      using GetUpgrade g(1) by (simp add: store_get_def lv)
    ultimately show ?thesis
      using put that [of "put_shard s ?i sh"] by (auto simp: lv fun_upd_idem)
  qed
qed

lemma live_store_map: "live (contents (shards s ! shard_for e k)) now k = live (store_map e s) now k"
  by (simp add: live_def store_map_def)

lemma store_exists_eq: "store_exists e s k now = (live (store_map e s) now k \<noteq> None)"
  by (simp add: store_exists_def exists_shared_eq live_store_map)

lemma store_ttl_eq:
  "store_ttl e s k now =
     (case store_map e s k of
        None \<Rightarrow> Inr (-2)
      | Some (v, x) \<Rightarrow>
          if x < 0 then Inr (-1)
          else rbind (sub64 x now) (\<lambda>remaining. Inr (if remaining > 0 then remaining else -2)))"
  by (simp add: store_ttl_def ttl_shared_eq store_map_def)

lemma store_del_ok:
  assumes ok: "store_ok e s"
  obtains s' where "store_del e s k = Inr (k \<in> dom (store_map e s), s')" "store_ok e s'"
    "max_keys s' = max_keys s" "store_map e s' = (store_map e s)(k := None)"
proof -
  let ?sh = "shards s ! shard_for e k"
  obtain sh where d: "del_locked ?sh k = Inr (k \<in> dom (contents ?sh), sh)" "shard_ok sh"
    "contents sh = (contents ?sh)(k := None)"
    using shard_for_ok [OF ok] by (rule del_locked_ok)
  moreover have "k \<in> dom (contents ?sh) \<longleftrightarrow> k \<in> dom (store_map e s)"
    by (simp add: store_map_def domIff)
  ultimately show ?thesis
    using put_shard_upd [OF ok shard_for_lt refl d(2,3)] that [of "put_shard s (shard_for e k) sh"]
    by (simp add: store_del_def)
qed

lemma store_expire_ok:
  assumes ok: "store_ok e s" and range: "in_int64 (now2 + ttl)"
  obtains s' where "store_expire e s k ttl now1 now2 = Inr (live (store_map e s) now1 k \<noteq> None, s')"
    "store_ok e s'" "max_keys s' = max_keys s"
    "store_map e s' = (case live (store_map e s) now1 k of None \<Rightarrow> store_map e s
                       | Some v \<Rightarrow> (store_map e s)(k \<mapsto> (v, now2 + ttl)))"
proof -
  let ?sh = "shards s ! shard_for e k"
  let ?w = "case live (store_map e s) now1 k of None \<Rightarrow> store_map e s k | Some v \<Rightarrow> Some (v, now2 + ttl)"
  obtain sh where d: "expire_locked ?sh k ttl now1 now2 = Inr (live (contents ?sh) now1 k \<noteq> None, sh)"
    "shard_ok sh" "contents sh = (case live (contents ?sh) now1 k of None \<Rightarrow> contents ?sh
       | Some v \<Rightarrow> (contents ?sh)(k \<mapsto> (v, now2 + ttl)))"
    using shard_for_ok [OF ok] range by (rule expire_locked_ok)
  have c: "contents sh = (contents ?sh)(k := ?w)"
    by (simp add: d(3) live_store_map store_map_def fun_upd_idem split: option.splits)
  show ?thesis
    using put_shard_upd [OF ok shard_for_lt refl d(2) c] d(1) that [of "put_shard s (shard_for e k) sh"]
    by (simp add: store_expire_def live_store_map fun_upd_idem split: option.splits)
qed

lemma store_expire_overflow:
  assumes "live (store_map e s) now1 k \<noteq> None" and "\<not> in_int64 (now2 + ttl)"
  shows "store_expire e s k ttl now1 now2 = Inl SignedOverflow"
  using assms
  by (auto simp: store_expire_def expire_locked_def add64_def live_def store_map_def contents_def
      is_expired_expired_at split: option.splits if_splits)

lemma store_expire_missing:
  assumes ok: "store_ok e s" and "live (store_map e s) now1 k = None"
  shows "store_expire e s k ttl now1 now2 = Inr (False, s)"
  using assms store_okD(1) [OF ok]
  by (auto simp: store_expire_def expire_locked_def live_def store_map_def contents_def
      is_expired_expired_at put_shard_same split: option.splits if_splits)

lemma store_incr_ok:
  assumes ok: "store_ok e s" and base: "incr_base (live (store_map e s) now k) = Some n"
    and range: "in_int64 (n + 1)"
  obtains s' where "store_incr e s k now = Inr (Some (n + 1), s')" "store_ok e s'"
    "max_keys s' = max_keys s" "store_map e s' = (store_map e s)(k \<mapsto> (to_string (n + 1), -1))"
proof -
  let ?sh = "shards s ! shard_for e k"
  have b: "incr_base (live (contents ?sh) now k) = Some n" using base by (simp add: live_store_map)
  obtain sh where d: "incr_locked ?sh k now = Inr (Some (n + 1), sh)" "shard_ok sh"
    "contents sh = (contents ?sh)(k \<mapsto> (to_string (n + 1), -1))"
    using shard_for_ok [OF ok] b range by (rule incr_locked_ok)
  show ?thesis
    using put_shard_upd [OF ok shard_for_lt refl d(2,3)] d(1) that [of "put_shard s (shard_for e k) sh"]
    by (simp add: store_incr_def)
qed

lemma store_incr_not_integer:
  assumes ok: "store_ok e s" and "incr_base (live (store_map e s) now k) = None"
  shows "store_incr e s k now = Inr (None, s)"
  using assms incr_locked_not_integer [of "shards s ! shard_for e k" now k] store_okD(1) [OF ok]
  by (simp add: store_incr_def live_store_map put_shard_same)

lemma store_incr_overflow:
  assumes ok: "store_ok e s" and "incr_base (live (store_map e s) now k) = Some n" and "\<not> in_int64 (n + 1)"
  shows "store_incr e s k now = Inl SignedOverflow"
  using assms incr_locked_overflow [OF shard_for_ok [OF ok, of k], of now k n]
  by (simp add: store_incr_def live_store_map)

section \<open>Operations on all shards\<close>

lemma flush_shards_ok:
  assumes "\<forall>sh\<in>set shs. shard_ok sh"
  shows "\<exists>shs'. flush_shards shs = Inr shs' \<and> length shs' = length shs \<and>
           (\<forall>sh\<in>set shs'. shard_ok sh \<and> contents sh = Map.empty \<and> heap sh = [])"
  using assms
proof (induction shs)
  case (Cons sh shs)
  obtain sh' where "flush_locked sh = Inr sh'" "shard_ok sh'" "contents sh' = Map.empty" "heap sh' = []"
    using flush_locked_ok [of sh] Cons.prems by auto
  with Cons show ?case by auto
qed simp

lemma all_shards: "store_ok e s \<longleftrightarrow> length (shards s) = SHARD_COUNT \<and>
   (\<forall>sh\<in>set (shards s). shard_ok sh) \<and>
   (\<forall>i < SHARD_COUNT. \<forall>k\<in>dom (contents (shards s ! i)). shard_for e k = i)"
  by (auto simp: store_ok_def all_set_conv_all_nth)

lemma store_flush_ok:
  assumes ok: "store_ok e s"
  obtains s' where "store_flush s = Inr s'" "store_ok e s'" "max_keys s' = max_keys s"
    "store_map e s' = Map.empty" "\<forall>sh\<in>set (shards s'). heap sh = []"
proof -
  from flush_shards_ok [of "shards s"] ok obtain shs where
    f: "flush_shards (shards s) = Inr shs" "length shs = length (shards s)"
      "\<forall>sh\<in>set shs. shard_ok sh \<and> contents sh = Map.empty \<and> heap sh = []"
    by (auto simp: all_shards)
  have nth: "contents (shs ! i) = Map.empty" if "i < SHARD_COUNT" for i
    using f(2,3) that store_okD(1) [OF ok] by simp
  show ?thesis
    using that [of "s\<lparr>shards := shs\<rparr>"] f nth store_okD(1) [OF ok]
    by (auto simp: store_flush_def all_shards store_map_def fun_eq_iff)
qed

text \<open>What a sweep leaves of the contents.\<close>

definition swept :: "int \<Rightarrow> (string \<rightharpoonup> string \<times> int) \<Rightarrow> (string \<rightharpoonup> string \<times> int)" where
  "swept now c = (\<lambda>k. case c k of None \<Rightarrow> None | Some (v, x) \<Rightarrow> if expired_at x now then None else Some (v, x))"

lemma sweep_shards_ok:
  assumes "\<forall>sh\<in>set shs. shard_ok sh"
  shows "\<exists>shs'. sweep_shards now shs removed = Inr (removed +
             sum_list (map (\<lambda>sh. length (smap sh)) shs) - sum_list (map (\<lambda>sh. length (smap sh)) shs'), shs') \<and>
           sum_list (map (\<lambda>sh. length (smap sh)) shs') \<le> sum_list (map (\<lambda>sh. length (smap sh)) shs) \<and>
           list_all2 (\<lambda>sh sh'. shard_ok sh' \<and> contents sh' = swept now (contents sh)) shs shs'"
  using assms
proof (induction shs arbitrary: removed)
  case (Cons sh shs)
  obtain sh' where a: "sweep_locked now sh removed = Inr (removed + length (smap sh) - length (smap sh'), sh')"
    "shard_ok sh'" "length (smap sh') \<le> length (smap sh)" "contents sh' = swept now (contents sh)"
    using sweep_locked_ok [of sh now removed] Cons.prems unfolding swept_def by auto
  let ?r = "removed + length (smap sh) - length (smap sh')"
  from Cons.IH [of ?r] Cons.prems obtain shs' where
    b: "sweep_shards now shs ?r = Inr (?r + sum_list (map (\<lambda>sh. length (smap sh)) shs) -
          sum_list (map (\<lambda>sh. length (smap sh)) shs'), shs')"
      "sum_list (map (\<lambda>sh. length (smap sh)) shs') \<le> sum_list (map (\<lambda>sh. length (smap sh)) shs)"
      "list_all2 (\<lambda>sh sh'. shard_ok sh' \<and> contents sh' = swept now (contents sh)) shs shs'" by auto
  with a show ?case by (intro exI [of _ "sh' # shs'"]) auto
qed simp

lemma store_sweep_ok:
  assumes ok: "store_ok e s"
  obtains s' where "store_sweep_expired s now = Inr (store_size s - store_size s', s')" "store_ok e s'"
    "max_keys s' = max_keys s" "store_size s' \<le> store_size s" "store_map e s' = swept now (store_map e s)"
proof -
  from sweep_shards_ok [of "shards s" now 0] ok obtain shs where
    f: "sweep_shards now (shards s) 0 = Inr (sum_list (map (\<lambda>sh. length (smap sh)) (shards s)) -
          sum_list (map (\<lambda>sh. length (smap sh)) shs), shs)"
      "sum_list (map (\<lambda>sh. length (smap sh)) shs) \<le> sum_list (map (\<lambda>sh. length (smap sh)) (shards s))"
      "list_all2 (\<lambda>sh sh'. shard_ok sh' \<and> contents sh' = swept now (contents sh)) (shards s) shs"
    by (auto simp: all_shards)
  note len = store_okD(1) [OF ok] list_all2_lengthD [OF f(3)]
  have nth: "shard_ok (shs ! i) \<and> contents (shs ! i) = swept now (contents (shards s ! i))"
    if "i < SHARD_COUNT" for i
    using list_all2_nthD [OF f(3)] that len by simp
  have "store_ok e (s\<lparr>shards := shs\<rparr>)"
    unfolding store_ok_def
    using ok nth len by (auto simp: store_ok_def swept_def dom_def split: option.splits if_splits)
  moreover have "store_map e (s\<lparr>shards := shs\<rparr>) = swept now (store_map e s)"
    by (simp add: store_map_def nth swept_def fun_eq_iff)
  ultimately show ?thesis
    using that [of "s\<lparr>shards := shs\<rparr>"] f(1,2) by (simp add: store_sweep_expired_def store_size_sum)
qed

section \<open>Listing\<close>

lemma map_of_contents: "contents sh k = Some (v, x) \<longleftrightarrow>
   (\<exists>ent. map_of (smap sh) k = Some ent \<and> entry_value ent = v \<and> expires_at_ms ent = x)"
  by (auto simp: contents_def)

lemma shard_member:
  assumes "shard_ok sh"
  shows "(k, ent) \<in> set (smap sh) \<longleftrightarrow> map_of (smap sh) k = Some ent"
  using assms by (simp add: shard_ok_def)

lemma keys_shared_set:
  assumes "shard_ok sh"
  shows "set (keys_shared e sh p now) =
           {k. live (contents sh) now k \<noteq> None \<and> (p = ''*'' \<or> fnmatch_fn e (c_str p) (c_str k))}"
    and "distinct (keys_shared e sh p now)"
proof -
  show "set (keys_shared e sh p now) =
      {k. live (contents sh) now k \<noteq> None \<and> (p = ''*'' \<or> fnmatch_fn e (c_str p) (c_str k))}"
    by (force simp: keys_shared_def shard_member [OF assms] live_def contents_def is_expired_expired_at
        split: option.splits if_splits)
  have "distinct (map fst (smap sh))" using assms by (simp add: shard_ok_def)
  then show "distinct (keys_shared e sh p now)"
    unfolding keys_shared_def by (rule distinct_map_filter)
qed

lemma for_each_shared_set:
  assumes "shard_ok sh"
  shows "(k, v, x) \<in> set (for_each_shared sh now) \<longleftrightarrow> contents sh k = Some (v, x) \<and> \<not> expired_at x now"
    and "distinct (map fst (for_each_shared sh now))"
proof -
  show "(k, v, x) \<in> set (for_each_shared sh now) \<longleftrightarrow> contents sh k = Some (v, x) \<and> \<not> expired_at x now"
    by (force simp: for_each_shared_def shard_member [OF assms] map_of_contents is_expired_expired_at)
  have d: "distinct (map fst (smap sh))" using assms by (simp add: shard_ok_def)
  have "map fst (for_each_shared sh now) = map fst (filter (\<lambda>(k, v). \<not> is_expired v now) (smap sh))"
    by (simp add: for_each_shared_def case_prod_unfold)
  with distinct_map_filter [OF d] show "distinct (map fst (for_each_shared sh now))" by simp
qed

text \<open>
  A key of one shard is in no other, so concatenating the listings of the shards keeps keys
  distinct and collects exactly the keys of the store.
\<close>

lemma distinct_concat_shards:
  assumes ok: "store_ok e s"
    and d: "\<And>sh. sh \<in> set (shards s) \<Longrightarrow> distinct (f sh)"
    and sub: "\<And>sh. sh \<in> set (shards s) \<Longrightarrow> set (f sh) \<subseteq> dom (contents sh)"
  shows "distinct (concat (map f (shards s)))"
proof -
  have "distinct (concat (map f shs))"
    if "shs = take n (shards s)" for n shs
    using that
  proof (induction n arbitrary: shs)
    case (Suc n)
    show ?case
    proof (cases "n < length (shards s)")
      case True
      let ?sh = "shards s ! n"
      have shs: "shs = take n (shards s) @ [?sh]" using Suc.prems True by (simp add: take_Suc_conv_app_nth)
      have "set (f ?sh) \<inter> set (concat (map f (take n (shards s)))) = {}"
      proof (rule ccontr)
        assume "\<not> ?thesis"
        then obtain k sh where k: "k \<in> set (f ?sh)" "sh \<in> set (take n (shards s))" "k \<in> set (f sh)" by auto
        from k(2) obtain j where j: "j < n" "j < length (shards s)" "sh = shards s ! j"
          by (auto simp: in_set_conv_nth)
        have "k \<in> dom (contents ?sh)" "k \<in> dom (contents (shards s ! j))"
          using sub [of ?sh] sub [of sh] k True j by auto
        then have "n = j" using store_okD(1,3) [OF ok] True j by metis
        with j(1) show False by simp
      qed
      then show ?thesis using Suc.IH [OF refl] d [of ?sh] True unfolding shs by auto
    next
      case False
      with Suc show ?thesis by simp
    qed
  qed simp
  from this [of _ "length (shards s)"] show ?thesis by simp
qed

lemma ex_shard_conv:
  assumes ok: "store_ok e s" and sub: "\<And>sh. sh \<in> set (shards s) \<Longrightarrow> P sh \<Longrightarrow> k \<in> dom (contents sh)"
  shows "(\<exists>sh\<in>set (shards s). P sh) \<longleftrightarrow> P (shards s ! shard_for e k)"
proof
  assume "\<exists>sh\<in>set (shards s). P sh"
  then obtain i where i: "i < SHARD_COUNT" "P (shards s ! i)"
    using store_okD(1) [OF ok] by (auto simp: in_set_conv_nth)
  with sub have "k \<in> dom (contents (shards s ! i))" using store_okD(1) [OF ok] by simp
  then have "shard_for e k = i" using store_okD(3) [OF ok] i by blast
  with i show "P (shards s ! shard_for e k)" by simp
next
  assume "P (shards s ! shard_for e k)"
  then show "\<exists>sh\<in>set (shards s). P sh" using store_okD(1) [OF ok] by (intro bexI) auto
qed

lemma store_keys_set:
  assumes ok: "store_ok e s"
  shows "set (store_keys e s p now) =
           {k. live (store_map e s) now k \<noteq> None \<and> (p = ''*'' \<or> fnmatch_fn e (c_str p) (c_str k))}"
    and "distinct (store_keys e s p now)"
proof -
  have sh: "shard_ok sh" if "sh \<in> set (shards s)" for sh using ok that by (simp add: all_shards)
  have sub: "set (keys_shared e sh p now) \<subseteq> dom (contents sh)" if "sh \<in> set (shards s)" for sh
    using keys_shared_set(1) [OF sh [OF that]] by (auto simp: live_def split: option.splits)
  have "k \<in> set (store_keys e s p now) \<longleftrightarrow> k \<in> set (keys_shared e (shards s ! shard_for e k) p now)" for k
    unfolding store_keys_def using ex_shard_conv [OF ok, of "\<lambda>sh. k \<in> set (keys_shared e sh p now)" k] sub by auto
  then show "set (store_keys e s p now) =
      {k. live (store_map e s) now k \<noteq> None \<and> (p = ''*'' \<or> fnmatch_fn e (c_str p) (c_str k))}"
    using keys_shared_set(1) [OF shard_for_ok [OF ok]] by (auto simp: live_store_map)
  show "distinct (store_keys e s p now)"
    unfolding store_keys_def using keys_shared_set(2) [OF sh] sub by (intro distinct_concat_shards [OF ok])
qed

lemma store_for_each_set:
  assumes ok: "store_ok e s"
  shows "(k, v, x) \<in> set (store_for_each s now) \<longleftrightarrow> store_map e s k = Some (v, x) \<and> \<not> expired_at x now"
    and "distinct (map fst (store_for_each s now))"
proof -
  have sh: "shard_ok sh" if "sh \<in> set (shards s)" for sh using ok that by (simp add: all_shards)
  have "(k, v, x) \<in> set (store_for_each s now) \<longleftrightarrow>
      (k, v, x) \<in> set (for_each_shared (shards s ! shard_for e k) now)"
    unfolding store_for_each_def
    using ex_shard_conv [OF ok, of "\<lambda>sh. (k, v, x) \<in> set (for_each_shared sh now)" k]
      for_each_shared_set(1) [OF sh] by auto
  then show "(k, v, x) \<in> set (store_for_each s now) \<longleftrightarrow> store_map e s k = Some (v, x) \<and> \<not> expired_at x now"
    using for_each_shared_set(1) [OF shard_for_ok [OF ok]] by (simp add: store_map_def)
  have "map fst (store_for_each s now) = concat (map (\<lambda>sh. map fst (for_each_shared sh now)) (shards s))"
    by (simp add: store_for_each_def map_concat comp_def)
  moreover have "set (map fst (for_each_shared sh now)) \<subseteq> dom (contents sh)" if "sh \<in> set (shards s)" for sh
    using for_each_shared_set(1) [OF sh [OF that]] by force
  ultimately show "distinct (map fst (store_for_each s now))"
    using for_each_shared_set(2) [OF sh] by (simp add: distinct_concat_shards [OF ok])
qed

lemma store_size_card:
  assumes ok: "store_ok e s"
  shows "store_size s = card (dom (store_map e s))"
proof -
  let ?keys = "concat (map (\<lambda>sh. map fst (smap sh)) (shards s))"
  have sh: "shard_ok sh" if "sh \<in> set (shards s)" for sh using ok that by (simp add: all_shards)
  have "distinct ?keys"
    using sh by (intro distinct_concat_shards [OF ok]) (auto simp: shard_ok_def dom_contents)
  moreover have "k \<in> set ?keys \<longleftrightarrow> k \<in> dom (store_map e s)" for k
  proof -
    have "k \<in> set ?keys \<longleftrightarrow> (\<exists>sh\<in>set (shards s). k \<in> dom (contents sh))" by (simp add: dom_contents)
    also have "\<dots> \<longleftrightarrow> k \<in> dom (contents (shards s ! shard_for e k))" by (rule ex_shard_conv [OF ok])
    finally show ?thesis by (simp add: store_map_def domIff)
  qed
  moreover have "length ?keys = store_size s" by (simp add: length_concat store_size_sum comp_def)
  ultimately show ?thesis by (metis distinct_card subsetI subset_antisym)
qed

text \<open>Below the capacity nothing is evicted.\<close>

lemma store_set_fresh:
  assumes "store_ok e s" and "0 < ttl \<longrightarrow> in_int64 (now + ttl)" and "store_size s < max_keys s"
  obtains s' where "store_set e s k v ttl now = Inr s'" "store_ok e s'" "max_keys s' = max_keys s"
    "store_map e s' = (store_map e s)(k \<mapsto> (v, deadline ttl now))" "store_size s' \<le> Suc (store_size s)"
proof -
  have v: "victim s = None" using assms(3) by (simp add: victim_def)
  obtain s' where s': "store_set e s k v ttl now = Inr s'" "store_ok e s'" "max_keys s' = max_keys s"
    "store_map e s' = (without (victim s) (store_map e s))(k \<mapsto> (v, deadline ttl now))"
    using assms(1,2) by (rule store_set_ok)
  have "card (insert k (dom (store_map e s))) \<le> Suc (card (dom (store_map e s)))"
    by (cases "finite (dom (store_map e s))") (simp_all add: card_insert_if)
  then have "store_size s' \<le> Suc (store_size s)"
    unfolding store_size_card [OF s'(2)] store_size_card [OF assms(1)] s'(4) v by (simp add: without_def)
  with s' v that show ?thesis by (simp add: without_def)
qed

end
