(* ===== verification/Store_Interface.thy ===== *)
theory Store_Interface
  imports Store_Correct
begin

text \<open>
  The contract of the store as the command handlers, the snapshot loader and the log replay
  see it, what follows from the contract alone, its interpretation on the model of
  \<open>Store.cpp\<close>, and the properties of the store.
\<close>

section \<open>The contract\<close>

locale cache_store =
  fixes inv :: "'e \<Rightarrow> 's \<Rightarrow> bool"
    and view :: "'e \<Rightarrow> 's \<Rightarrow> string \<Rightarrow> (string \<times> int) option"
    and set_op :: "'e \<Rightarrow> 's \<Rightarrow> string \<Rightarrow> string \<Rightarrow> int \<Rightarrow> int \<Rightarrow> 's result"
    and get_op :: "'e \<Rightarrow> 's \<Rightarrow> string \<Rightarrow> int \<Rightarrow> int \<Rightarrow> (string option \<times> 's) result"
    and del_op :: "'e \<Rightarrow> 's \<Rightarrow> string \<Rightarrow> (bool \<times> 's) result"
    and expire_op :: "'e \<Rightarrow> 's \<Rightarrow> string \<Rightarrow> int \<Rightarrow> int \<Rightarrow> int \<Rightarrow> (bool \<times> 's) result"
  assumes set_law: "inv e s \<Longrightarrow> 0 < ttl \<longrightarrow> in_int64 (now + ttl) \<Longrightarrow>
        \<exists>s' w. set_op e s k v ttl now = Inr s' \<and> inv e s' \<and>
               view e s' = (without w (view e s))(k \<mapsto> (v, deadline ttl now))"
    and get_law: "inv e s \<Longrightarrow>
        \<exists>s'. get_op e s k now1 now2 =
               Inr (case live (view e s) now1 k of Some v \<Rightarrow> Some v | None \<Rightarrow> live (view e s) now2 k, s') \<and>
             inv e s' \<and>
             view e s' = (if live (view e s) now1 k = None \<and> live (view e s) now2 k = None
                          then (view e s)(k := None) else view e s)"
    and del_law: "inv e s \<Longrightarrow>
        \<exists>s'. del_op e s k = Inr (k \<in> dom (view e s), s') \<and> inv e s' \<and> view e s' = (view e s)(k := None)"
    and expire_law: "inv e s \<Longrightarrow> in_int64 (now2 + ttl) \<Longrightarrow>
        \<exists>s'. expire_op e s k ttl now1 now2 = Inr (live (view e s) now1 k \<noteq> None, s') \<and> inv e s' \<and>
             view e s' = (case live (view e s) now1 k of None \<Rightarrow> view e s
                          | Some v \<Rightarrow> (view e s)(k \<mapsto> (v, now2 + ttl)))"
begin

lemma set_view:
  assumes "inv e s" and "set_op e s k v ttl now = Inr s'" and "0 < ttl \<longrightarrow> in_int64 (now + ttl)"
  shows "inv e s'" and "view e s' k = Some (v, deadline ttl now)"
  using set_law [OF assms(1,3), of k v] assms(2) by auto

lemma set_then_get:
  assumes "inv e s" and "set_op e s k v ttl now = Inr s'" and "0 < ttl \<longrightarrow> in_int64 (now + ttl)"
    and "\<not> expired_at (deadline ttl now) now1"
  shows "\<exists>s''. get_op e s' k now1 now2 = Inr (Some v, s'') \<and> view e s'' = view e s'"
proof -
  note i = set_view(1) [OF assms(1-3)] and v = set_view(2) [OF assms(1-3)]
  from v assms(4) have "live (view e s') now1 k = Some v" by (simp add: live_def)
  with get_law [OF i, of k now1 now2] show ?thesis by auto
qed

lemma set_then_get_expired:
  assumes "inv e s" and "set_op e s k v ttl now = Inr s'" and "0 < ttl" and "in_int64 (now + ttl)" and "0 \<le> now"
    and "now + ttl \<le> now1" and "now + ttl \<le> now2"
  shows "\<exists>s''. get_op e s' k now1 now2 = Inr (None, s'') \<and> view e s'' = (view e s')(k := None)"
proof -
  have "0 < ttl \<longrightarrow> in_int64 (now + ttl)" using assms(4) by simp
  note i = set_view(1) [OF assms(1,2) this] and v = set_view(2) [OF assms(1,2) this]
  from v assms(3,5-7) have "live (view e s') now1 k = None" "live (view e s') now2 k = None"
    by (simp_all add: live_def deadline_def expired_at_def)
  with get_law [OF i, of k now1 now2] show ?thesis by auto
qed

lemma del_then_get:
  assumes "inv e s" and "del_op e s k = Inr (b, s')"
  shows "\<exists>s''. get_op e s' k now1 now2 = Inr (None, s'') \<and> view e s'' = view e s'"
proof -
  from del_law [OF assms(1), of k] assms(2) have i: "inv e s'" and n: "view e s' k = None" by auto
  then have "live (view e s') now k = None" for now by (simp add: live_def)
  with get_law [OF i, of k now1 now2] n show ?thesis by (auto simp: fun_upd_idem)
qed

end

interpretation st: cache_store store_ok store_map store_set store_get store_del store_expire
proof
  fix e s ttl now k v
  assume ok: "store_ok e s" and r: "(0::int) < ttl \<longrightarrow> in_int64 (now + ttl)"
  show "\<exists>s' w. store_set e s k v ttl now = Inr s' \<and> store_ok e s' \<and>
      store_map e s' = (without w (store_map e s))(k \<mapsto> (v, deadline ttl now))"
    using ok r by (rule store_set_ok) blast
next
  fix e s k now1 now2
  assume ok: "store_ok e s"
  show "\<exists>s'. store_get e s k now1 now2 =
      Inr (case live (store_map e s) now1 k of Some v \<Rightarrow> Some v | None \<Rightarrow> live (store_map e s) now2 k, s') \<and>
      store_ok e s' \<and>
      store_map e s' = (if live (store_map e s) now1 k = None \<and> live (store_map e s) now2 k = None
                        then (store_map e s)(k := None) else store_map e s)"
    using ok by (rule store_get_ok) blast
next
  fix e s k
  assume ok: "store_ok e s"
  show "\<exists>s'. store_del e s k = Inr (k \<in> dom (store_map e s), s') \<and> store_ok e s' \<and>
      store_map e s' = (store_map e s)(k := None)"
    using ok by (rule store_del_ok) blast
next
  fix e s k ttl now1 now2
  assume ok: "store_ok e s" and r: "in_int64 (now2 + ttl)"
  show "\<exists>s'. store_expire e s k ttl now1 now2 = Inr (live (store_map e s) now1 k \<noteq> None, s') \<and>
      store_ok e s' \<and>
      store_map e s' = (case live (store_map e s) now1 k of None \<Rightarrow> store_map e s
                        | Some v \<Rightarrow> (store_map e s)(k \<mapsto> (v, now2 + ttl)))"
    using ok r by (rule store_expire_ok) blast
qed

section \<open>Properties\<close>

text \<open>
  C1: Functional refinement of \<open>set\<close>. Unless the deadline overflows, \<open>set\<close> completes, keeps the
  invariant, stores the value with deadline \<open>now + ttl\<close> (or none for a non-positive ttl), and
  leaves every other key as it was except for the one evicted key, if the store is full.
\<close>

theorem store_set_refines:
  assumes "store_ok e s" and "0 < ttl \<longrightarrow> in_int64 (now + ttl)"
  shows "\<exists>s'. store_set e s k v ttl now = Inr s' \<and> store_ok e s' \<and>
              store_map e s' = (without (victim s) (store_map e s))(k \<mapsto> (v, deadline ttl now))"
  using assms by (rule store_set_ok) blast

theorem store_set_refines_witness:
  "\<exists>s'. store_set sample_externals (store_init 2) ''k'' ''v'' 50 1000 = Inr s' \<and>
        store_map sample_externals s' ''k'' = Some (''v'', 1050)"
proof -
  have "0 < (50::int) \<longrightarrow> in_int64 (1000 + 50)" by (simp add: in_int64_def)
  from store_set_refines [OF store_ok_init this, of sample_externals 2 "''k''" "''v''"]
  show ?thesis by (auto simp: deadline_def)
qed




text \<open>A store filled to its capacity of two, for the examples below.\<close>

definition full_store :: store where
  "full_store =
     (case rbind (store_set sample_externals (store_init 2) ''a'' ''1'' (-1) 0)
             (\<lambda>s. store_set sample_externals s ''bb'' ''2'' 50 1000) of
        Inl f \<Rightarrow> store_init 2 | Inr s \<Rightarrow> s)"

lemma store_ok_full [simp]: "store_ok sample_externals full_store"
proof -
  obtain s1 where s1: "store_set sample_externals (store_init 2) ''a'' ''1'' (-1) 0 = Inr s1"
    "store_ok sample_externals s1"
    by (rule store_set_ok [OF store_ok_init, of "-1" 0]) auto
  have "in_int64 (1000 + 50)" by (simp add: in_int64_def)
  then obtain s2 where "store_set sample_externals s1 ''bb'' ''2'' 50 1000 = Inr s2" "store_ok sample_externals s2"
    using store_set_ok [OF s1(2), of 50 1000 "''bb''" "''2''"] by (metis (full_types))
  with s1(1) show ?thesis by (simp add: full_store_def)
qed

lemma full_store_eval:
  "store_size full_store = 2" "max_keys full_store = 2"
  "store_map sample_externals full_store ''a'' = Some (''1'', -1)"
  "store_map sample_externals full_store ''bb'' = Some (''2'', 1050)"
  by code_simp+


text \<open>
  Overwriting evicts. \<open>set\<close> makes room before it looks at the key, so replacing the value of
  a key that is already present in a full store throws another key away.
\<close>

theorem overwrite_evicts_other_key:
  "\<exists>s'. store_set sample_externals full_store ''bb'' ''3'' (-1) 0 = Inr s' \<and>
        store_map sample_externals full_store ''bb'' = Some (''2'', 1050) \<and>
        store_map sample_externals full_store ''a'' = Some (''1'', -1) \<and>
        store_map sample_externals s' ''a'' = None \<and> store_size s' = 1"
proof -
  have "rbind (store_set sample_externals full_store ''bb'' ''3'' (-1) 0)
      (\<lambda>s. Inr (store_map sample_externals s ''a'', store_size s)) = Inr (None, 1)" by code_simp
  then show ?thesis by (auto simp: full_store_eval)
qed

text \<open>
  Read your writes. After a \<open>set\<close>, \<open>get\<close> returns the stored value as long as its clock reading
  is before the deadline, and does not change the contents.
\<close>

theorem set_then_get_returns_value:
  assumes "store_ok e s" and "store_set e s k v ttl now = Inr s'" and "0 < ttl \<longrightarrow> in_int64 (now + ttl)"
    and "\<not> expired_at (deadline ttl now) now1"
  shows "\<exists>s''. store_get e s' k now1 now2 = Inr (Some v, s'') \<and> store_map e s'' = store_map e s'"
  using assms by (rule st.set_then_get)

theorem set_then_get_returns_value_witness:
  "\<exists>s' s''. store_set sample_externals full_store ''k'' ''v'' 50 1000 = Inr s' \<and>
            store_get sample_externals s' ''k'' 1049 1049 = Inr (Some ''v'', s'')"
proof -
  have r: "0 < (50::int) \<longrightarrow> in_int64 (1000 + 50)" by (simp add: in_int64_def)
  obtain s' where s': "store_set sample_externals full_store ''k'' ''v'' 50 1000 = Inr s'"
    using store_ok_full r by (rule store_set_ok)
  have "\<not> expired_at (deadline 50 1000) 1049" by (simp add: expired_at_def deadline_def)
  from set_then_get_returns_value [OF store_ok_full s' r this] s' show ?thesis by blast
qed

text \<open>
  Lazy expiry. Once the deadline has passed, \<open>get\<close> finds nothing and physically removes the
  entry.
\<close>

theorem expired_get_removes:
  assumes "store_ok e s" and "store_set e s k v ttl now = Inr s'" and "0 < ttl" and "in_int64 (now + ttl)"
    and "0 \<le> now" and "now + ttl \<le> now1" and "now + ttl \<le> now2"
  shows "\<exists>s''. store_get e s' k now1 now2 = Inr (None, s'') \<and> store_map e s'' = (store_map e s')(k := None)"
  using assms by (rule st.set_then_get_expired)

theorem expired_get_removes_witness:
  "\<exists>s' s''. store_set sample_externals full_store ''k'' ''v'' 50 1000 = Inr s' \<and>
            store_get sample_externals s' ''k'' 1050 1051 = Inr (None, s'')"
proof -
  have r: "0 < (50::int) \<longrightarrow> in_int64 (1000 + 50)" by (simp add: in_int64_def)
  obtain s' where s': "store_set sample_externals full_store ''k'' ''v'' 50 1000 = Inr s'"
    using store_ok_full r by (rule store_set_ok)
  from expired_get_removes [OF store_ok_full s', of 1050 1051] r s' show ?thesis by auto
qed

text \<open>
  A hit does not refresh recency. \<open>get\<close> of a live key returns under the shared lock and leaves
  the whole store, recency lists included, unchanged.
\<close>

theorem get_hit_leaves_store:
  assumes "store_ok e s" and "live (store_map e s) now1 k = Some v"
  shows "store_get e s k now1 now2 = Inr (Some v, s)"
  using assms(1) by (rule store_get_ok [of e s k now1 now2]) (use assms(2) in auto)

theorem get_hit_leaves_store_witness:
  "store_get sample_externals full_store ''a'' 5 5 = Inr (Some ''1'', full_store)"
proof (rule get_hit_leaves_store [OF store_ok_full])
  show "live (store_map sample_externals full_store) 5 ''a'' = Some ''1''"
    by (simp add: live_def full_store_eval expired_at_def)
qed

text \<open>
  Deletion. After \<open>del\<close>, which reports whether the key was stored, \<open>get\<close> finds nothing, and
  it leaves the contents alone.
\<close>

theorem del_then_get_none:
  assumes "store_ok e s" and "store_del e s k = Inr (b, s')"
  shows "(b \<longleftrightarrow> k \<in> dom (store_map e s)) \<and>
         (\<exists>s''. store_get e s' k now1 now2 = Inr (None, s'') \<and> store_map e s'' = store_map e s')"
proof -
  have "b \<longleftrightarrow> k \<in> dom (store_map e s)"
    using assms(1) by (rule store_del_ok [of e s k]) (use assms(2) in simp)
  with st.del_then_get [OF assms] show ?thesis by blast
qed

theorem del_then_get_none_witness:
  "\<exists>s' s''. store_del sample_externals full_store ''a'' = Inr (True, s') \<and>
            store_get sample_externals s' ''a'' 1 1 = Inr (None, s'')"
proof -
  obtain s' where s': "store_del sample_externals full_store ''a'' =
      Inr (''a'' \<in> dom (store_map sample_externals full_store), s')"
    using store_ok_full by (rule store_del_ok)
  from del_then_get_none [OF store_ok_full s', of 1 1] s' show ?thesis
    by (auto simp: full_store_eval dom_def)
qed

text \<open>
  Functional refinement of \<open>incr\<close> on all its branches. A value that does not start with an
  integer is refused and the store is left alone; an increment past the largest 64-bit value is a
  signed overflow; otherwise the new value is stored in decimal, without a deadline.
\<close>

theorem store_incr_refines:
  assumes "store_ok e s"
  shows "case incr_base (live (store_map e s) now k) of
           None \<Rightarrow> store_incr e s k now = Inr (None, s)
         | Some n \<Rightarrow>
             (if in_int64 (n + 1)
              then \<exists>s'. store_incr e s k now = Inr (Some (n + 1), s') \<and> store_ok e s' \<and>
                        store_map e s' = (store_map e s)(k \<mapsto> (to_string (n + 1), -1))
              else store_incr e s k now = Inl SignedOverflow)"
proof (cases "incr_base (live (store_map e s) now k)")
  case None
  with store_incr_not_integer [OF assms] show ?thesis by simp
next
  case (Some n)
  show ?thesis
  proof (cases "in_int64 (n + 1)")
    case True
    obtain s' where "store_incr e s k now = Inr (Some (n + 1), s')" "store_ok e s'"
      "store_map e s' = (store_map e s)(k \<mapsto> (to_string (n + 1), -1))"
      using assms Some True by (rule store_incr_ok)
    with Some True show ?thesis by simp
  next
    case False
    with store_incr_overflow [OF assms Some] Some show ?thesis by simp
  qed
qed

theorem store_incr_refines_witness:
  "\<exists>s'. store_incr sample_externals full_store ''a'' 5 = Inr (Some 2, s') \<and>
        store_map sample_externals s' ''a'' = Some (''2'', -1)"
proof -
  have "live (store_map sample_externals full_store) 5 ''a'' = Some ''1''"
    by (simp add: live_def full_store_eval expired_at_def)
  moreover have "incr_base (Some ''1'') = Some 1" "to_string 2 = ''2''" "in_int64 2" by code_simp+
  ultimately show ?thesis
    using store_incr_refines [OF store_ok_full, where now = 5 and k = "''a''"] by auto
qed

text \<open>
  \<open>incr\<close> accepts trailing garbage: it checks the error code of the conversion but not that
  the whole value was consumed, so a value that is not an integer is incremented.
\<close>

theorem incr_accepts_trailing_garbage:
  "\<exists>s s'. store_set sample_externals (store_init 4) ''k'' ''10abc'' (-1) 0 = Inr s \<and>
          store_incr sample_externals s ''k'' 0 = Inr (Some 11, s') \<and>
          store_map sample_externals s' ''k'' = Some (''11'', -1)"
proof -
  have "rbind (store_set sample_externals (store_init 4) ''k'' ''10abc'' (-1) 0)
      (\<lambda>s. rbind (store_incr sample_externals s ''k'' 0)
        (\<lambda>(r, s'). Inr (r, store_map sample_externals s' ''k''))) = Inr (Some 11, Some (''11'', -1))"
    by code_simp
  then show ?thesis by auto
qed

text \<open>
  \<open>incr\<close> does not respect the capacity: it inserts a new key into a full store without
  evicting.
\<close>

theorem incr_exceeds_capacity:
  "\<exists>s'. store_incr sample_externals full_store ''ccc'' 0 = Inr (Some 1, s') \<and>
        store_size full_store = max_keys full_store \<and> store_size s' = Suc (max_keys full_store)"
proof -
  have "rbind (store_incr sample_externals full_store ''ccc'' 0)
      (\<lambda>(r, s'). Inr (r, store_size s')) = Inr (Some 1, 3)"
    by code_simp
  then show ?thesis by (auto simp: full_store_eval)
qed

text \<open>
  Re-arming a deadline. \<open>expire\<close> of a live key answers true and stores \<open>now + ttl\<close>; of a key
  that is missing or already expired it answers false and leaves the store alone; a deadline outside
  64 bits is a signed overflow.
\<close>

theorem store_expire_refines:
  assumes "store_ok e s"
  shows "case live (store_map e s) now1 k of
           None \<Rightarrow> store_expire e s k ttl now1 now2 = Inr (False, s)
         | Some v \<Rightarrow>
             (if in_int64 (now2 + ttl)
              then \<exists>s'. store_expire e s k ttl now1 now2 = Inr (True, s') \<and> store_ok e s' \<and>
                        store_map e s' = (store_map e s)(k \<mapsto> (v, now2 + ttl))
              else store_expire e s k ttl now1 now2 = Inl SignedOverflow)"
proof (cases "live (store_map e s) now1 k")
  case None
  with store_expire_missing [OF assms] show ?thesis by simp
next
  case (Some v)
  show ?thesis
  proof (cases "in_int64 (now2 + ttl)")
    case True
    obtain s' where "store_expire e s k ttl now1 now2 = Inr (live (store_map e s) now1 k \<noteq> None, s')"
      "store_ok e s'" "store_map e s' = (case live (store_map e s) now1 k of None \<Rightarrow> store_map e s
         | Some v \<Rightarrow> (store_map e s)(k \<mapsto> (v, now2 + ttl)))"
      using assms True by (rule store_expire_ok)
    with Some True show ?thesis by simp
  next
    case False
    with store_expire_overflow [of e s now1 k now2 ttl] Some show ?thesis by simp
  qed
qed

theorem store_expire_refines_witness:
  "\<exists>s'. store_expire sample_externals full_store ''a'' 10 5 5 = Inr (True, s') \<and>
        store_map sample_externals s' ''a'' = Some (''1'', 15)"
proof -
  have "live (store_map sample_externals full_store) 5 ''a'' = Some ''1''"
    by (simp add: live_def full_store_eval expired_at_def)
  moreover have "in_int64 15" by (simp add: in_int64_def)
  ultimately show ?thesis
    using store_expire_refines [OF store_ok_full, where ?now1.0 = 5 and ?now2.0 = 5 and k = "''a''" and ttl = 10] by auto
qed

text \<open>
  A very negative ttl makes a key immortal. \<open>expire\<close> stores the sum \<open>now + ttl\<close> as it is, and
  a negative deadline means no deadline, so the key outlives every clock reading; a moderately
  negative one expires it at once.
\<close>

theorem negative_expire_is_persistent:
  assumes "store_ok e s" and "live (store_map e s) now1 k = Some v"
    and "in_int64 (now2 + ttl)" and "now2 + ttl < 0"
  shows "\<exists>s'. store_expire e s k ttl now1 now2 = Inr (True, s') \<and>
              (\<forall>t. live (store_map e s') t k = Some v) \<and> (\<forall>t. store_ttl e s' k t = Inr (-1))"
proof -
  obtain s' where s': "store_expire e s k ttl now1 now2 = Inr (live (store_map e s) now1 k \<noteq> None, s')"
    "store_map e s' = (case live (store_map e s) now1 k of None \<Rightarrow> store_map e s
       | Some v \<Rightarrow> (store_map e s)(k \<mapsto> (v, now2 + ttl)))"
    using assms(1,3) by (rule store_expire_ok)
  with assms(2) have m: "store_map e s' k = Some (v, now2 + ttl)" by simp
  with assms(4) have "live (store_map e s') t k = Some v" for t by (simp add: live_def expired_at_def)
  moreover from m assms(4) have "store_ttl e s' k t = Inr (-1)" for t
    by (simp add: store_ttl_eq expired_at_def)
  ultimately show ?thesis using s'(1) assms(2) by auto
qed

theorem negative_expire_is_persistent_witness:
  "\<exists>s'. store_expire sample_externals full_store ''a'' (-10) 5 5 = Inr (True, s') \<and>
        store_ttl sample_externals s' ''a'' 100000 = Inr (-1)"
proof -
  have "live (store_map sample_externals full_store) 5 ''a'' = Some ''1''"
    by (simp add: live_def full_store_eval expired_at_def)
  moreover have "in_int64 (5 + -10)" by (simp add: in_int64_def)
  ultimately show ?thesis using negative_expire_is_persistent [OF store_ok_full] by fastforce
qed

text \<open>
  Sweeping is unobservable. A sweep at time \<open>now\<close> completes, removes exactly the entries
  expired at \<open>now\<close>, reports their number, and from then on no clock reading at or after \<open>now\<close> can
  tell the swept store from the old one.
\<close>

theorem sweep_unobservable:
  assumes "store_ok e s"
  shows "\<exists>s'. store_sweep_expired s now = Inr (store_size s - store_size s', s') \<and> store_ok e s' \<and>
           (\<forall>k v x. store_map e s' k = Some (v, x) \<longleftrightarrow> store_map e s k = Some (v, x) \<and> \<not> expired_at x now) \<and>
           (\<forall>k t. now \<le> t \<longrightarrow> live (store_map e s') t k = live (store_map e s) t k)"
proof -
  obtain s' where s': "store_sweep_expired s now = Inr (store_size s - store_size s', s')"
    "store_ok e s'" "store_map e s' = swept now (store_map e s)"
    using assms by (rule store_sweep_ok)
  have "store_map e s' k = Some (v, x) \<longleftrightarrow> store_map e s k = Some (v, x) \<and> \<not> expired_at x now" for k v x
    by (auto simp: s'(3) swept_def split: option.splits if_splits)
  moreover have "live (store_map e s') t k = live (store_map e s) t k" if "now \<le> t" for k t
    using that by (auto simp: s'(3) swept_def live_def expired_at_def split: option.splits)
  ultimately show ?thesis using s'(1,2) by blast
qed

theorem sweep_unobservable_witness:
  "\<exists>s'. store_sweep_expired full_store 1050 = Inr (store_size full_store - store_size s', s') \<and>
        store_map sample_externals s' ''bb'' = None"
proof -
  from sweep_unobservable [OF store_ok_full, of 1050] obtain s' where
    s': "store_sweep_expired full_store 1050 = Inr (store_size full_store - store_size s', s')"
      "\<And>k v x. store_map sample_externals s' k = Some (v, x) \<longleftrightarrow>
         store_map sample_externals full_store k = Some (v, x) \<and> \<not> expired_at x 1050" by blast
  have "store_map sample_externals s' ''bb'' \<noteq> Some (v, x)" for v x
    using s'(2) [of "''bb''" v x] by (simp add: full_store_eval expired_at_def)
  then have "store_map sample_externals s' ''bb'' = None" by (metis not_None_eq surj_pair)
  with s'(1) show ?thesis by blast
qed

text \<open>
  Flushing empties the store and frees every iterator cell: the heap of each shard is empty
  afterwards, so nothing is leaked.
\<close>

theorem flush_empties_and_frees:
  assumes "store_ok e s"
  shows "\<exists>s'. store_flush s = Inr s' \<and> store_ok e s' \<and> store_map e s' = Map.empty \<and> store_size s' = 0 \<and>
              (\<forall>i < SHARD_COUNT. heap (shards s' ! i) = [])"
proof -
  obtain s' where s': "store_flush s = Inr s'" "store_ok e s'" "store_map e s' = Map.empty"
    "\<forall>sh\<in>set (shards s'). heap sh = []"
    using assms by (rule store_flush_ok)
  moreover have "store_size s' = 0" using store_size_card [OF s'(2)] s'(3) by simp
  moreover have "length (shards s') = SHARD_COUNT" using s'(2) by (simp add: all_shards)
  ultimately show ?thesis by auto
qed

theorem flush_empties_and_frees_witness:
  "\<exists>s'. store_flush full_store = Inr s' \<and> store_size s' = 0"
  using flush_empties_and_frees [OF store_ok_full] by blast

text \<open>
  Listing. \<open>keys\<close> returns each live key that matches the pattern exactly once; a lone star
  matches everything without consulting the matcher.
\<close>

theorem keys_exact:
  assumes "store_ok e s"
  shows "distinct (store_keys e s p now) \<and>
         set (store_keys e s p now) =
           {k. live (store_map e s) now k \<noteq> None \<and> (p = ''*'' \<or> fnmatch_fn e (c_str p) (c_str k))}"
  using store_keys_set [OF assms] by blast

theorem keys_exact_witness:
  "distinct (store_keys sample_externals full_store ''*'' 0) \<and>
   ''a'' \<in> set (store_keys sample_externals full_store ''*'' 0)"
  using keys_exact [OF store_ok_full, of "''*''" 0] by (simp add: live_def full_store_eval expired_at_def)

text \<open>
  Sizes. \<open>size\<close>, the sum of the shard sizes, is the number of distinct keys of the abstract
  contents: no key is stored in two shards.
\<close>

theorem size_counts_keys:
  assumes "store_ok e s"
  shows "store_size s = card (dom (store_map e s))"
  using assms by (rule store_size_card)

theorem size_counts_keys_witness: "card (dom (store_map sample_externals full_store)) = 2"
  using size_counts_keys [OF store_ok_full] by (simp add: full_store_eval)

end
