(* ===== verification/Store_Outcomes.thy ===== *)
theory Store_Outcomes
  imports Store_Interface
begin

text \<open>
  What can go wrong in a store operation, in a form the proofs about its clients use: under the
  invariant an operation either completes and keeps the invariant, or stops with an arithmetic
  overflow.
\<close>

section \<open>Outcomes of the store operations\<close>

text \<open>The only faults the store can raise under its invariant are arithmetic overflows.\<close>

definition outcome :: "(fault \<Rightarrow> bool) \<Rightarrow> ('a \<Rightarrow> bool) \<Rightarrow> 'a result \<Rightarrow> bool" where
  "outcome F P r = (case r of Inl f \<Rightarrow> F f | Inr x \<Rightarrow> P x)"

lemma outcome_simps [simp]: "outcome F P (Inl f) = F f" "outcome F P (Inr x) = P x"
  by (simp_all add: outcome_def)

lemma outcome_rbind:
  assumes "outcome F Q r" and "\<And>x. r = Inr x \<Longrightarrow> Q x \<Longrightarrow> outcome F P (f x)"
  shows "outcome F P (rbind r f)"
  using assms by (cases r) auto

lemma outcome_mono:
  "outcome F P r \<Longrightarrow> (\<And>f. F f \<Longrightarrow> F' f) \<Longrightarrow> (\<And>x. P x \<Longrightarrow> P' x) \<Longrightarrow> outcome F' P' r"
  by (cases r) auto

abbreviation overflow_only :: "fault \<Rightarrow> bool" where
  "overflow_only f \<equiv> f = SignedOverflow"

lemma outcome_set [op_specs]:
  assumes "store_ok e s"
  shows "outcome overflow_only (store_ok e) (store_set e s k v ttl now)"
proof (cases "0 < ttl \<longrightarrow> in_int64 (now + ttl)")
  case True
  with assms show ?thesis by (rule store_set_ok [where k = k and v = v]) simp
next
  case False
  with store_set_overflow [OF assms] show ?thesis by simp
qed

lemma outcome_get [op_specs]:
  assumes "store_ok e s"
  shows "outcome overflow_only (\<lambda>(v, s'). store_ok e s') (store_get e s k now1 now2)"
  using assms by (rule store_get_ok [of e s k now1 now2]) simp

lemma outcome_del [op_specs]:
  assumes "store_ok e s"
  shows "outcome overflow_only (\<lambda>(b, s'). store_ok e s') (store_del e s k)"
  using assms by (rule store_del_ok [of e s k]) simp

lemma outcome_expire [op_specs]:
  assumes "store_ok e s"
  shows "outcome overflow_only (\<lambda>(b, s'). store_ok e s') (store_expire e s k ttl now1 now2)"
proof (cases "live (store_map e s) now1 k")
  case None
  with store_expire_missing [OF assms] assms show ?thesis by simp
next
  case (Some v)
  show ?thesis
  proof (cases "in_int64 (now2 + ttl)")
    case True
    with assms show ?thesis by (rule store_expire_ok [where k = k and ?now1.0 = now1]) simp
  next
    case False
    with store_expire_overflow Some show ?thesis by simp
  qed
qed

lemma outcome_incr [op_specs]:
  assumes "store_ok e s"
  shows "outcome overflow_only (\<lambda>(r, s'). store_ok e s' \<and> (\<forall>n. r = Some n \<longrightarrow> in_int64 n)) (store_incr e s k now)"
proof (cases "incr_base (live (store_map e s) now k)")
  case None
  with store_incr_not_integer [OF assms] assms show ?thesis by simp
next
  case (Some n)
  show ?thesis
  proof (cases "in_int64 (n + 1)")
    case True
    with assms Some show ?thesis by (rule store_incr_ok) (use True in simp)
  next
    case False
    with store_incr_overflow [OF assms Some] show ?thesis by simp
  qed
qed

lemma outcome_ttl [op_specs]: "outcome overflow_only in_int64 (store_ttl e s k now)"
  by (auto simp: store_ttl_eq sub64_def in_int64_def split: option.splits)

lemma outcome_flush [op_specs]:
  assumes "store_ok e s"
  shows "outcome overflow_only (store_ok e) (store_flush s)"
  using assms by (rule store_flush_ok) simp

lemma length_store_keys: "length (store_keys e s p now) \<le> store_size s"
proof -
  have "length (keys_shared e sh p now) \<le> length (smap sh)" for sh by (simp add: keys_shared_def)
  then have "sum_list (map (\<lambda>sh. length (keys_shared e sh p now)) shs) \<le> sum_list (map (\<lambda>sh. length (smap sh)) shs)"
    for shs by (intro sum_list_mono) auto
  then show ?thesis by (simp add: store_keys_def length_concat store_size_sum comp_def)
qed

end
