(* ===== verification/Framing.thy ===== *)
theory Framing
  imports Cache_Prelude
begin

text \<open>
  The contract of a self-delimiting encoding, and what a reader of a byte stream may conclude
  from it. A decoder returns the value and the number of bytes it used, or nothing when it
  does not find a complete value. The contract is stated once and interpreted for the RESP
  command encoding and for the records of a snapshot file.
\<close>

locale framed_codec =
  fixes env_ok :: "'e \<Rightarrow> bool"
    and enc :: "'e \<Rightarrow> 'a \<Rightarrow> string"
    and dec :: "'e \<Rightarrow> string \<Rightarrow> ('a \<times> nat) option"
    and good :: "'e \<Rightarrow> 'a \<Rightarrow> bool"
    and limit :: nat
  assumes dec_enc: "env_ok e \<Longrightarrow> good e x \<Longrightarrow> length (enc e x @ r) < limit \<Longrightarrow>
                      dec e (enc e x @ r) = Some (x, length (enc e x))"
    and dec_cut: "env_ok e \<Longrightarrow> good e x \<Longrightarrow> length (enc e x) < limit \<Longrightarrow> m < length (enc e x) \<Longrightarrow>
                      dec e (take m (enc e x)) = None"
    and enc_not_Nil: "good e x \<Longrightarrow> enc e x \<noteq> []"
begin

lemma prefix_free:
  assumes "env_ok e" and "good e x" and "good e y"
    and "enc e x @ r = enc e y @ q" and "length (enc e x @ r) < limit"
  shows "x = y \<and> r = q"
proof -
  have "dec e (enc e x @ r) = Some (x, length (enc e x))" using assms by (intro dec_enc)
  moreover have "dec e (enc e y @ q) = Some (y, length (enc e y))"
    using assms by (intro dec_enc) auto
  ultimately have "x = y" using assms(4) by simp
  with assms(4) show ?thesis by simp
qed

lemma stream_unique:
  assumes "env_ok e" and "\<forall>x\<in>set xs. good e x" and "\<forall>y\<in>set ys. good e y"
    and "concat (map (enc e) xs) = concat (map (enc e) ys)" and "length (concat (map (enc e) xs)) < limit"
  shows "xs = ys"
  using assms(2-5)
proof (induction xs arbitrary: ys)
  case Nil
  then show ?case by (cases ys) (auto simp: enc_not_Nil)
next
  case (Cons x xs)
  have "enc e x \<noteq> []" using Cons.prems(1) by (simp add: enc_not_Nil)
  with Cons.prems(3) have "ys \<noteq> []" by auto
  then obtain y ys' where ys: "ys = y # ys'" by (cases ys) simp_all
  have eq: "enc e x @ concat (map (enc e) xs) = enc e y @ concat (map (enc e) ys')"
    using Cons.prems ys by simp
  have good: "good e x" "good e y" and len: "length (enc e x @ concat (map (enc e) xs)) < limit"
    using Cons.prems(1,2,4) ys by simp_all
  from prefix_free [OF assms(1) good eq len]
  have hd: "x = y" and tl: "concat (map (enc e) xs) = concat (map (enc e) ys')" by blast+
  have "xs = ys'"
    using Cons.prems(1,2) len ys by (intro Cons.IH tl) simp_all
  with hd ys show ?case by simp
qed

end

text \<open>
  Cutting a stream of frames anywhere leaves a number of whole frames followed by a proper
  prefix of the next one.
\<close>

lemma cut_frames:
  "\<exists>k j. k \<le> length xs \<and> take m (concat (map enc xs)) = concat (map enc (take k xs)) @ j \<and>
         (j = [] \<or> k < length xs \<and> (\<exists>i < length (enc (xs ! k)). j = take i (enc (xs ! k))))"
proof (induction xs arbitrary: m)
  case Nil
  show ?case by simp
next
  case (Cons x xs)
  show ?case
  proof (cases "m < length (enc x)")
    case True
    then have "take m (concat (map enc (x # xs))) = concat (map enc (take 0 (x # xs))) @ take m (enc x)"
      by simp
    with True show ?thesis by (intro exI [of _ 0] exI [of _ "take m (enc x)"]) auto
  next
    case False
    then have t: "take m (concat (map enc (x # xs))) = enc x @ take (m - length (enc x)) (concat (map enc xs))"
      by simp
    from Cons.IH [of "m - length (enc x)"] obtain k j where
      "k \<le> length xs" "take (m - length (enc x)) (concat (map enc xs)) = concat (map enc (take k xs)) @ j"
      "j = [] \<or> k < length xs \<and> (\<exists>i < length (enc (xs ! k)). j = take i (enc (xs ! k)))"
      by blast
    with t show ?thesis by (intro exI [of _ "Suc k"] exI [of _ j]) auto
  qed
qed

end
