(* ===== verification/Resp_Parser.thy ===== *)
theory Resp_Parser
  imports Resp_Types Framing
begin

text \<open>
  The incremental RESP parser (\<open>src/src/protocol/RespParser.cpp\<close>). A view is the list of its
  bytes. \<open>size_t\<close> arithmetic that can wrap (the length of a bulk string is converted from a
  signed number) is done on 64-bit words; positions inside a view are naturals. An array
  whose announced length exceeds the maximum vector size makes \<open>reserve\<close> throw.
\<close>

section \<open>Results\<close>

datatype parse_status = Ok | Incomplete | Error

record parse_result =
  status :: parse_status
  res_value :: resp_value
  consumed :: nat

definition incomplete :: parse_result where
  "incomplete = \<lparr>status = Incomplete, res_value = default_value, consumed = 0\<rparr>"

definition protocol_error :: parse_result where
  "protocol_error = \<lparr>status = Error, res_value = default_value, consumed = 0\<rparr>"

definition parsed :: "resp_value \<Rightarrow> nat \<Rightarrow> parse_result" where
  "parsed v n = \<lparr>status = Ok, res_value = v, consumed = n\<rparr>"

lemma result_sel [simp]:
  "status incomplete = Incomplete" "status protocol_error = Error"
  "status (parsed v n) = Ok" "res_value (parsed v n) = v" "consumed (parsed v n) = n"
  "consumed incomplete = 0" "consumed protocol_error = 0"
  by (simp_all add: incomplete_def protocol_error_def parsed_def)

section \<open>Lines and lengths\<close>

fun find_crlf :: "string \<Rightarrow> nat option" where
  "find_crlf (a # b # s) = (if a = CR \<and> b = LF then Some 0 else map_option Suc (find_crlf (b # s)))"
| "find_crlf _ = None"

definition parse_length :: "string \<Rightarrow> int option" where
  "parse_length line =
     (case from_chars line 0 of (rest, ec, n) \<Rightarrow>
        if ec \<noteq> ErrcNone \<or> rest \<noteq> [] then None else Some n)"

section \<open>The parser\<close>

definition parse_simple_string :: "string \<Rightarrow> parse_result" where
  "parse_simple_string buf =
     (case find_crlf buf of
        None \<Rightarrow> incomplete
      | Some p \<Rightarrow> parsed (string_value SimpleString (take p buf)) (1 + p + 2))"

definition parse_error :: "string \<Rightarrow> parse_result" where
  "parse_error buf =
     (case find_crlf buf of
        None \<Rightarrow> incomplete
      | Some p \<Rightarrow> parsed (string_value ErrorT (take p buf)) (1 + p + 2))"

definition parse_integer :: "string \<Rightarrow> parse_result" where
  "parse_integer buf =
     (case find_crlf buf of
        None \<Rightarrow> incomplete
      | Some p \<Rightarrow>
          (case parse_length (take p buf) of
             None \<Rightarrow> protocol_error
           | Some n \<Rightarrow> parsed (int_value n) (1 + p + 2)))"

definition parse_bulk_string :: "string \<Rightarrow> parse_result" where
  "parse_bulk_string buf =
     (case find_crlf buf of
        None \<Rightarrow> incomplete
      | Some p \<Rightarrow>
          (case parse_length (take p buf) of
             None \<Rightarrow> protocol_error
           | Some len \<Rightarrow>
               if len = -1 then parsed (null_value BulkString) (1 + p + 2)
               else
                 let header_size = (1 + of_nat p + 2 :: 64 word);
                     content_size = (word_of_int len + 2 :: 64 word)
                 in if (of_nat (length buf) :: 64 word) < of_nat p + 2 + content_size then incomplete
                    else parsed (string_value BulkString
                                   (take (unat (word_of_int len :: 64 word)) (drop (p + 2) buf)))
                                (unat (header_size + word_of_int len + 2))))"

function (sequential) parse :: "externals \<Rightarrow> string \<Rightarrow> parse_result result"
  and parse_array :: "externals \<Rightarrow> string \<Rightarrow> parse_result result"
  and parse_elements :: "externals \<Rightarrow> string \<Rightarrow> nat \<Rightarrow> nat \<Rightarrow> resp_value list \<Rightarrow> parse_result result"
where
  "parse e [] = Inr incomplete"
| "parse e (c # buf) =
     (if c = CHR ''+'' then Inr (parse_simple_string buf)
      else if c = CHR ''-'' then Inr (parse_error buf)
      else if c = CHR '':'' then Inr (parse_integer buf)
      else if c = CHR ''$'' then Inr (parse_bulk_string buf)
      else if c = CHR ''*'' then parse_array e buf
      else Inr protocol_error)"
| "parse_array e buf =
     (case find_crlf buf of
        None \<Rightarrow> Inr incomplete
      | Some p \<Rightarrow>
          (case parse_length (take p buf) of
             None \<Rightarrow> Inr protocol_error
           | Some count \<Rightarrow>
               if count = -1 then Inr (parsed (null_value ArrayT) (1 + p + 2))
               else if vec_max e < unat (word_of_int count :: 64 word) then Inl LengthError
               else parse_elements e buf (nat count) (p + 2) []))"
| "parse_elements e buf todo offset acc =
     (if todo = 0 then Inr (parsed (array_value acc) (1 + offset))
      else if length buf \<le> offset then Inr incomplete
      else rbind (parse e (drop offset buf)) (\<lambda>res.
        case status res of
          Incomplete \<Rightarrow> Inr incomplete
        | Error \<Rightarrow> Inr protocol_error
        | Ok \<Rightarrow> parse_elements e buf (todo - 1) (offset + consumed res) (acc @ [res_value res])))"
  by pat_completeness auto
termination
  by (relation "measures [\<lambda>x. case x of Inl (e, buf) \<Rightarrow> 3 * length buf
                    | Inr (Inl (e, buf)) \<Rightarrow> 3 * length buf + 2
                    | Inr (Inr (e, buf, todo, offset, acc)) \<Rightarrow> 3 * length buf + 1,
                  \<lambda>x. case x of Inr (Inr (e, buf, todo, offset, acc)) \<Rightarrow> todo | _ \<Rightarrow> 0]") auto

declare parse_elements.simps [simp del] parse_array.simps [simp del]

section \<open>Facts about the helpers\<close>

lemma find_crlf_SomeD:
  "find_crlf s = Some p \<Longrightarrow> p + 2 \<le> length s \<and> s ! p = CR \<and> s ! Suc p = LF"
proof (induction s arbitrary: p rule: find_crlf.induct)
  case (1 a b s)
  then show ?case by (auto split: if_splits)
qed auto

lemma find_crlf_length: "find_crlf s = Some p \<Longrightarrow> p + 2 \<le> length s"
  using find_crlf_SomeD by blast

lemma find_crlf_no_CR: "CR \<notin> set s \<Longrightarrow> find_crlf (s @ crlf @ t) = Some (length s)"
proof (induction s rule: find_crlf.induct)
  case (1 a b s)
  then show ?case by auto
qed (auto simp: crlf_def)

lemma find_crlf_no_CR_None: "CR \<notin> set s \<Longrightarrow> find_crlf s = None"
  by (induction s rule: find_crlf.induct) auto

lemma find_crlf_no_CR_CR_None: "CR \<notin> set s \<Longrightarrow> find_crlf (s @ [CR]) = None"
proof (induction s rule: find_crlf.induct)
  case (1 a b s)
  then show ?case by auto
qed auto

lemma CR_not_to_string [simp]: "CR \<notin> set (to_string n)"
  using to_string_chars [of CR n] by (auto simp: is_digit_def)

lemma parse_length_to_string [simp]: "in_int64 n \<Longrightarrow> parse_length (to_string n) = Some n"
  by (simp add: parse_length_def)

lemma parse_length_in_int64: "parse_length s = Some n \<Longrightarrow> in_int64 n"
  by (auto simp: parse_length_def dest: from_chars_in_int64 split: prod.splits if_splits)

section \<open>Progress\<close>

text \<open>
  The 64-bit comparison of \<open>parse_bulk_string\<close> is exact for views below \<open>2 ^ 63\<close> bytes, also for
  a negative announced length: either the sum stays non-negative or it wraps to a value that
  no view reaches.
\<close>

lemma uint_word_of_int64: "uint (word_of_int x :: 64 word) = x mod 2 ^ 64"
  by (simp add: uint_word_of_int)

lemma bulk_size_check:
  assumes "in_int64 len" and "p + 2 \<le> L" and "L < 2 ^ 63 - 1"
  shows "(of_nat L :: 64 word) < of_nat p + 2 + (word_of_int len + 2) \<longleftrightarrow>
           int p + len + 4 < 0 \<or> int L < int p + len + 4"
proof -
  let ?x = "int p + len + 4"
  have w: "of_nat p + 2 + (word_of_int len + 2) = (word_of_int ?x :: 64 word)"
    by (simp add: algebra_simps)
  have L: "uint (of_nat L :: 64 word) = int L"
    using assms(3) uint_word_of_int64 [of "int L"] by simp
  have x: "?x mod 2 ^ 64 = (if ?x < 0 then ?x + 2 ^ 64 else ?x)"
    using assms mod_add_self2 [of ?x "2 ^ 64"]
    by (auto simp: in_int64_def simp del: mod_add_self2)
  show ?thesis
    using assms unfolding w word_less_def L uint_word_of_int64 x by (auto simp: in_int64_def)
qed

lemma bulk_consumed:
  assumes "0 \<le> int p + len + 5" and "int p + len + 5 < 2 ^ 64"
  shows "unat (1 + of_nat p + 2 + word_of_int len + 2 :: 64 word) = nat (int p + len + 5)"
proof -
  have w: "1 + of_nat p + 2 + word_of_int len + 2 = (word_of_int (int p + len + 5) :: 64 word)"
    by (simp add: algebra_simps)
  show ?thesis using assms unfolding w unat_eq_nat_uint uint_word_of_int64 by simp
qed

lemma parse_bulk_string_progress:
  assumes "status (parse_bulk_string buf) = Ok" and "length buf < 2 ^ 63 - 1"
  shows "0 < consumed (parse_bulk_string buf) \<and> consumed (parse_bulk_string buf) \<le> length buf + 1"
proof -
  from assms(1) obtain p len where p: "find_crlf buf = Some p" and len: "parse_length (take p buf) = Some len"
    by (auto simp: parse_bulk_string_def split: option.splits)
  note bnd = find_crlf_length [OF p] and l64 = parse_length_in_int64 [OF len]
  show ?thesis
  proof (cases "len = -1")
    case True
    with p len bnd show ?thesis by (simp add: parse_bulk_string_def)
  next
    case False
    with assms p len bulk_size_check [OF l64 bnd assms(2)]
    have chk: "0 \<le> int p + len + 4" "int p + len + 4 \<le> int (length buf)"
      by (auto simp: parse_bulk_string_def Let_def split: if_splits)
    with assms(2) have "unat (1 + of_nat p + 2 + word_of_int len + 2 :: 64 word) = nat (int p + len + 5)"
      by (intro bulk_consumed) auto
    with False assms(1) p len have "consumed (parse_bulk_string buf) = nat (int p + len + 5)"
      by (simp add: parse_bulk_string_def Let_def del: unat_plus_simple split: if_splits)
    with chk show ?thesis by simp
  qed
qed

lemma line_parsers_progress:
  "status (parse_simple_string buf) = Ok \<Longrightarrow>
     0 < consumed (parse_simple_string buf) \<and> consumed (parse_simple_string buf) \<le> length buf + 1"
  "status (parse_error buf) = Ok \<Longrightarrow>
     0 < consumed (parse_error buf) \<and> consumed (parse_error buf) \<le> length buf + 1"
  "status (parse_integer buf) = Ok \<Longrightarrow>
     0 < consumed (parse_integer buf) \<and> consumed (parse_integer buf) \<le> length buf + 1"
  by (auto simp: parse_simple_string_def parse_error_def parse_integer_def
      dest!: find_crlf_length split: option.splits)

lemma parse_progress_all:
  shows "parse e buf = Inr r \<Longrightarrow> status r = Ok \<Longrightarrow> length buf < 2 ^ 63 \<Longrightarrow>
           0 < consumed r \<and> consumed r \<le> length buf"
    and "parse_array e buf1 = Inr r \<Longrightarrow> status r = Ok \<Longrightarrow> length buf1 < 2 ^ 63 - 1 \<Longrightarrow>
           0 < consumed r \<and> consumed r \<le> length buf1 + 1"
    and "parse_elements e buf2 todo offset acc = Inr r \<Longrightarrow> status r = Ok \<Longrightarrow>
           length buf2 < 2 ^ 63 - 1 \<Longrightarrow> offset \<le> length buf2 \<Longrightarrow>
           0 < consumed r \<and> consumed r \<le> length buf2 + 1"
proof (induction e buf and e buf1 and e buf2 todo offset acc arbitrary: r and r and r
    rule: parse_parse_array_parse_elements.induct)
  case (1 e)
  then show ?case by auto
next
  case (2 e c buf)
  show ?case
  proof (cases "c = CHR ''*''")
    case True
    with 2 show ?thesis by fastforce
  next
    case False
    with 2 show ?thesis
      using line_parsers_progress [of buf] parse_bulk_string_progress [of buf]
      by (auto split: if_splits)
  qed
next
  case (3 e buf)
  then show ?case
    by (auto simp: parse_array.simps dest: find_crlf_length split: option.splits if_splits)
next
  case (4 e buf todo offset acc)
  show ?case
  proof (cases "todo = 0 \<or> length buf \<le> offset")
    case True
    with "4.prems" show ?thesis by (auto simp: parse_elements.simps split: if_splits)
  next
    case False
    with "4.prems"(1) obtain q where q: "parse e (drop offset buf) = Inr q"
      and k: "(case status q of Incomplete \<Rightarrow> Inr incomplete | Error \<Rightarrow> Inr protocol_error
               | Ok \<Rightarrow> parse_elements e buf (todo - 1) (offset + consumed q) (acc @ [res_value q])) = Inr r"
      by (auto simp: parse_elements.simps [of e buf todo])
    from k "4.prems"(2) have st: "status q = Ok"
      and r: "parse_elements e buf (todo - 1) (offset + consumed q) (acc @ [res_value q]) = Inr r"
      by (auto split: parse_status.splits)
    have "0 < consumed q \<and> consumed q \<le> length (drop offset buf)"
      using False "4.prems"(3) q st by (intro "4.IH"(1)) auto
    then have "offset + consumed q \<le> length buf" using False by auto
    with False q st r "4.prems" show ?thesis by (intro "4.IH"(2) [of q]) auto
  qed
qed

section \<open>Reading back what the encoders write\<close>

lemma find_crlf_take:
  assumes "CR \<notin> set s"
  shows "find_crlf (take m (s @ crlf @ t)) = (if m < length s + 2 then None else Some (length s))"
proof -
  consider "m \<le> length s" | "m = length s + 1" | "length s + 2 \<le> m" by linarith
  then show ?thesis
  proof cases
    case 1
    then have "CR \<notin> set (take m s)" using assms by (meson in_set_takeD)
    with 1 show ?thesis by (simp add: find_crlf_no_CR_None)
  next
    case 2
    then show ?thesis using assms by (simp add: crlf_def find_crlf_no_CR_CR_None)
  next
    case 3
    then have "take m (s @ crlf @ t) = s @ crlf @ take (m - length s - 2) t"
      by (simp add: crlf_def take_Cons' numeral_2_eq_2)
    with 3 assms show ?thesis by (simp add: find_crlf_no_CR)
  qed
qed

lemma length_crlf [simp]: "length crlf = 2"
  by (simp add: crlf_def)

lemma parse_bulk_string_nonneg:
  assumes "find_crlf buf = Some p" and "parse_length (take p buf) = Some (int n)"
    and "length buf < 2 ^ 63 - 1"
  shows "parse_bulk_string buf =
           (if length buf < p + n + 4 then incomplete
            else parsed (string_value BulkString (take n (drop (p + 2) buf))) (p + n + 5))"
proof -
  note l64 = parse_length_in_int64 [OF assms(2)] and bnd = find_crlf_length [OF assms(1)]
  have n: "unat (word_of_int (int n) :: 64 word) = n"
    using l64 unfolding unat_eq_nat_uint uint_word_of_int64 by (simp add: in_int64_def)
  have "unat (1 + of_nat p + 2 + word_of_int (int n) + 2 :: 64 word) = p + n + 5"
    if "p + n + 4 \<le> length buf"
    using that assms(3) by (subst bulk_consumed) auto
  with n assms bulk_size_check [OF l64 bnd assms(3)] show ?thesis
    by (auto simp: parse_bulk_string_def Let_def simp del: of_int_of_nat_eq unat_plus_simple)
qed

lemma length_bulk: "length (bulk e s) = length (fmt_int e (int (length s))) + length s + 5"
  by (simp add: bulk_def)

lemma parse_bulk:
  assumes "decimal_fmt e" and "length (bulk e s @ rest) < 2 ^ 63"
  shows "parse e (bulk e s @ rest) = Inr (parsed (string_value BulkString s) (length (bulk e s)))"
proof -
  let ?n = "to_string (int (length s))"
  let ?buf = "?n @ crlf @ s @ crlf @ rest"
  have fc: "find_crlf ?buf = Some (length ?n)" by (rule find_crlf_no_CR) simp
  have "in_int64 (int (length s))" using assms by (simp add: in_int64_def length_bulk)
  then have pl: "parse_length (take (length ?n) ?buf) = Some (int (length s))" by simp
  have "length ?buf < 2 ^ 63 - 1" using assms by (simp add: length_bulk)
  from parse_bulk_string_nonneg [OF fc pl this] assms show ?thesis
    by (simp add: bulk_def)
qed

lemma parse_bulk_take:
  assumes "decimal_fmt e" and "length (bulk e s) < 2 ^ 63" and "m < length (bulk e s)"
  shows "parse e (take m (bulk e s)) = Inr incomplete"
proof (cases m)
  case 0
  then show ?thesis by simp
next
  case (Suc k)
  let ?n = "to_string (int (length s))"
  let ?buf = "take k (?n @ crlf @ s @ crlf)"
  have b: "take m (bulk e s) = CHR ''$'' # ?buf" using Suc assms(1) by (simp add: bulk_def)
  have fc: "find_crlf ?buf = (if k < length ?n + 2 then None else Some (length ?n))"
    by (rule find_crlf_take) simp
  show ?thesis
  proof (cases "k < length ?n + 2")
    case True
    with fc show ?thesis by (simp add: b parse_bulk_string_def)
  next
    case False
    have "in_int64 (int (length s))" using assms by (simp add: in_int64_def length_bulk)
    then have pl: "parse_length (take (length ?n) ?buf) = Some (int (length s))"
      using False by (simp add: min_def)
    have len: "length ?buf < 2 ^ 63 - 1" "length ?buf < length ?n + length s + 4"
      using assms Suc by (simp_all add: length_bulk)
    from fc False have "find_crlf ?buf = Some (length ?n)" by simp
    from parse_bulk_string_nonneg [OF this pl len(1)] len(2) have "parse_bulk_string ?buf = incomplete"
      by presburger
    then show ?thesis by (simp add: b)
  qed
qed

lemma drop_past:
  assumes "drop n xs = a @ b"
  shows "drop (n + length a) xs = b"
proof -
  have "drop (n + length a) xs = drop (length a) (drop n xs)" by (simp add: add.commute)
  with assms show ?thesis by simp
qed

lemma parse_elements_bulks:
  assumes "decimal_fmt e" and "length buf < 2 ^ 63 - 1"
    and "drop offset buf = concat (map (bulk e) args) @ rest"
  shows "parse_elements e buf (length args) offset acc =
           Inr (parsed (array_value (acc @ map (string_value BulkString) args))
                       (1 + offset + length (concat (map (bulk e) args))))"
  using assms(3)
proof (induction args arbitrary: offset acc)
  case Nil
  then show ?case by (simp add: parse_elements.simps)
next
  case (Cons a args)
  have lt: "offset < length buf"
  proof -
    have "drop offset buf \<noteq> []" using Cons.prems by (simp add: bulk_def)
    then show ?thesis by simp
  qed
  have "length (drop offset buf) < 2 ^ 63" using assms(2) by simp
  then have "parse e (drop offset buf) = Inr (parsed (string_value BulkString a) (length (bulk e a)))"
    unfolding Cons.prems using parse_bulk [OF assms(1)] by simp
  moreover have "drop (offset + length (bulk e a)) buf = concat (map (bulk e) args) @ rest"
    using Cons.prems by (intro drop_past) simp
  ultimately show ?case
    using lt Cons.IH by (simp add: parse_elements.simps [of e buf "Suc (length args)"])
qed

lemma parse_elements_cut:
  assumes "decimal_fmt e" and "length buf < 2 ^ 63 - 1"
    and "drop offset buf = take m (concat (map (bulk e) args))" and "m < length (concat (map (bulk e) args))"
    and "\<forall>a\<in>set args. length (bulk e a) < 2 ^ 63"
  shows "parse_elements e buf (length args) offset acc = Inr incomplete"
  using assms(3-5)
proof (induction args arbitrary: offset acc m)
  case Nil
  then show ?case by simp
next
  case (Cons a args)
  show ?case
  proof (cases "m < length (bulk e a)")
    case True
    then have "parse e (drop offset buf) = Inr incomplete"
      using Cons.prems parse_bulk_take [OF assms(1)] by simp
    then show ?thesis by (simp add: parse_elements.simps [of e buf "Suc (length args)"])
  next
    case False
    let ?r = "take (m - length (bulk e a)) (concat (map (bulk e) args))"
    have d: "drop offset buf = bulk e a @ ?r" using Cons.prems(1) False by simp
    have "length (drop offset buf) < 2 ^ 63" using assms(2) by simp
    then have p: "parse e (drop offset buf) = Inr (parsed (string_value BulkString a) (length (bulk e a)))"
      unfolding d using parse_bulk [OF assms(1)] by simp
    have "drop (offset + length (bulk e a)) buf = ?r"
      using d by (rule drop_past)
    then have "parse_elements e buf (length args) (offset + length (bulk e a))
                 (acc @ [string_value BulkString a]) = Inr incomplete"
      using Cons.prems False by (intro Cons.IH) auto
    with p show ?thesis by (simp add: parse_elements.simps [of e buf "Suc (length args)"])
  qed
qed

lemma parse_array_header:
  assumes "find_crlf buf = Some p" and "parse_length (take p buf) = Some (int n)" and "n \<le> vec_max e"
  shows "parse e (CHR ''*'' # buf) = parse_elements e buf n (p + 2) []"
proof -
  have "int n < 2 ^ 63" using parse_length_in_int64 [OF assms(2)] by (simp add: in_int64_def)
  then have "unat (word_of_int (int n) :: 64 word) = n"
    unfolding unat_eq_nat_uint uint_word_of_int64 by simp
  then have "\<not> vec_max e < unat (word_of_int (int n) :: 64 word)"
    using assms(3) by presburger
  then show ?thesis
    unfolding parse.simps parse_array.simps assms(1) option.case assms(2) by simp
qed

lemma length_args_le_bulks: "length args \<le> length (concat (map (bulk e) args))"
  by (induction args) (auto simp: length_bulk)

lemma length_bulk_le_bulks: "x \<in> set args \<Longrightarrow> length (bulk e x) \<le> length (concat (map (bulk e) args))"
  by (induction args) auto

lemma parse_array_bulks:
  assumes "decimal_fmt e" and "length args \<le> vec_max e" and "length (array e args @ rest) < 2 ^ 63"
  shows "parse e (array e args @ rest) =
           Inr (parsed (array_value (map (string_value BulkString) args)) (length (array e args)))"
proof -
  let ?n = "to_string (int (length args))"
  let ?body = "concat (map (bulk e) args)"
  let ?buf = "?n @ crlf @ ?body @ rest"
  have a: "array e args @ rest = CHR ''*'' # ?buf" using assms(1) by (simp add: array_concat)
  have fc: "find_crlf ?buf = Some (length ?n)" by (rule find_crlf_no_CR) simp
  have len: "length ?buf < 2 ^ 63 - 1" using a assms(3) by simp
  then have "in_int64 (int (length args))"
    using length_args_le_bulks [of args e] by (simp add: in_int64_def)
  then have pl: "parse_length (take (length ?n) ?buf) = Some (int (length args))" by simp
  have "parse_elements e ?buf (length args) (length ?n + 2) [] =
      Inr (parsed (array_value ([] @ map (string_value BulkString) args)) (1 + (length ?n + 2) + length ?body))"
    using assms(1) len by (rule parse_elements_bulks) simp
  moreover have "length (array e args) = 1 + (length ?n + 2) + length ?body"
    using assms(1) by (simp add: array_concat)
  ultimately show ?thesis
    unfolding a parse_array_header [OF fc pl assms(2)] by simp
qed

lemma parse_array_cut:
  assumes "decimal_fmt e" and "length args \<le> vec_max e" and "length (array e args) < 2 ^ 63"
    and "m < length (array e args)"
  shows "parse e (take m (array e args)) = Inr incomplete"
proof (cases m)
  case 0
  then show ?thesis by simp
next
  case (Suc k)
  let ?n = "to_string (int (length args))"
  let ?body = "concat (map (bulk e) args)"
  let ?buf = "take k (?n @ crlf @ ?body)"
  have arr: "array e args = CHR ''*'' # ?n @ crlf @ ?body" using assms(1) by (simp add: array_concat)
  then have a: "take m (array e args) = CHR ''*'' # ?buf" using Suc by simp
  have fc: "find_crlf ?buf = (if k < length ?n + 2 then None else Some (length ?n))"
    by (rule find_crlf_take) simp
  show ?thesis
  proof (cases "k < length ?n + 2")
    case True
    with fc show ?thesis by (simp add: a parse_array.simps)
  next
    case False
    with fc have fc': "find_crlf ?buf = Some (length ?n)" by simp
    have body: "length ?body < 2 ^ 63 - 1" using arr assms(3) by simp
    then have "in_int64 (int (length args))"
      using length_args_le_bulks [of args e] by (simp add: in_int64_def)
    then have pl: "parse_length (take (length ?n) ?buf) = Some (int (length args))"
      using False by (simp add: min_def)
    have "drop (length ?n + 2) (?n @ crlf @ ?body) = ?body" by simp
    then have d: "drop (length ?n + 2) ?buf = take (k - (length ?n + 2)) ?body"
      by (simp only: drop_take)
    have "parse_elements e ?buf (length args) (length ?n + 2) [] = Inr incomplete"
    proof (rule parse_elements_cut [OF assms(1) _ d])
      show "length ?buf < 2 ^ 63 - 1" using arr assms(3) by simp
      show "k - (length ?n + 2) < length ?body" using arr assms(4) Suc False by simp
      show "\<forall>x\<in>set args. length (bulk e x) < 2 ^ 63"
      proof
        fix x assume "x \<in> set args"
        then have "length (bulk e x) \<le> length ?body" by (rule length_bulk_le_bulks)
        with body show "length (bulk e x) < 2 ^ 63" by linarith
      qed
    qed
    then show ?thesis unfolding a parse_array_header [OF fc' pl assms(2)] .
  qed
qed

section \<open>Exceptions\<close>

lemma parse_fault_all:
  "parse e buf = Inl f \<Longrightarrow> f = LengthError"
  "parse_array e buf1 = Inl f \<Longrightarrow> f = LengthError"
  "parse_elements e buf2 todo offset acc = Inl f \<Longrightarrow> f = LengthError"
proof (induction e buf and e buf1 and e buf2 todo offset acc
    rule: parse_parse_array_parse_elements.induct)
  case (4 e buf todo offset acc)
  show ?case
  proof (cases "parse e (drop offset buf)")
    case (Inl g)
    with 4 show ?thesis by (auto simp: parse_elements.simps [of e buf todo] split: if_splits)
  next
    case (Inr q)
    with 4 show ?thesis
      by (cases "status q") (auto simp: parse_elements.simps [of e buf todo] split: if_splits)
  qed
qed (auto simp: parse_array.simps split: if_splits option.splits)

lemma unat_negative_int64:
  assumes "in_int64 n" and "n < 0"
  shows "2 ^ 63 \<le> unat (word_of_int n :: 64 word)"
proof -
  have "n mod 2 ^ 64 = n + 2 ^ 64"
    using assms mod_add_self2 [of n "2 ^ 64"] by (auto simp: in_int64_def simp del: mod_add_self2)
  with assms show ?thesis
    unfolding unat_eq_nat_uint uint_word_of_int64 by (simp add: in_int64_def nat_le_eq_zle le_nat_iff)
qed

section \<open>The command encoding as a framed codec\<close>

definition resp_decode :: "externals \<Rightarrow> string \<Rightarrow> (string list \<times> nat) option" where
  "resp_decode e buf =
     (case parse e buf of
        Inl _ \<Rightarrow> None
      | Inr r \<Rightarrow> if status r = Ok then Some (map str (array_field (res_value r)), consumed r) else None)"

interpretation resp: framed_codec decimal_fmt array resp_decode "\<lambda>e args. length args \<le> vec_max e" "2 ^ 63"
proof
  fix e args r
  assume "decimal_fmt e" "length args \<le> vec_max e" "length (array e args @ r) < 2 ^ 63"
  from parse_array_bulks [OF this] show "resp_decode e (array e args @ r) = Some (args, length (array e args))"
    by (simp add: resp_decode_def comp_def)
next
  fix e args m
  assume "decimal_fmt e" "length args \<le> vec_max e" "length (array e args) < 2 ^ 63" "m < length (array e args)"
  from parse_array_cut [OF this] show "resp_decode e (take m (array e args)) = None"
    by (simp add: resp_decode_def)
next
  fix e args
  show "array e args \<noteq> []" by (simp add: array_concat)
qed

section \<open>Properties\<close>

text \<open>
  Parser progress. A successful parse consumes at least one byte and never more than the
  view holds, for every input, including announced bulk lengths that are negative and make
  the unsigned size computation wrap. The loops that drain a buffer therefore advance and
  stay inside it.
\<close>

theorem parse_progress:
  assumes "parse e buf = Inr r" and "status r = Ok" and "length buf < 2 ^ 63"
  shows "0 < consumed r \<and> consumed r \<le> length buf"
  using assms by (rule parse_progress_all(1))

theorem parse_progress_witness:
  "parse sample_externals ok = Inr (parsed (string_value SimpleString ''OK'') 5) \<and>
   0 < (5 :: nat) \<and> 5 \<le> length ok"
proof -
  have p: "parse sample_externals ok = Inr (parsed (string_value SimpleString ''OK'') 5)"
    by (simp add: ok_def crlf_def parse_simple_string_def)
  have "length ok < 2 ^ 63" by (simp add: ok_def)
  from parse_progress [OF p _ this] p show ?thesis by simp
qed

text \<open>
  C5: Round trip of a command. Parsing what \<open>RespSerializer::array\<close> writes, followed by any
  further bytes, returns the array of bulk strings that was written and consumes exactly the
  bytes of the encoding.
\<close>

theorem parse_reads_array:
  assumes "decimal_fmt e" and "length args \<le> vec_max e" and "length (array e args @ rest) < 2 ^ 63"
  shows "parse e (array e args @ rest) =
           Inr (parsed (array_value (map (string_value BulkString) args)) (length (array e args)))"
  using assms by (rule parse_array_bulks)

theorem parse_reads_array_witness:
  "parse sample_externals (array sample_externals [''GET'', ''k''] @ ''*1'') =
     Inr (parsed (array_value [string_value BulkString ''GET'', string_value BulkString ''k'']) 20)"
proof -
  have len: "length (array sample_externals [''GET'', ''k'']) = 20" by code_simp
  have "length [''GET'', ''k''] \<le> vec_max sample_externals" by (simp add: sample_externals_def)
  from parse_reads_array [OF decimal_fmt_sample this, of "''*1''"] len show ?thesis by simp
qed

text \<open>
  Partial reads. Every proper prefix of an encoded command is reported as incomplete, so a
  command split over several network reads is never misread and never rejected.
\<close>

theorem parse_partial_incomplete:
  assumes "decimal_fmt e" and "length args \<le> vec_max e" and "length (array e args) < 2 ^ 63"
    and "m < length (array e args)"
  shows "parse e (take m (array e args)) = Inr incomplete"
  using assms by (rule parse_array_cut)

theorem parse_partial_incomplete_witness:
  "parse sample_externals (take 11 (array sample_externals [''GET'', ''k''])) = Inr incomplete"
proof -
  have len: "length (array sample_externals [''GET'', ''k'']) = 20" by code_simp
  have "length [''GET'', ''k''] \<le> vec_max sample_externals" by (simp add: sample_externals_def)
  from parse_partial_incomplete [OF decimal_fmt_sample this, of 11] len show ?thesis by simp
qed

text \<open>
  Unique decoding of a pipeline. Two sequences of commands with the same bytes on the wire
  are the same sequence.
\<close>

theorem pipeline_unique:
  assumes "decimal_fmt e" and "\<forall>c\<in>set cs. length c \<le> vec_max e" and "\<forall>c\<in>set ds. length c \<le> vec_max e"
    and "concat (map (array e) cs) = concat (map (array e) ds)"
    and "length (concat (map (array e) cs)) < 2 ^ 63"
  shows "cs = ds"
  using assms by (rule resp.stream_unique)

theorem pipeline_unique_witness:
  "concat (map (array sample_externals) [[''PING''], [''GET'', ''k'']]) =
     array sample_externals [''PING''] @ array sample_externals [''GET'', ''k''] \<and>
   [[''PING''], [''GET'', ''k'']] = [[''PING'']] @ [[''GET'', ''k'']]"
proof -
  let ?cs = "[[''PING''], [''GET'', ''k'']]" and ?ds = "[[''PING'']] @ [[''GET'', ''k'']]"
  have "\<forall>c\<in>set ?cs. length c \<le> vec_max sample_externals" by (simp add: sample_externals_def)
  moreover have "length (concat (map (array sample_externals) ?cs)) = 34" by code_simp
  ultimately have "?cs = ?ds" by (intro pipeline_unique [OF decimal_fmt_sample]) auto
  then show ?thesis by simp
qed

text \<open>
  The only way the parser stops without a result is the exception of \<open>reserve\<close> for an
  array count beyond the maximum vector size.
\<close>

theorem parse_fault_length_error:
  assumes "parse e buf = Inl f"
  shows "f = LengthError"
  using assms by (rule parse_fault_all(1))

theorem parse_fault_length_error_witness:
  "parse sample_externals (''*1001'' @ crlf) = Inl LengthError \<and> LengthError = (LengthError :: fault)"
proof -
  have "parse sample_externals (''*1001'' @ crlf) = Inl LengthError" by code_simp
  with parse_fault_length_error [OF this] show ?thesis by simp
qed

text \<open>
  A negative array count other than -1 is not rejected as a protocol error: it is converted
  to a huge unsigned size and \<open>reserve\<close> throws, whatever follows on the wire.
\<close>

theorem negative_array_count_throws:
  assumes "in_int64 n" and "n < -1" and "vec_max e < 2 ^ 63"
  shows "parse e (''*'' @ to_string n @ crlf @ rest) = Inl LengthError"
proof -
  have fc: "find_crlf (to_string n @ crlf @ rest) = Some (length (to_string n))"
    by (rule find_crlf_no_CR) simp
  have "vec_max e < unat (word_of_int n :: 64 word)"
    using unat_negative_int64 [OF assms(1)] assms(2,3) by simp
  with fc assms show ?thesis by (simp add: parse_array.simps)
qed

theorem negative_array_count_throws_witness:
  "parse sample_externals (''*'' @ to_string (-2) @ crlf @ ''$4'') = Inl LengthError"
  by (rule negative_array_count_throws) (simp_all add: in_int64_def sample_externals_def)

text \<open>
  A bulk string announced with length -2 is accepted: its content is every byte that happens
  to be in the buffer after the header, and only the header is consumed, so the same bytes are
  parsed again as the next command.
\<close>

theorem negative_bulk_length_swallows:
  assumes "length rest < 2 ^ 62"
  shows "parse e (''$-2'' @ crlf @ rest) = Inr (parsed (string_value BulkString rest) 5)"
proof -
  let ?buf = "''-2'' @ crlf @ rest"
  have fc: "find_crlf ?buf = Some 2" by (simp add: crlf_def)
  have pl: "parse_length (take 2 ?buf) = Some (-2)" by code_simp
  have "\<not> (of_nat (length ?buf) :: 64 word) < of_nat 2 + 2 + (word_of_int (-2) + 2)"
    using assms by (subst bulk_size_check) (auto simp: in_int64_def)
  moreover have "unat (1 + of_nat 2 + 2 + word_of_int (-2) + 2 :: 64 word) = 5" by simp
  moreover have "take (unat (word_of_int (-2) :: 64 word)) (drop (2 + 2) ?buf) = rest"
  proof -
    have "length rest \<le> unat (word_of_int (-2) :: 64 word)"
      using unat_negative_int64 [of "-2"] assms by (simp add: in_int64_def)
    then show ?thesis by (simp add: crlf_def)
  qed
  ultimately have "parse_bulk_string ?buf = parsed (string_value BulkString rest) 5"
    using fc pl unfolding parse_bulk_string_def Let_def by simp
  then show ?thesis by simp
qed

theorem negative_bulk_length_swallows_witness:
  "parse sample_externals (''$-2'' @ crlf @ ''FLUSHALL'') =
     Inr (parsed (string_value BulkString ''FLUSHALL'') 5)"
  by (rule negative_bulk_length_swallows) simp

end
