(* ===== verification/Commands.thy ===== *)
theory Commands
  imports Store_Outcomes Resp_Parser "HOL-Library.Signed_Division"
begin

text \<open>
  The command layer: the handlers under \<open>src/src/commands/handlers/\<close> and the dispatcher
  (\<open>src/src/commands/Dispatcher.cpp\<close>) that routes a parsed request to one of them. A handler
  maps the store and the request to the reply bytes and the new store. \<open>clk n\<close> is the clock
  reading at the n-th place of the handler that reads the clock.
\<close>

section \<open>Contexts and arguments\<close>

record command_context =
  ctx_store :: store
  ctx_req :: resp_value

type_synonym command_handler = "externals \<Rightarrow> (nat \<Rightarrow> int) \<Rightarrow> command_context \<Rightarrow> (string \<times> store) result"

abbreviation args :: "command_context \<Rightarrow> resp_value list" where
  "args ctx \<equiv> array_field (ctx_req ctx)"

abbreviation arg :: "command_context \<Rightarrow> nat \<Rightarrow> string" where
  "arg ctx i \<equiv> str (args ctx ! i)"

definition wrong_args :: "string \<Rightarrow> string" where
  "wrong_args name = error (''wrong number of arguments for '' @ [CHR 0x27] @ name @ [CHR 0x27] @ '' command'')"

definition not_integer :: string where
  "not_integer = error ''value is not an integer or out of range''"

text \<open>The value \<open>from_chars\<close> leaves in its output variable, for calls that ignore the error code.\<close>

definition chars_value :: "string \<Rightarrow> int \<Rightarrow> int" where
  "chars_value s v = snd (snd (from_chars s v))"

section \<open>Handlers\<close>

definition handle_ping :: command_handler where
  "handle_ping e clk ctx =
     (if length (args ctx) \<ge> 2 \<and> rtype (args ctx ! 1) = BulkString
      then Inr (bulk e (arg ctx 1), ctx_store ctx)
      else Inr (simple ''PONG'', ctx_store ctx))"

text \<open>
  The option loop of \<open>SET\<close>. The two pointer arguments of \<open>from_chars\<close> are written as
  \<open>args[++i].str.data()\<close> and \<open>args[i].str.data() + args[i].str.size()\<close>: they delimit one string
  only if the compiler evaluates the first one first.
\<close>

record set_options =
  ttl_opt :: int
  nx_opt :: bool
  xx_opt :: bool

fun set_options_loop :: "externals \<Rightarrow> string list \<Rightarrow> set_options \<Rightarrow> set_options result" where
  "set_options_loop e [] o' = Inr o'"
| "set_options_loop e (a # rest) o' =
     (let opt = map toupper a in
      case rest of
        x # rest' \<Rightarrow>
          if opt = ''EX'' then
            (if \<not> left_to_right e then Inl InvalidRange
             else rbind (mul64 (chars_value x 0) 1000) (\<lambda>t. set_options_loop e rest' (o'\<lparr>ttl_opt := t\<rparr>)))
          else if opt = ''PX'' then
            (if \<not> left_to_right e then Inl InvalidRange
             else set_options_loop e rest' (o'\<lparr>ttl_opt := chars_value x (ttl_opt o')\<rparr>))
          else if opt = ''NX'' then set_options_loop e rest (o'\<lparr>nx_opt := True\<rparr>)
          else if opt = ''XX'' then set_options_loop e rest (o'\<lparr>xx_opt := True\<rparr>)
          else set_options_loop e rest o'
      | [] \<Rightarrow>
          if opt = ''NX'' then Inr (o'\<lparr>nx_opt := True\<rparr>)
          else if opt = ''XX'' then Inr (o'\<lparr>xx_opt := True\<rparr>)
          else Inr o')"

definition handle_set :: command_handler where
  "handle_set e clk ctx =
     (if length (args ctx) < 3 then Inr (wrong_args ''set'', ctx_store ctx)
      else
        let key = arg ctx 1; v = arg ctx 2 in
        rbind (set_options_loop e (map str (drop 3 (args ctx)))
                 \<lparr>ttl_opt = -1, nx_opt = False, xx_opt = False\<rparr>) (\<lambda>opts.
          if nx_opt opts \<and> store_exists e (ctx_store ctx) key (clk 0) then Inr (null_bulk, ctx_store ctx)
          else if xx_opt opts \<and> \<not> store_exists e (ctx_store ctx) key (clk 1) then Inr (null_bulk, ctx_store ctx)
          else rbind (store_set e (ctx_store ctx) key v (ttl_opt opts) (clk 2)) (\<lambda>s. Inr (ok, s))))"

definition handle_get :: command_handler where
  "handle_get e clk ctx =
     (if length (args ctx) < 2 then Inr (wrong_args ''get'', ctx_store ctx)
      else rbind (store_get e (ctx_store ctx) (arg ctx 1) (clk 0) (clk 1)) (\<lambda>(v, s).
             case v of None \<Rightarrow> Inr (null_bulk, s) | Some x \<Rightarrow> Inr (bulk e x, s)))"

fun del_loop :: "externals \<Rightarrow> store \<Rightarrow> string list \<Rightarrow> int \<Rightarrow> (int \<times> store) result" where
  "del_loop e s [] deleted = Inr (deleted, s)"
| "del_loop e s (k # ks) deleted =
     rbind (store_del e s k) (\<lambda>(b, s').
     rbind (if b then add64 deleted 1 else Inr deleted) (\<lambda>deleted'. del_loop e s' ks deleted'))"

definition handle_del :: command_handler where
  "handle_del e clk ctx =
     (if length (args ctx) < 2 then Inr (wrong_args ''del'', ctx_store ctx)
      else rbind (del_loop e (ctx_store ctx) (map str (drop 1 (args ctx))) 0) (\<lambda>(deleted, s).
             Inr (integer e deleted, s)))"

fun exists_loop :: "externals \<Rightarrow> (nat \<Rightarrow> int) \<Rightarrow> store \<Rightarrow> string list \<Rightarrow> nat \<Rightarrow> int \<Rightarrow> int result" where
  "exists_loop e clk s [] i count = Inr count"
| "exists_loop e clk s (k # ks) i count =
     rbind (if store_exists e s k (clk i) then add64 count 1 else Inr count) (\<lambda>count'.
       exists_loop e clk s ks (Suc i) count')"

definition handle_exists :: command_handler where
  "handle_exists e clk ctx =
     (if length (args ctx) < 2 then Inr (wrong_args ''exists'', ctx_store ctx)
      else rbind (exists_loop e clk (ctx_store ctx) (map str (drop 1 (args ctx))) 0 0) (\<lambda>count.
             Inr (integer e count, ctx_store ctx)))"

definition handle_expire :: command_handler where
  "handle_expire e clk ctx =
     (if length (args ctx) < 3 then Inr (wrong_args ''expire'', ctx_store ctx)
      else rbind (mul64 (chars_value (arg ctx 2) 0) 1000) (\<lambda>ttl.
           rbind (store_expire e (ctx_store ctx) (arg ctx 1) ttl (clk 0) (clk 1)) (\<lambda>(b, s).
             Inr (integer e (if b then 1 else 0), s))))"

definition handle_pexpire :: command_handler where
  "handle_pexpire e clk ctx =
     (if length (args ctx) < 3 then Inr (wrong_args ''pexpire'', ctx_store ctx)
      else rbind (store_expire e (ctx_store ctx) (arg ctx 1) (chars_value (arg ctx 2) 0) (clk 0) (clk 1)) (\<lambda>(b, s).
             Inr (integer e (if b then 1 else 0), s)))"

definition handle_ttl :: command_handler where
  "handle_ttl e clk ctx =
     (if length (args ctx) < 2 then Inr (wrong_args ''ttl'', ctx_store ctx)
      else rbind (store_ttl e (ctx_store ctx) (arg ctx 1) (clk 0)) (\<lambda>ms.
             if ms = -2 then Inr (integer e (-2), ctx_store ctx)
             else if ms = -1 then Inr (integer e (-1), ctx_store ctx)
             else Inr (integer e (ms sdiv 1000), ctx_store ctx)))"

definition handle_pttl :: command_handler where
  "handle_pttl e clk ctx =
     (if length (args ctx) < 2 then Inr (wrong_args ''pttl'', ctx_store ctx)
      else rbind (store_ttl e (ctx_store ctx) (arg ctx 1) (clk 0)) (\<lambda>ms.
             Inr (integer e ms, ctx_store ctx)))"

definition handle_incr :: command_handler where
  "handle_incr e clk ctx =
     (if length (args ctx) < 2 then Inr (wrong_args ''incr'', ctx_store ctx)
      else rbind (store_incr e (ctx_store ctx) (arg ctx 1) (clk 0)) (\<lambda>(r, s).
             case r of None \<Rightarrow> Inr (not_integer, s) | Some n \<Rightarrow> Inr (integer e n, s)))"

definition handle_incrby :: command_handler where
  "handle_incrby e clk ctx =
     (if length (args ctx) < 3 then Inr (wrong_args ''incrby'', ctx_store ctx)
      else
        let key = arg ctx 1 in
        case from_chars (arg ctx 2) 0 of (rest, ec, delta) \<Rightarrow>
          if ec \<noteq> ErrcNone then Inr (not_integer, ctx_store ctx)
          else rbind (store_get e (ctx_store ctx) key (clk 0) (clk 1)) (\<lambda>(cur_str, s).
                 let (ec2, cur) = (case cur_str of None \<Rightarrow> (ErrcNone, 0) | Some x \<Rightarrow> snd (from_chars x 0)) in
                 if ec2 \<noteq> ErrcNone then Inr (not_integer, s)
                 else rbind (add64 cur delta) (\<lambda>next.
                      rbind (store_set e s key (to_string next) (-1) (clk 2)) (\<lambda>s'.
                        Inr (integer e next, s')))))"

definition handle_keys :: command_handler where
  "handle_keys e clk ctx =
     (let pattern = (if length (args ctx) \<ge> 2 then arg ctx 1 else ''*'') in
      Inr (array e (store_keys e (ctx_store ctx) pattern (clk 0)), ctx_store ctx))"

definition handle_dbsize :: command_handler where
  "handle_dbsize e clk ctx =
     Inr (integer e (sint (of_nat (store_size (ctx_store ctx)) :: 64 word)), ctx_store ctx)"

definition handle_flushall :: command_handler where
  "handle_flushall e clk ctx = rbind (store_flush (ctx_store ctx)) (\<lambda>s. Inr (ok, s))"

section \<open>The dispatcher\<close>

text \<open>\<open>unordered_map::emplace\<close> keeps the first handler registered under a name.\<close>

definition register_handler ::
  "string \<Rightarrow> command_handler \<Rightarrow> (string \<times> command_handler) list \<Rightarrow> (string \<times> command_handler) list" where
  "register_handler name h hs = (if map_of hs name = None then (name, h) # hs else hs)"

definition dispatcher_init :: "(string \<times> command_handler) list" where
  "dispatcher_init =
     foldl (\<lambda>d (name, h). register_handler name h d) []
       [(''ping'', handle_ping),
        (''set'', handle_set),
        (''get'', handle_get),
        (''del'', handle_del),
        (''unlink'', handle_del),
        (''exists'', handle_exists),
        (''expire'', handle_expire),
        (''pexpire'', handle_pexpire),
        (''ttl'', handle_ttl),
        (''pttl'', handle_pttl),
        (''incr'', handle_incr),
        (''incrby'', handle_incrby),
        (''keys'', handle_keys),
        (''dbsize'', handle_dbsize),
        (''flushall'', handle_flushall),
        (''flushdb'', handle_flushall)]"

definition dispatch :: "externals \<Rightarrow> (nat \<Rightarrow> int) \<Rightarrow> resp_value \<Rightarrow> store \<Rightarrow> (string \<times> store) result" where
  "dispatch e clk req s =
     (if rtype req \<noteq> ArrayT \<or> array_field req = [] then Inr (error ''invalid request format'', s)
      else
        let cmd = map tolower (str (array_field req ! 0)) in
        case map_of dispatcher_init cmd of
          None \<Rightarrow> Inr (error (''unknown command '' @ [CHR 0x27] @ cmd @ [CHR 0x27]), s)
        | Some h \<Rightarrow> h e clk \<lparr>ctx_store = s, ctx_req = req\<rparr>)"

lemma dispatcher_table:
  "dispatcher_init =
     [(''flushdb'', handle_flushall), (''flushall'', handle_flushall), (''dbsize'', handle_dbsize),
      (''keys'', handle_keys), (''incrby'', handle_incrby), (''incr'', handle_incr), (''pttl'', handle_pttl),
      (''ttl'', handle_ttl), (''pexpire'', handle_pexpire), (''expire'', handle_expire),
      (''exists'', handle_exists), (''unlink'', handle_del), (''del'', handle_del), (''get'', handle_get),
      (''set'', handle_set), (''ping'', handle_ping)]"
  by (simp add: dispatcher_init_def register_handler_def)

end
