(* ===== verification/Commands_Correct.thy ===== *)
theory Commands_Correct
  imports Commands
begin

text \<open>
  Correctness of the command layer: every handler keeps the store invariant and never uses a
  dangling node; every reply is exactly one protocol frame, unless an unknown command name smuggles
  a line break into it; and the data commands do on the wire what the store promises.
\<close>

section \<open>Replies are frames\<close>

definition framed :: "externals \<Rightarrow> string \<Rightarrow> bool" where
  "framed e r \<longleftrightarrow> (\<forall>rest. length (r @ rest) < 2 ^ 63 \<longrightarrow> (\<exists>v. parse e (r @ rest) = Inr (parsed v (length r))))"

lemma framed_ok [frame_simps]: "framed e ok"
  by (auto simp: framed_def ok_def crlf_def parse_simple_string_def)

lemma framed_null_bulk [frame_simps]: "framed e null_bulk"
proof -
  have "parse_bulk_string (''-1'' @ crlf @ rest) = parsed (null_value BulkString) 5" for rest
  proof -
    have "find_crlf (''-1'' @ crlf @ rest) = Some 2" using find_crlf_no_CR [of "''-1''" rest] by simp
    moreover have "parse_length ''-1'' = Some (-1)" by code_simp
    ultimately show ?thesis by (simp add: parse_bulk_string_def crlf_def)
  qed
  then have "parse e (null_bulk @ rest) = Inr (parsed (null_value BulkString) 5)" for rest
    by (simp add: null_bulk_def crlf_def)
  moreover have "length null_bulk = 5" by (simp add: null_bulk_def crlf_def)
  ultimately show ?thesis unfolding framed_def by auto
qed

lemma framed_line:
  assumes "CR \<notin> set msg"
  shows framed_simple: "framed e (simple msg)" and framed_error: "framed e (error msg)"
  using assms find_crlf_no_CR [of "''ERR '' @ msg"] find_crlf_no_CR [of msg]
  by (auto simp: framed_def simple_def error_def crlf_def parse_simple_string_def parse_error_def)

lemma framed_bulk [frame_simps]: "decimal_fmt e \<Longrightarrow> framed e (bulk e s)"
  unfolding framed_def using parse_bulk by blast

lemma framed_array: "decimal_fmt e \<Longrightarrow> length xs \<le> vec_max e \<Longrightarrow> framed e (array e xs)"
  unfolding framed_def using parse_array_bulks by blast

lemma parse_integer_reply:
  assumes "decimal_fmt e" and "in_int64 n"
  shows "parse e (integer e n @ rest) = Inr (parsed (int_value n) (length (integer e n)))"
proof -
  have "find_crlf (to_string n @ crlf @ rest) = Some (length (to_string n))"
    by (rule find_crlf_no_CR) simp
  with assms show ?thesis by (simp add: integer_def parse_integer_def crlf_def)
qed

lemma framed_integer [frame_simps]: "decimal_fmt e \<Longrightarrow> in_int64 n \<Longrightarrow> framed e (integer e n)"
  unfolding framed_def using parse_integer_reply by blast

lemma framed_wrong_args [frame_simps]:
  "CR \<notin> set name \<Longrightarrow> framed e (wrong_args name)" "framed e not_integer"
  unfolding wrong_args_def not_integer_def by (rule framed_error; auto)+

section \<open>Handlers\<close>

text \<open>
  What every handler promises: its faults are overflows (or the unspecified evaluation order of
  \<open>SET\<close> options), it keeps the store invariant, and its reply is one frame.
\<close>

definition language_fault :: "externals \<Rightarrow> fault \<Rightarrow> bool" where
  "language_fault e f \<longleftrightarrow> f = SignedOverflow \<or> (f = InvalidRange \<and> \<not> left_to_right e)"

definition reply_ok :: "externals \<Rightarrow> store \<Rightarrow> string \<times> store \<Rightarrow> bool" where
  "reply_ok e s0 r \<longleftrightarrow>
     store_ok e (snd r) \<and> (decimal_fmt e \<and> store_size s0 \<le> vec_max e \<longrightarrow> framed e (fst r))"

lemma reply_okI [intro!]:
  "store_ok e s \<Longrightarrow> (decimal_fmt e \<Longrightarrow> store_size s0 \<le> vec_max e \<Longrightarrow> framed e r) \<Longrightarrow> reply_ok e s0 (r, s)"
  by (simp add: reply_ok_def)

definition handler_ok :: "externals \<Rightarrow> command_handler \<Rightarrow> bool" where
  "handler_ok e h \<longleftrightarrow>
     (\<forall>clk ctx. store_ok e (ctx_store ctx) \<longrightarrow>
        outcome (language_fault e) (reply_ok e (ctx_store ctx)) (h e clk ctx))"

lemma handler_okI:
  assumes "\<And>clk ctx. store_ok e (ctx_store ctx) \<Longrightarrow>
    outcome overflow_only (reply_ok e (ctx_store ctx)) (h e clk ctx)"
  shows "handler_ok e h"
  unfolding handler_ok_def
  by (intro allI impI, rule outcome_mono [OF assms]) (auto simp: language_fault_def)

lemma in_int64_small [simp]: "in_int64 0" "in_int64 1" "in_int64 (-1)" "in_int64 (-2)"
  by (simp_all add: in_int64_def)

lemma outcome_add64 [op_specs]: "outcome overflow_only in_int64 (add64 a b)"
  by (simp add: add64_def)

lemma outcome_mul64 [op_specs]: "outcome overflow_only in_int64 (mul64 a b)"
  by (simp add: mul64_def)

lemmas outcome_bind = op_specs [THEN outcome_rbind]

lemma handler_ok_ping: "handler_ok e handle_ping"
  by (rule handler_okI) (auto simp: handle_ping_def frame_simps intro: framed_simple)

lemma handler_ok_get: "handler_ok e handle_get"
  by (rule handler_okI)
    (auto simp: handle_get_def frame_simps split: option.splits intro!: outcome_bind)

lemma outcome_del_loop:
  "store_ok e s \<Longrightarrow> in_int64 n \<Longrightarrow>
   outcome overflow_only (\<lambda>(d, s'). in_int64 d \<and> store_ok e s') (del_loop e s ks n)"
proof (induction ks arbitrary: s n)
  case (Cons k ks)
  have "outcome overflow_only in_int64 (if b then add64 n 1 else Inr n)" for b
    using Cons.prems(2) by (simp add: outcome_add64)
  then show ?case
    using Cons by (auto intro!: outcome_bind intro: outcome_rbind)
qed simp

lemma handler_ok_del: "handler_ok e handle_del"
  by (rule handler_okI) (auto simp: handle_del_def frame_simps intro!: outcome_rbind [OF outcome_del_loop])

lemma outcome_exists_loop:
  "in_int64 n \<Longrightarrow> outcome overflow_only in_int64 (exists_loop e clk s ks i n)"
proof (induction ks arbitrary: i n)
  case (Cons k ks)
  then show ?case by (auto intro!: outcome_bind)
qed simp

lemma handler_ok_exists: "handler_ok e handle_exists"
  by (rule handler_okI) (auto simp: handle_exists_def frame_simps intro!: outcome_rbind [OF outcome_exists_loop])

lemma handler_ok_expire: "handler_ok e handle_expire"
  by (rule handler_okI)
    (auto simp: handle_expire_def frame_simps
      intro!: outcome_bind)

lemma handler_ok_pexpire: "handler_ok e handle_pexpire"
  by (rule handler_okI)
    (auto simp: handle_pexpire_def frame_simps intro!: outcome_bind)

lemma in_int64_sdiv_1000: "in_int64 n \<Longrightarrow> in_int64 (n sdiv 1000)"
  by (auto simp: in_int64_def signed_divide_int_def sgn_if)

lemma handler_ok_ttl: "handler_ok e handle_ttl"
  by (rule handler_okI)
    (auto simp: handle_ttl_def frame_simps in_int64_sdiv_1000 intro!: outcome_bind)

lemma handler_ok_pttl: "handler_ok e handle_pttl"
  by (rule handler_okI) (auto simp: handle_pttl_def frame_simps intro!: outcome_bind)

lemma handler_ok_incr: "handler_ok e handle_incr"
  by (rule handler_okI)
    (auto simp: handle_incr_def frame_simps split: option.splits intro!: outcome_bind)

lemma handler_ok_incrby: "handler_ok e handle_incrby"
  by (rule handler_okI)
    (auto simp: handle_incrby_def frame_simps Let_def split: prod.splits
      intro!: outcome_bind)

lemma handler_ok_keys: "handler_ok e handle_keys"
proof (rule handler_okI)
  fix clk and ctx :: command_context assume ok: "store_ok e (ctx_store ctx)"
  show "outcome overflow_only (reply_ok e (ctx_store ctx)) (handle_keys e clk ctx)"
    using ok le_trans [OF length_store_keys] by (auto simp: handle_keys_def Let_def intro!: framed_array)
qed

lemma handler_ok_dbsize: "handler_ok e handle_dbsize"
proof -
  have "in_int64 (sint (w :: 64 word))" for w
    using sint_ge [of w] sint_lt [of w] by (simp add: in_int64_def)
  then show ?thesis by (intro handler_okI) (auto simp: handle_dbsize_def frame_simps)
qed

lemma handler_ok_flushall: "handler_ok e handle_flushall"
  by (rule handler_okI) (auto simp: handle_flushall_def frame_simps intro!: outcome_bind)

lemma outcome_set_options:
  "outcome (language_fault e) (\<lambda>_. True) (set_options_loop e as opts)"
proof (induction "length as" arbitrary: as opts rule: less_induct)
  case less
  show ?case
  proof (cases as)
    case (Cons a rest)
    then have rest: "outcome (language_fault e) (\<lambda>_. True) (set_options_loop e rest o')" for o'
      by (intro less) simp
    show ?thesis
    proof (cases rest)
      case Nil
      with Cons show ?thesis by (simp add: Let_def)
    next
      case (Cons x rest')
      with \<open>as = a # rest\<close> have "outcome (language_fault e) (\<lambda>_. True) (set_options_loop e rest' o')" for o'
        by (intro less) simp
      then show ?thesis
        using rest Cons \<open>as = a # rest\<close> by (simp add: Let_def language_fault_def mul64_def)
    qed
  qed simp
qed

lemma handler_ok_set: "handler_ok e handle_set"
proof -
  have set: "outcome (language_fault e) (store_ok e) (store_set e s k v ttl now)"
    if "store_ok e s" for s k v ttl now
    using outcome_set [OF that] by (rule outcome_mono) (auto simp: language_fault_def)
  show ?thesis
    unfolding handler_ok_def handle_set_def Let_def
    by (auto simp: frame_simps intro!: outcome_rbind [OF outcome_set_options] outcome_rbind [OF set])
qed

lemmas handlers_ok = handler_ok_ping handler_ok_get handler_ok_del handler_ok_exists handler_ok_expire
  handler_ok_pexpire handler_ok_ttl handler_ok_pttl handler_ok_incr handler_ok_incrby handler_ok_keys
  handler_ok_dbsize handler_ok_flushall handler_ok_set

lemma table_ok: "map_of dispatcher_init cmd = Some h \<Longrightarrow> handler_ok e h"
  by (auto simp: dispatcher_table handlers_ok split: if_splits)

lemma tolower_eq_CR: "CR = tolower c \<Longrightarrow> c = CR"
proof (rule ccontr)
  assume cr: "CR = tolower c" and "c \<noteq> CR"
  then have r: "65 \<le> (of_char c :: nat)" "(of_char c :: nat) \<le> 90" "CR = char_of ((of_char c :: nat) + 32)"
    by (auto simp: tolower_def split: if_splits)
  from arg_cong [OF r(3), of "of_char :: char \<Rightarrow> nat"] r(1,2) show False by simp
qed

lemma dispatch_outcome:
  assumes "store_ok e s"
  shows "outcome (language_fault e)
           (\<lambda>(reply, s'). store_ok e s' \<and>
              (decimal_fmt e \<and> store_size s \<le> vec_max e \<and> CR \<notin> set (str (array_field req ! 0)) \<longrightarrow> framed e reply))
           (dispatch e clk req s)" (is "outcome _ ?P _")
proof -
  let ?cmd = "map tolower (str (array_field req ! 0))"
  have cr: "CR \<notin> set ?cmd" if "CR \<notin> set (str (array_field req ! 0))"
    using that by (auto dest: tolower_eq_CR)
  show ?thesis
  proof (cases "map_of dispatcher_init ?cmd")
    case None
    with assms cr show ?thesis
      by (auto simp: dispatch_def Let_def intro!: framed_error)
  next
    case (Some h)
    have "outcome (language_fault e) (reply_ok e s) (h e clk \<lparr>ctx_store = s, ctx_req = req\<rparr>)"
      using table_ok [OF Some, of e] assms unfolding handler_ok_def
      by (metis command_context.select_convs(1))
    then have h: "outcome (language_fault e) ?P (h e clk \<lparr>ctx_store = s, ctx_req = req\<rparr>)"
      by (rule outcome_mono) (auto simp: reply_ok_def)
    show ?thesis
    proof (cases "rtype req \<noteq> ArrayT \<or> array_field req = []")
      case True
      then show ?thesis using assms by (simp add: dispatch_def framed_error)
    next
      case False
      with Some h show ?thesis by (simp add: dispatch_def Let_def)
    qed
  qed
qed

section \<open>Requests\<close>

text \<open>The request the parser delivers for an array of bulk strings.\<close>

definition request :: "string list \<Rightarrow> resp_value" where
  "request as = array_value (map (string_value BulkString) as)"

lemma sample_left_to_right: "left_to_right sample_externals"
  by (simp add: sample_externals_def)

lemma dispatch_request:
  assumes "map_of dispatcher_init (map tolower name) = Some h"
  shows "dispatch e clk (request (name # as)) s = h e clk \<lparr>ctx_store = s, ctx_req = request (name # as)\<rparr>"
  using assms by (simp add: dispatch_def request_def Let_def)

lemma args_request [simp]: "array_field (request as) = map (string_value BulkString) as"
  by (simp add: request_def)

lemma table_lookup [simp]:
  "map_of dispatcher_init ''set'' = Some handle_set" "map_of dispatcher_init ''get'' = Some handle_get"
  "map_of dispatcher_init ''del'' = Some handle_del" "map_of dispatcher_init ''unlink'' = Some handle_del"
  "map_of dispatcher_init ''expire'' = Some handle_expire"
  by (simp_all add: dispatcher_table)

lemma lower_names [simp]:
  "map tolower ''SET'' = ''set''" "map tolower ''GET'' = ''get''" "map tolower ''DEL'' = ''del''"
  "map tolower ''EXPIRE'' = ''expire''"
  by code_simp+

lemma dispatch_names:
  "dispatch e clk (request (''SET'' # as)) s = handle_set e clk \<lparr>ctx_store = s, ctx_req = request (''SET'' # as)\<rparr>"
  "dispatch e clk (request (''DEL'' # as)) s = handle_del e clk \<lparr>ctx_store = s, ctx_req = request (''DEL'' # as)\<rparr>"
  "dispatch e clk (request (''EXPIRE'' # as)) s =
     handle_expire e clk \<lparr>ctx_store = s, ctx_req = request (''EXPIRE'' # as)\<rparr>"
  by (rule dispatch_request, simp only: lower_names table_lookup)+

lemma set_option_flag:
  assumes "map toupper a = u"
  shows "set_options_loop e [a] o' =
           Inr (if u = ''NX'' then o'\<lparr>nx_opt := True\<rparr> else if u = ''XX'' then o'\<lparr>xx_opt := True\<rparr> else o')"
  using assms by (simp add: Let_def)

lemma set_option_ttl_order:
  assumes "map toupper a = u" and "u = ''EX'' \<or> u = ''PX''" and "\<not> left_to_right e"
  shows "set_options_loop e (a # x # rest) o' = Inl InvalidRange"
  using assms by (auto simp: Let_def)

declare set_options_loop.simps(2) [simp del]

lemma del_loop_ok:
  assumes "store_ok e s" and "0 \<le> n" and "n + int (length ks) < 2 ^ 63"
  shows "\<exists>s'. del_loop e s ks n = Inr (n + int (card (set ks \<inter> dom (store_map e s))), s') \<and> store_ok e s' \<and>
              store_map e s' = store_map e s |` (- set ks)"
  using assms
proof (induction ks arbitrary: s n)
  case (Cons k ks)
  obtain s1 where s1: "store_del e s k = Inr (k \<in> dom (store_map e s), s1)" "store_ok e s1"
    "store_map e s1 = (store_map e s)(k := None)"
    using Cons.prems(1) by (rule store_del_ok)
  define m where "m = (if k \<in> dom (store_map e s) then n + 1 else n)"
  have add: "(if k \<in> dom (store_map e s) then add64 n 1 else Inr n) = Inr m"
    using Cons.prems(2,3) by (auto simp: m_def add64_def in_int64_def)
  have "0 \<le> m" "m + int (length ks) < 2 ^ 63" using Cons.prems(2,3) by (auto simp: m_def)
  from Cons.IH [OF s1(2) this] obtain s' where
    s': "del_loop e s1 ks m = Inr (m + int (card (set ks \<inter> dom (store_map e s1))), s')"
      "store_ok e s'" "store_map e s' = store_map e s1 |` (- set ks)"
    by auto
  have "set (k # ks) \<inter> dom (store_map e s) =
      (if k \<in> dom (store_map e s) then insert k (set ks \<inter> dom (store_map e s1)) else set ks \<inter> dom (store_map e s1))"
    by (auto simp: s1(3))
  moreover have "k \<notin> set ks \<inter> dom (store_map e s1)" by (simp add: s1(3))
  ultimately have "m + int (card (set ks \<inter> dom (store_map e s1))) =
      n + int (card (set (k # ks) \<inter> dom (store_map e s)))"
    by (simp add: m_def)
  moreover have "store_map e s' = store_map e s |` (- set (k # ks))"
    by (auto simp: s'(3) s1(3) restrict_map_def fun_eq_iff)
  ultimately show ?case using s1(1) s'(1,2) add by auto
qed (simp add: restrict_map_def)

lemma frame_of_status:
  assumes "rbind (parse e buf) (\<lambda>p. Inr (status p, consumed p)) = Inr (Ok, n)"
  obtains v where "parse e buf = Inr (parsed v n)"
proof -
  from assms obtain p where "parse e buf = Inr p" "status p = Ok" "consumed p = n" by auto
  with that [of "res_value p"] show ?thesis by (simp add: parsed_def)
qed

section \<open>Properties\<close>

text \<open>
  C9: Memory safety of command execution. Whatever the request, \<open>dispatch\<close> keeps the store
  invariant; the only ways it can fail to complete are a 64-bit signed overflow and, on compilers
  that do not evaluate call arguments from left to right, the option loop of \<open>SET\<close>. In particular
  no command touches a dangling recency node.
\<close>

theorem dispatch_memory_safe:
  assumes "store_ok e s"
  shows "case dispatch e clk req s of
           Inr (reply, s') \<Rightarrow> store_ok e s'
         | Inl f \<Rightarrow> f = SignedOverflow \<or> (f = InvalidRange \<and> \<not> left_to_right e)"
  using dispatch_outcome [OF assms, of req clk]
  by (cases "dispatch e clk req s") (auto simp: language_fault_def)

theorem dispatch_memory_safe_witness:
  "case dispatch sample_externals (\<lambda>_. 7) (request [''set'', ''k'', ''v'']) full_store of
     Inr (reply, s') \<Rightarrow> store_ok sample_externals s' | Inl f \<Rightarrow> f = SignedOverflow"
  using dispatch_memory_safe [OF store_ok_full, of "\<lambda>_. 7" "request [''set'', ''k'', ''v'']"]
  by (auto simp: sample_left_to_right split: sum.splits)



text \<open>
  Reply splitting. The reply to an unknown command echoes its name, so a name with a line break
  in it yields a reply that a client reads as two replies.
\<close>

theorem unknown_command_splits_reply:
  "\<exists>reply v w. dispatch sample_externals (\<lambda>_. 0) (request [''x'' @ crlf @ ''+OK'']) (store_init 1) =
       Inr (reply, store_init 1) \<and>
     parse sample_externals reply = Inr (parsed v 25) \<and> length reply = 31 \<and>
     parse sample_externals (drop 25 reply) = Inr (parsed w 6)"
proof -
  let ?reply = "error (''unknown command '' @ [CHR 0x27] @ ''x'' @ crlf @ ''+ok'' @ [CHR 0x27])"
  have "map_of dispatcher_init (map tolower (''x'' @ crlf @ ''+OK'')) = None"
    by (simp add: dispatcher_table crlf_def tolower_def)
  moreover have "map tolower (''x'' @ crlf @ ''+OK'') = ''x'' @ crlf @ ''+ok''" by code_simp
  ultimately have "dispatch sample_externals (\<lambda>_. 0) (request [''x'' @ crlf @ ''+OK'']) (store_init 1) =
      Inr (?reply, store_init 1)" by (simp add: dispatch_def request_def)
  moreover obtain v where "parse sample_externals ?reply = Inr (parsed v 25)"
  proof (rule frame_of_status)
    show "rbind (parse sample_externals ?reply) (\<lambda>p. Inr (status p, consumed p)) = Inr (Ok, 25)" by code_simp
  qed
  moreover obtain w where "parse sample_externals (drop 25 ?reply) = Inr (parsed w 6)"
  proof (rule frame_of_status)
    show "rbind (parse sample_externals (drop 25 ?reply)) (\<lambda>p. Inr (status p, consumed p)) = Inr (Ok, 6)"
      by code_simp
  qed
  moreover have "length ?reply = 31" by code_simp
  ultimately show ?thesis by blast
qed

text \<open>
  Values survive the wire. A \<open>SET\<close> of a key without options answers OK, and a following \<open>GET\<close>
  answers the value byte for byte, at any time and in any spelling of the command names.
\<close>

theorem set_get_on_the_wire:
  assumes "store_ok e s" and "map tolower set_name = ''set''" and "map tolower get_name = ''get''"
  shows "\<exists>s' s''. dispatch e clk (request [set_name, k, v]) s = Inr (ok, s') \<and> store_ok e s' \<and>
                  dispatch e clk' (request [get_name, k]) s' = Inr (bulk e v, s'') \<and> store_map e s'' = store_map e s'"
proof -
  have r: "0 < (-1::int) \<longrightarrow> in_int64 (clk 2 + -1)" by simp
  obtain s' where s': "store_set e s k v (-1) (clk 2) = Inr s'" "store_ok e s'"
    using assms(1) r by (rule store_set_ok)
  have "\<not> expired_at (deadline (-1) (clk 2)) (clk' 0)" by (simp add: deadline_def expired_at_def)
  from st.set_then_get [OF assms(1) s'(1) r this, of "clk' 1"] obtain s'' where
    s'': "store_get e s' k (clk' 0) (clk' 1) = Inr (Some v, s'')" "store_map e s'' = store_map e s'" by auto
  show ?thesis
    using assms(2,3) s' s''
    by (intro exI [of _ s'] exI [of _ s'']) (simp add: dispatch_request handle_set_def handle_get_def)
qed

theorem set_get_on_the_wire_witness:
  "\<exists>s' s''. dispatch sample_externals (\<lambda>_. 5) (request [''SET'', ''k'', ''v'']) full_store = Inr (ok, s') \<and>
            dispatch sample_externals (\<lambda>_. 9) (request [''GET'', ''k'']) s' = Inr (bulk sample_externals ''v'', s'')"
  using set_get_on_the_wire [OF store_ok_full lower_names(1,2)] by blast

text \<open>
  Conditional \<open>SET\<close>. With \<open>NX\<close> a live key is left alone and the reply is the null bulk
  string; with \<open>XX\<close> the same happens when the key is not live. Neither case evicts anything.
\<close>

theorem conditional_set_refused:
  assumes "map toupper opt = ''NX'' \<and> live (store_map e s) (clk 0) k \<noteq> None \<or>
           map toupper opt = ''XX'' \<and> live (store_map e s) (clk 1) k = None"
  shows "dispatch e clk (request [''SET'', k, v, opt]) s = Inr (null_bulk, s)"
proof -
  from assms show ?thesis
  proof
    assume h: "map toupper opt = ''NX'' \<and> live (store_map e s) (clk 0) k \<noteq> None"
    then show ?thesis
      using set_option_flag [OF conjunct1 [OF h], of e]
      by (simp add: dispatch_names handle_set_def store_exists_eq)
  next
    assume h: "map toupper opt = ''XX'' \<and> live (store_map e s) (clk 1) k = None"
    then show ?thesis
      using set_option_flag [OF conjunct1 [OF h], of e]
      by (simp add: dispatch_names handle_set_def store_exists_eq)
  qed
qed

theorem conditional_set_refused_witness:
  "dispatch sample_externals (\<lambda>_. 5) (request [''SET'', ''a'', ''v'', ''nx'']) full_store = Inr (null_bulk, full_store)"
proof (rule conditional_set_refused)
  have "map toupper ''nx'' = ''NX''" by code_simp
  moreover have "live (store_map sample_externals full_store) 5 ''a'' \<noteq> None"
    by (simp add: live_def full_store_eval expired_at_def)
  ultimately show "map toupper ''nx'' = ''NX'' \<and> live (store_map sample_externals full_store) 5 ''a'' \<noteq> None \<or>
      map toupper ''nx'' = ''XX'' \<and> live (store_map sample_externals full_store) 5 ''a'' = None" by blast
qed

text \<open>
  \<open>DEL\<close> with any number of keys answers how many distinct ones were stored and removes exactly
  the named keys; repeating a key does not count twice.
\<close>

theorem del_counts_distinct_keys:
  assumes "store_ok e s" and "ks \<noteq> []" and "length ks < 2 ^ 63"
  shows "\<exists>s'. dispatch e clk (request (''DEL'' # ks)) s =
                Inr (integer e (int (card (set ks \<inter> dom (store_map e s)))), s') \<and>
              store_ok e s' \<and> store_map e s' = store_map e s |` (- set ks)"
proof -
  from del_loop_ok [OF assms(1), of 0 ks] assms(3) obtain s' where
    "del_loop e s ks 0 = Inr (int (card (set ks \<inter> dom (store_map e s))), s')" "store_ok e s'"
    "store_map e s' = store_map e s |` (- set ks)" by auto
  with assms(2) show ?thesis
    by (intro exI [of _ s']) (simp add: dispatch_names handle_del_def comp_def)
qed

theorem del_counts_distinct_keys_witness:
  "\<exists>s'. dispatch sample_externals (\<lambda>_. 0) (request [''DEL'', ''a'', ''a'', ''zz'']) full_store =
          Inr (integer sample_externals 1, s')"
proof -
  have "store_map sample_externals full_store ''zz'' = None" by code_simp
  then have "set [''a'', ''a'', ''zz''] \<inter> dom (store_map sample_externals full_store) = {''a''}"
    by (auto simp: full_store_eval dom_def)
  then show ?thesis
    using del_counts_distinct_keys [OF store_ok_full, of "[''a'', ''a'', ''zz'']" "\<lambda>_. 0"] by auto
qed

text \<open>
  \<open>EXPIRE\<close> ignores conversion errors. A ttl that is not a number counts as zero: the command
  answers 1 and the key is gone for every later clock reading.
\<close>

theorem expire_garbage_kills_key:
  assumes "store_ok e s" and "live (store_map e s) (clk 0) k = Some v" and "in_int64 (clk 1)" and "0 \<le> clk 1"
    and "fst (snd (from_chars ttl 0)) \<noteq> ErrcNone"
  shows "\<exists>s'. dispatch e clk (request [''EXPIRE'', k, ttl]) s = Inr (integer e 1, s') \<and>
              (\<forall>t \<ge> clk 1. live (store_map e s') t k = None)"
proof -
  have z: "chars_value ttl 0 = 0"
    using from_chars_error_keeps [of ttl 0] assms(5) by (cases "from_chars ttl 0") (auto simp: chars_value_def)
  from assms(3) have "in_int64 (clk 1 + 0)" by simp
  with assms(1) obtain s' where
    s': "store_expire e s k 0 (clk 0) (clk 1) = Inr (live (store_map e s) (clk 0) k \<noteq> None, s')"
    "store_map e s' = (case live (store_map e s) (clk 0) k of None \<Rightarrow> store_map e s
                       | Some v \<Rightarrow> (store_map e s)(k \<mapsto> (v, clk 1 + 0)))"
    by (rule store_expire_ok)
  then have "live (store_map e s') t k = None" if "clk 1 \<le> t" for t
    using assms(2,4) that by (simp add: live_def expired_at_def)
  then show ?thesis
    using s' assms(2) z by (intro exI [of _ s']) (simp add: dispatch_names handle_expire_def mul64_def)
qed

theorem expire_garbage_kills_key_witness:
  "\<exists>s'. dispatch sample_externals (\<lambda>_. 5) (request [''EXPIRE'', ''a'', ''soon'']) full_store =
          Inr (integer sample_externals 1, s') \<and> live (store_map sample_externals s') 5 ''a'' = None"
proof -
  have "live (store_map sample_externals full_store) ((\<lambda>_. 5) (0::nat)) ''a'' = Some ''1''"
    by (simp add: live_def full_store_eval expired_at_def)
  moreover have "fst (snd (from_chars ''soon'' 0)) \<noteq> ErrcNone" by code_simp
  moreover have "in_int64 ((\<lambda>_. 5) (1::nat))" by (simp add: in_int64_def)
  ultimately show ?thesis using expire_garbage_kills_key [OF store_ok_full, of "\<lambda>_. 5" "''a''" "''1''" "''soon''"] by auto
qed

text \<open>
  \<open>SET\<close> with an \<open>EX\<close> or \<open>PX\<close> option relies on the evaluation order of call arguments: on a
  compiler that does not evaluate them from left to right the code passes two pointers to
  \<open>from_chars\<close> that do not delimit a string.
\<close>

theorem set_ttl_needs_left_to_right:
  assumes "\<not> left_to_right e" and "map toupper opt = ''EX'' \<or> map toupper opt = ''PX''"
  shows "dispatch e clk (request [''SET'', k, v, opt, n]) s = Inl InvalidRange"
  using set_option_ttl_order [OF refl assms(2,1)] by (simp add: dispatch_names handle_set_def)

theorem set_ttl_needs_left_to_right_witness:
  "dispatch (sample_externals\<lparr>left_to_right := False\<rparr>) (\<lambda>_. 0) (request [''SET'', ''k'', ''v'', ''ex'', ''10''])
     (store_init 4) = Inl InvalidRange"
proof (rule set_ttl_needs_left_to_right)
  show "map toupper ''ex'' = ''EX'' \<or> map toupper ''ex'' = ''PX''" by code_simp
qed simp

end
