(* ===== verification/Bytes.thy ===== *)
theory Bytes
  imports Cache_Prelude
begin

text \<open>
  Big-endian byte encodings of fixed-width integers, and the input stream they are read from
  (\<open>write_u32\<close>, \<open>write_i64\<close>, \<open>read_u32\<close>, \<open>read_i64\<close> of \<open>src/src/persistence/Rdb.cpp\<close>). A byte of a
  file is a \<open>char\<close>. The readers fill a local array that is not initialised, so a short read
  leaves bytes in it that were never written.
\<close>

unbundle bit_operations_syntax

section \<open>Bytes\<close>

definition byte :: "'a::len word \<Rightarrow> char" where
  "byte w = char_of (unat (take_bit 8 w))"

definition unbyte :: "char \<Rightarrow> 'a::len word" where
  "unbyte c = of_nat (of_char c)"

lemma unbyte_byte: "8 \<le> LENGTH('a) \<Longrightarrow> unbyte (byte (w :: 'a::len word)) = take_bit 8 w"
proof -
  assume "8 \<le> LENGTH('a)"
  have "unat (take_bit 8 w) = take_bit 8 (unat w)" by (simp add: unsigned_take_bit_eq)
  then have "unat (take_bit 8 w) < 256" using take_bit_nat_less_exp [of 8 "unat w"] by simp
  then have "of_char (char_of (unat (take_bit 8 w))) = unat (take_bit 8 w)" by simp
  then show ?thesis by (simp add: unbyte_def byte_def)
qed

section \<open>Writers\<close>

definition write_u32 :: "32 word \<Rightarrow> string" where
  "write_u32 v = [byte (drop_bit 24 v), byte (drop_bit 16 v), byte (drop_bit 8 v), byte v]"

fun write_bytes :: "nat \<Rightarrow> 64 word \<Rightarrow> string" where
  "write_bytes 0 u = []"
| "write_bytes (Suc i) u = write_bytes i (drop_bit 8 u) @ [byte (u AND 0xFF)]"

definition write_i64 :: "int \<Rightarrow> string" where
  "write_i64 v = write_bytes 8 (word_of_int v)"

section \<open>Readers\<close>

record ifstream =
  remaining :: string
  good_bit :: bool

text \<open>\<open>istream::read\<close>: the bytes stored into the buffer, and the stream afterwards.\<close>

definition stream_read :: "nat \<Rightarrow> ifstream \<Rightarrow> string \<times> ifstream" where
  "stream_read n f =
     (if \<not> good_bit f then ([], f)
      else if n \<le> length (remaining f) then (take n (remaining f), f\<lparr>remaining := drop n (remaining f)\<rparr>)
      else (remaining f, \<lparr>remaining = [], good_bit = False\<rparr>))"

definition read_u32 :: "ifstream \<Rightarrow> (32 word \<times> ifstream) result" where
  "read_u32 f =
     (let (b, f') = stream_read 4 f in
      if length b < 4 then Inl UninitialisedRead
      else Inr (push_bit 24 (unbyte (b ! 0)) OR push_bit 16 (unbyte (b ! 1)) OR
                push_bit 8 (unbyte (b ! 2)) OR unbyte (b ! 3), f'))"

definition read_i64 :: "ifstream \<Rightarrow> (int \<times> ifstream) result" where
  "read_i64 f =
     (let (b, f') = stream_read 8 f in
      if length b < 8 then Inl UninitialisedRead
      else Inr (sint (foldl (\<lambda>u c. push_bit 8 u OR unbyte c) (0 :: 64 word) b), f'))"

section \<open>Round trips\<close>

lemma u32_bytes:
  "push_bit 24 (take_bit 8 (drop_bit 24 v)) OR push_bit 16 (take_bit 8 (drop_bit 16 v)) OR
   push_bit 8 (take_bit 8 (drop_bit 8 v)) OR take_bit 8 v = (v :: 32 word)"
proof (rule bit_word_eqI)
  fix n assume "n < LENGTH(32)"
  then consider "n < 8" | "8 \<le> n" "n < 16" | "16 \<le> n" "n < 24" | "24 \<le> n" "n < 32" by fastforce
  then show "bit (push_bit 24 (take_bit 8 (drop_bit 24 v)) OR push_bit 16 (take_bit 8 (drop_bit 16 v)) OR
      push_bit 8 (take_bit 8 (drop_bit 8 v)) OR take_bit 8 v) n = bit v n"
    by cases (auto simp: bit_simps)
qed

lemma length_write_u32 [simp]: "length (write_u32 v) = 4"
  by (simp add: write_u32_def)

lemma read_write_u32 [simp]:
  "read_u32 \<lparr>remaining = write_u32 v @ r, good_bit = True\<rparr> = Inr (v, \<lparr>remaining = r, good_bit = True\<rparr>)"
  by (simp add: read_u32_def stream_read_def write_u32_def unbyte_byte u32_bytes)

lemma length_write_bytes [simp]: "length (write_bytes n u) = n"
  by (induction n arbitrary: u) auto

lemma fold_write_bytes:
  "n \<le> 8 \<Longrightarrow> foldl (\<lambda>u c. push_bit 8 u OR unbyte c) (0 :: 64 word) (write_bytes n u) = take_bit (8 * n) u"
proof (induction n arbitrary: u)
  case (Suc n)
  have b: "unbyte (byte (u AND 0xFF)) = take_bit 8 u"
  proof -
    have "u AND 0xFF = take_bit 8 u" by (simp add: take_bit_eq_mask mask_eq_exp_minus_1)
    then show ?thesis by (simp add: unbyte_byte)
  qed
  have "push_bit 8 (take_bit (8 * n) (drop_bit 8 u)) OR take_bit 8 u = take_bit (8 * Suc n) u"
    by (rule bit_word_eqI) (auto simp: bit_simps)
  with Suc b show ?case by simp
qed simp

lemma length_write_i64 [simp]: "length (write_i64 v) = 8"
  by (simp add: write_i64_def)

lemma read_write_i64 [simp]:
  assumes "in_int64 v"
  shows "read_i64 \<lparr>remaining = write_i64 v @ r, good_bit = True\<rparr> = Inr (v, \<lparr>remaining = r, good_bit = True\<rparr>)"
proof -
  have "take_bit 64 (word_of_int v :: 64 word) = word_of_int v" by (rule take_bit_word_eq_self) simp
  moreover have "sint (word_of_int v :: 64 word) = v"
    using assms by (simp add: in_int64_def signed_of_int signed_take_bit_int_eq_self)
  ultimately show ?thesis
    by (simp add: read_i64_def stream_read_def write_i64_def fold_write_bytes)
qed

text \<open>A stream that is too short, or has failed, is an uninitialised read.\<close>

lemma read_u32_short: "length (remaining f) < 4 \<or> \<not> good_bit f \<Longrightarrow> read_u32 f = Inl UninitialisedRead"
  by (auto simp: read_u32_def stream_read_def)

lemma read_i64_short: "length (remaining f) < 8 \<or> \<not> good_bit f \<Longrightarrow> read_i64 f = Inl UninitialisedRead"
  by (auto simp: read_i64_def stream_read_def)

lemma stream_read_exact [simp]:
  "n = length b \<Longrightarrow> stream_read n \<lparr>remaining = b @ r, good_bit = True\<rparr> = (b, \<lparr>remaining = r, good_bit = True\<rparr>)"
  by (simp add: stream_read_def)

lemma read_u32_shrinks:
  "read_u32 f = Inr (v, f') \<Longrightarrow> good_bit f' \<and> length (remaining f') + 4 = length (remaining f)"
  by (auto simp: read_u32_def stream_read_def Let_def split: if_splits)

lemma stream_read_shrinks: "stream_read n f = (b, f') \<Longrightarrow> length (remaining f') \<le> length (remaining f)"
  by (auto simp: stream_read_def split: if_splits)

lemma read_i64_shrinks:
  "read_i64 f = Inr (v, f') \<Longrightarrow> good_bit f' \<and> length (remaining f') + 8 = length (remaining f)"
  by (auto simp: read_i64_def stream_read_def Let_def split: if_splits)

end
