(* ===== verification/Rdb.thy ===== *)
theory Rdb
  imports Store_Interface Bytes Framing
begin

text \<open>
  Snapshots (\<open>src/src/persistence/Rdb.cpp\<close>): the byte format, \<open>Rdb::save\<close> and \<open>Rdb::load\<close>. The file
  system is a map from paths to contents; how the operating system answers is an argument. Running
  out of memory is not modelled.
\<close>

section \<open>The format\<close>

definition MAGIC :: string where
  "MAGIC = ''CACHDB''"

definition VERSION :: char where
  "VERSION = CHR 0x01"

definition EOF_MARKER :: "32 word" where
  "EOF_MARKER = 0xFFFFFFFF"

definition rdb_record :: "string \<times> string \<times> int \<Rightarrow> string" where
  "rdb_record r =
     (case r of (key, val, exp) \<Rightarrow>
        write_u32 (of_nat (length key)) @ key @ write_u32 (of_nat (length val)) @ val @ write_i64 exp)"

definition rdb_file :: "(string \<times> string \<times> int) list \<Rightarrow> string" where
  "rdb_file entries = MAGIC @ [VERSION] @ concat (map rdb_record entries) @ write_u32 EOF_MARKER"

definition rdb_bytes :: "store \<Rightarrow> int \<Rightarrow> string" where
  "rdb_bytes s now = rdb_file (store_for_each s now)"

section \<open>Saving\<close>

text \<open>
  The answers of the operating system during one save: whether the temporary file could be opened,
  after how many bytes writing failed if it did, and whether the rename succeeded.
\<close>

record save_io =
  open_ok :: bool
  write_fails_at :: "nat option"
  rename_ok :: bool

type_synonym file_system = "string \<rightharpoonup> string"

definition write_snapshot :: "string \<Rightarrow> save_io \<Rightarrow> string \<Rightarrow> file_system \<Rightarrow> bool \<times> file_system" where
  "write_snapshot path io content fs =
     (let tmp_path = path @ ''.tmp'' in
      if \<not> open_ok io then (False, fs)
      else case write_fails_at io of
             Some n \<Rightarrow> (False, fs(tmp_path \<mapsto> take n content))
           | None \<Rightarrow>
               let fs1 = fs(tmp_path \<mapsto> content) in
               if \<not> rename_ok io then (False, fs1)
               else (True, fs1(path := fs1 tmp_path, tmp_path := None)))"

text \<open>
  A save with no other thread at work on the store. What a save writes while others do is the subject
  of theory \<open>Snapshot_Concurrency\<close>.
\<close>

definition rdb_save :: "string \<Rightarrow> save_io \<Rightarrow> store \<Rightarrow> int \<Rightarrow> file_system \<Rightarrow> bool \<times> file_system" where
  "rdb_save path io s now fs = write_snapshot path io (rdb_bytes s now) fs"

section \<open>Loading\<close>

text \<open>
  One turn of the loop up to the expiry test: \<open>None\<close> is the end marker. A short key or value is
  padded with the NUL bytes its string was created with.
\<close>

definition read_string :: "nat \<Rightarrow> ifstream \<Rightarrow> string \<times> ifstream" where
  "read_string n f =
     (let (b, f') = stream_read n f in (b @ replicate (n - length b) (CHR 0x00), f'))"

definition next_record :: "ifstream \<Rightarrow> ((string \<times> string \<times> int) option \<times> ifstream) result" where
  "next_record f =
     rbind (read_u32 f) (\<lambda>(klen, f1).
       if klen = EOF_MARKER then Inr (None, f1)
       else
         let (key, f2) = read_string (unat klen) f1 in
         rbind (read_u32 f2) (\<lambda>(vlen, f3).
         let (val, f4) = read_string (unat vlen) f3 in
         rbind (read_i64 f4) (\<lambda>(exp, f5). Inr (Some (key, val, exp), f5))))"

lemma read_string_shrinks: "read_string n f = (b, f') \<Longrightarrow> length (remaining f') \<le> length (remaining f)"
  using stream_read_shrinks by (auto simp: read_string_def Let_def split: prod.splits)

lemma next_record_shrinks:
  assumes "next_record f = Inr (r, f')"
  shows "length (remaining f') < length (remaining f)"
proof -
  from assms obtain klen f1 where 1: "read_u32 f = Inr (klen, f1)"
    by (auto simp: next_record_def)
  show ?thesis
  proof (cases "klen = EOF_MARKER")
    case True
    with assms 1 read_u32_shrinks [OF 1] show ?thesis by (auto simp: next_record_def)
  next
    case False
    obtain key f2 where 2: "read_string (unat klen) f1 = (key, f2)" by (cases "read_string (unat klen) f1")
    from assms 1 2 False obtain vlen f3 where 3: "read_u32 f2 = Inr (vlen, f3)"
      by (auto simp: next_record_def)
    obtain val f4 where 4: "read_string (unat vlen) f3 = (val, f4)" by (cases "read_string (unat vlen) f3")
    from assms 1 2 3 4 False obtain exp where 5: "read_i64 f4 = Inr (exp, f')"
      by (auto simp: next_record_def)
    show ?thesis
      using read_u32_shrinks [OF 1] read_string_shrinks [OF 2] read_u32_shrinks [OF 3]
        read_string_shrinks [OF 4] read_i64_shrinks [OF 5] by linarith
  qed
qed

function load_loop ::
  "externals \<Rightarrow> (nat \<Rightarrow> int) \<Rightarrow> int \<Rightarrow> ifstream \<Rightarrow> store \<Rightarrow> nat \<Rightarrow> (nat \<times> store) result" where
  "load_loop e clk now f s count =
     (if \<not> good_bit f then Inr (count, s)
      else rbind (next_record f) (\<lambda>(r, f').
        case r of
          None \<Rightarrow> Inr (count, s)
        | Some (key, val, exp) \<Rightarrow>
            if exp > 0 \<and> exp \<le> now then load_loop e clk now f' s count
            else rbind (if exp > 0 then sub64 exp now else Inr (-1)) (\<lambda>ttl_ms.
                 rbind (store_set e s key val ttl_ms (clk count)) (\<lambda>s'.
                   load_loop e clk now f' s' (count + 1)))))"
  by pat_completeness auto
termination
  by (relation "measure (\<lambda>(e, clk, now, f, s, count). length (remaining f))")
    (auto dest!: next_record_shrinks)

declare load_loop.simps [simp del]

text \<open>
  \<open>clk n\<close> is the clock reading of the n-th \<open>set\<close>. Comparing the magic bytes of a file that has fewer
  than six bytes reads the uninitialised rest of the array.
\<close>

definition rdb_load ::
  "externals \<Rightarrow> (nat \<Rightarrow> int) \<Rightarrow> int \<Rightarrow> string \<Rightarrow> file_system \<Rightarrow> store \<Rightarrow> (nat \<times> store) result" where
  "rdb_load e clk now path fs s =
     (case fs path of
        None \<Rightarrow> Inr (0, s)
      | Some content \<Rightarrow>
          let (magic, f1) = stream_read 6 \<lparr>remaining = content, good_bit = True\<rparr> in
          if length magic < 6 then Inl UninitialisedRead
          else if magic \<noteq> MAGIC then Inr (0, s)
          else let (ver, f2) = stream_read 1 f1 in load_loop e clk now f2 s 0)"

end
