(* ===== verification/Rdb_Correct.thy ===== *)
theory Rdb_Correct
  imports Rdb
begin

text \<open>
  Correctness of snapshots: a record reads back as it was written and a truncated one is never
  accepted, so the records form a self-delimiting code; saving replaces the snapshot atomically;
  and loading a saved snapshot restores every entry that has not expired meanwhile.
\<close>

section \<open>Records\<close>

definition good_record :: "string \<times> string \<times> int \<Rightarrow> bool" where
  "good_record r \<longleftrightarrow>
     (case r of (k, v, x) \<Rightarrow> length k < 2 ^ 32 - 1 \<and> length v < 2 ^ 32 \<and> in_int64 x)"

lemma unat_length32: "length s < 2 ^ 32 \<Longrightarrow> unat (of_nat (length s) :: 32 word) = length s"
  by (simp add: unsigned_of_nat take_bit_nat_eq_self)

lemma length_not_EOF: "length s < 2 ^ 32 - 1 \<Longrightarrow> (of_nat (length s) :: 32 word) \<noteq> EOF_MARKER"
proof
  assume l: "length s < 2 ^ 32 - 1" and "(of_nat (length s) :: 32 word) = EOF_MARKER"
  then have "unat (of_nat (length s) :: 32 word) = unat EOF_MARKER" by simp
  with l show False by (simp add: unsigned_of_nat take_bit_nat_eq_self EOF_MARKER_def)
qed

lemma read_string_exact [simp]:
  "n = length b \<Longrightarrow> read_string n \<lparr>remaining = b @ r, good_bit = True\<rparr> = (b, \<lparr>remaining = r, good_bit = True\<rparr>)"
  by (simp add: read_string_def)

lemma read_string_short:
  assumes "length (remaining f) < n"
  shows "\<exists>b f'. read_string n f = (b, f') \<and> read_u32 f' = Inl UninitialisedRead \<and> read_i64 f' = Inl UninitialisedRead"
  using assms by (auto simp: read_string_def stream_read_def Let_def read_u32_short read_i64_short)

lemma next_record_rdb_record:
  assumes "good_record r"
  shows "next_record \<lparr>remaining = rdb_record r @ rest, good_bit = True\<rparr> =
           Inr (Some r, \<lparr>remaining = rest, good_bit = True\<rparr>)"
proof -
  obtain k v x where r: "r = (k, v, x)" by (cases r)
  with assms have "length k < 2 ^ 32" "length v < 2 ^ 32" "length k < 2 ^ 32 - 1" "in_int64 x"
    by (simp_all add: good_record_def)
  then show ?thesis
    by (simp add: next_record_def rdb_record_def r unat_length32 length_not_EOF)
qed

lemma length_rdb_record: "length (rdb_record (k, v, x)) = length k + length v + 16"
  by (simp add: rdb_record_def)

lemma next_record_cut:
  assumes "good_record r" and "m < length (rdb_record r)"
  shows "next_record \<lparr>remaining = take m (rdb_record r), good_bit = True\<rparr> = Inl UninitialisedRead"
proof -
  obtain k v x where r: "r = (k, v, x)" by (cases r)
  let ?k = "write_u32 (of_nat (length k))" and ?v = "write_u32 (of_nat (length v))"
  from assms(1) r have g: "length k < 2 ^ 32" "length v < 2 ^ 32" "length k < 2 ^ 32 - 1"
    by (simp_all add: good_record_def)
  note len = unat_length32 [OF g(1)] unat_length32 [OF g(2)] length_not_EOF [OF g(3)]
  from assms(2) r have m: "m < length k + length v + 16" by (simp add: length_rdb_record)
  consider "m < 4" | "4 \<le> m" "m < 4 + length k" | "4 + length k \<le> m" "m < 8 + length k"
    | "8 + length k \<le> m" "m < 8 + length k + length v" | "8 + length k + length v \<le> m" by linarith
  then show ?thesis
  proof cases
    case 1
    then show ?thesis by (simp add: next_record_def read_u32_short)
  next
    case 2
    then have "take m (rdb_record r) = ?k @ take (m - 4) k" by (simp add: rdb_record_def r)
    moreover have "m - 4 < length k" using 2 by arith
    moreover from this obtain b f' where "read_string (length k) \<lparr>remaining = take (m - 4) k, good_bit = True\<rparr> = (b, f')"
      "read_u32 f' = Inl UninitialisedRead"
      using read_string_short [of "\<lparr>remaining = take (m - 4) k, good_bit = True\<rparr>" "length k"] by auto
    ultimately show ?thesis by (simp add: next_record_def len)
  next
    case 3
    then have "take m (rdb_record r) = ?k @ k @ take (m - 4 - length k) ?v" by (simp add: rdb_record_def r)
    with 3 show ?thesis by (simp add: next_record_def len read_u32_short)
  next
    case 4
    let ?t = "take (m - 8 - length k) v"
    from 4 have "take m (rdb_record r) = ?k @ k @ ?v @ ?t" by (simp add: rdb_record_def r)
    moreover have "m - 8 - length k < length v" using 4 by arith
    moreover from this obtain b f' where "read_string (length v) \<lparr>remaining = ?t, good_bit = True\<rparr> = (b, f')"
      "read_i64 f' = Inl UninitialisedRead"
      using read_string_short [of "\<lparr>remaining = ?t, good_bit = True\<rparr>" "length v"] by auto
    ultimately show ?thesis by (simp add: next_record_def len)
  next
    case 5
    let ?t = "take (m - 8 - length k - length v) (write_i64 x)"
    from 5 have "take m (rdb_record r) = ?k @ k @ ?v @ v @ ?t" by (simp add: rdb_record_def r)
    with 5 m show ?thesis by (simp add: next_record_def len read_i64_short)
  qed
qed

text \<open>The records of a snapshot are a self-delimiting code.\<close>

definition rdb_decode :: "string \<Rightarrow> ((string \<times> string \<times> int) \<times> nat) option" where
  "rdb_decode b =
     (case next_record \<lparr>remaining = b, good_bit = True\<rparr> of
        Inr (Some r, f) \<Rightarrow> Some (r, length b - length (remaining f))
      | _ \<Rightarrow> None)"

interpretation rdb: framed_codec "\<lambda>_ :: unit. True" "\<lambda>_. rdb_record" "\<lambda>_. rdb_decode" "\<lambda>_. good_record" "2 ^ 63"
proof
  fix r rest
  assume "good_record r"
  then show "rdb_decode (rdb_record r @ rest) = Some (r, length (rdb_record r))"
    by (simp add: rdb_decode_def next_record_rdb_record)
next
  fix r m
  assume "good_record r" "m < length (rdb_record r)"
  then show "rdb_decode (take m (rdb_record r)) = None" by (simp add: rdb_decode_def next_record_cut)
next
  fix r :: "string \<times> string \<times> int"
  have "0 < length (rdb_record r)" by (cases r) (simp add: length_rdb_record)
  then show "rdb_record r \<noteq> []" by auto
qed

section \<open>Loading\<close>

fun load_records ::
  "externals \<Rightarrow> (nat \<Rightarrow> int) \<Rightarrow> int \<Rightarrow> (string \<times> string \<times> int) list \<Rightarrow> store \<Rightarrow> nat \<Rightarrow> (nat \<times> store) result" where
  "load_records e clk now [] s count = Inr (count, s)"
| "load_records e clk now ((key, val, exp) # rs) s count =
     (if exp > 0 \<and> exp \<le> now then load_records e clk now rs s count
      else rbind (if exp > 0 then sub64 exp now else Inr (-1)) (\<lambda>ttl_ms.
           rbind (store_set e s key val ttl_ms (clk count)) (\<lambda>s'. load_records e clk now rs s' (count + 1))))"

lemma load_loop_records:
  assumes "\<forall>r\<in>set rs. good_record r"
  shows "load_loop e clk now \<lparr>remaining = concat (map rdb_record rs) @ rest, good_bit = True\<rparr> s count =
           rbind (load_records e clk now rs s count) (\<lambda>(count', s').
             load_loop e clk now \<lparr>remaining = rest, good_bit = True\<rparr> s' count')"
  using assms
proof (induction rs arbitrary: s count)
  case (Cons r rs)
  obtain k v x where r: "r = (k, v, x)" by (cases r)
  have n: "next_record \<lparr>remaining = rdb_record r @ concat (map rdb_record rs) @ rest, good_bit = True\<rparr> =
      Inr (Some r, \<lparr>remaining = concat (map rdb_record rs) @ rest, good_bit = True\<rparr>)"
    using Cons.prems by (intro next_record_rdb_record) simp
  have IH: "load_loop e clk now \<lparr>remaining = concat (map rdb_record rs) @ rest, good_bit = True\<rparr> s' c =
      rbind (load_records e clk now rs s' c) (\<lambda>(count', s').
        load_loop e clk now \<lparr>remaining = rest, good_bit = True\<rparr> s' count')" for s' c
    using Cons by simp
  have assoc: "rbind (rbind a f) g = rbind a (\<lambda>x. rbind (f x) g)" for a :: "'x result" and f :: "'x \<Rightarrow> 'y result"
    and g :: "'y \<Rightarrow> 'z result" by (cases a) simp_all
  show ?case
    unfolding list.map concat.simps append_assoc
    by (subst load_loop.simps) (simp add: n [unfolded r] IH r assoc)
qed simp

lemma load_loop_end: "load_loop e clk now \<lparr>remaining = write_u32 EOF_MARKER @ r, good_bit = True\<rparr> s c = Inr (c, s)"
  by (subst load_loop.simps) (simp add: next_record_def)

lemma load_loop_short:
  "length r < 4 \<Longrightarrow> load_loop e clk now \<lparr>remaining = r, good_bit = True\<rparr> s c = Inl UninitialisedRead"
  by (subst load_loop.simps) (simp add: next_record_def read_u32_short)

lemma load_loop_cut:
  assumes "good_record r" and "i < length (rdb_record r)"
  shows "load_loop e clk now \<lparr>remaining = take i (rdb_record r), good_bit = True\<rparr> s c = Inl UninitialisedRead"
  by (subst load_loop.simps) (simp add: next_record_cut [OF assms])

lemma load_records_total:
  assumes "store_ok e s" and "0 \<le> now" and "\<forall>i. now \<le> clk i \<and> clk i \<le> now + d"
    and "\<forall>(k, v, x)\<in>set rs. x + d < 2 ^ 63"
  shows "\<exists>r. load_records e clk now rs s count = Inr r"
  using assms(1,4)
proof (induction rs arbitrary: s count)
  case (Cons r rs)
  obtain k v x where r: "r = (k, v, x)" by (cases r)
  have x: "x + d < 2 ^ 63" using Cons.prems(2) by (simp add: r)
  have ci: "now \<le> clk count" "clk count \<le> now + d" using assms(3) by simp_all
  define ttl where "ttl = (if 0 < x then x - now else -1)"
  have sub: "(if 0 < x then sub64 x now else Inr (-1)) = Inr ttl" if "\<not> (0 < x \<and> x \<le> now)"
    using assms(2) x ci that by (auto simp: ttl_def sub64_def in_int64_def)
  have "0 < ttl \<longrightarrow> in_int64 (clk count + ttl)" using assms(2) ci x by (auto simp: ttl_def in_int64_def)
  with Cons.prems(1) obtain s1 where "store_set e s k v ttl (clk count) = Inr s1" "store_ok e s1"
    by (rule store_set_ok)
  with Cons sub show ?case by (cases "0 < x \<and> x \<le> now") (simp_all add: r)
qed simp

text \<open>What a load makes of one saved entry: nothing if it expired, else its value and its deadline, late by
  at most the time \<open>d\<close> the load takes.\<close>

definition restored :: "int \<Rightarrow> int \<Rightarrow> string \<times> int \<Rightarrow> (string \<times> int) option \<Rightarrow> bool" where
  "restored now d r w =
     (case r of (v, x) \<Rightarrow>
        if 0 < x \<and> x \<le> now then w = None
        else if 0 < x then \<exists>y. w = Some (v, y) \<and> x \<le> y \<and> y \<le> x + d
        else w = Some (v, -1))"

lemma load_records_ok:
  assumes "store_ok e s" and "distinct (map fst rs)" and "store_size s + length rs \<le> max_keys s"
    and "\<forall>k\<in>fst ` set rs. store_map e s k = None"
    and "0 \<le> now" and "\<forall>i. now \<le> clk i \<and> clk i \<le> now + d" and "\<forall>(k, v, x)\<in>set rs. x + d < 2 ^ 63"
  shows "\<exists>count' s'. load_records e clk now rs s count = Inr (count', s') \<and> store_ok e s' \<and>
           (\<forall>k. case map_of rs k of None \<Rightarrow> store_map e s' k = store_map e s k
                | Some r \<Rightarrow> restored now d r (store_map e s' k))"
  using assms(1-4,7)
proof (induction rs arbitrary: s count)
  case (Cons r rs)
  obtain k v x where r: "r = (k, v, x)" by (cases r)
  have k: "map_of rs k = None" "store_map e s k = None"
    using Cons.prems(2,4) by (auto simp: r map_of_eq_None_iff)
  show ?case
  proof (cases "0 < x \<and> x \<le> now")
    case True
    from Cons.IH [OF Cons.prems(1), of count] Cons.prems(2-5) obtain c s' where
      "load_records e clk now rs s count = Inr (c, s')" "store_ok e s'"
      "\<forall>k. case map_of rs k of None \<Rightarrow> store_map e s' k = store_map e s k
           | Some r \<Rightarrow> restored now d r (store_map e s' k)" by auto
    moreover from this(3) k have "store_map e s' k = None" by (auto dest: spec [of _ k])
    ultimately show ?thesis using True by (intro exI [of _ c] exI [of _ s']) (auto simp: r restored_def)
  next
    case False
    define ttl where "ttl = (if 0 < x then x - now else -1)"
    have x: "x + d < 2 ^ 63" using Cons.prems(5) by (simp add: r)
    have ci: "now \<le> clk count" "clk count \<le> now + d" using assms(6) by simp_all
    then have "0 \<le> d" by linarith
    have sub: "(if 0 < x then sub64 x now else Inr (-1)) = Inr ttl"
      using False assms(5) x \<open>0 \<le> d\<close> by (auto simp: ttl_def sub64_def in_int64_def)
    have range: "0 < ttl \<longrightarrow> in_int64 (clk count + ttl)"
      using assms(5) ci x by (auto simp: ttl_def in_int64_def)
    have "store_size s < max_keys s" using Cons.prems(3) by simp
    with Cons.prems(1) range obtain s1 where s1: "store_set e s k v ttl (clk count) = Inr s1" "store_ok e s1"
      "max_keys s1 = max_keys s" "store_map e s1 = (store_map e s)(k \<mapsto> (v, deadline ttl (clk count)))"
      "store_size s1 \<le> Suc (store_size s)"
      by (rule store_set_fresh)
    have "\<forall>k\<in>fst ` set rs. store_map e s1 k = None" using Cons.prems(2,4) by (auto simp: r s1(4))
    from Cons.IH [OF s1(2) _ _ this, of "Suc count"] Cons.prems(2,3,5) s1(3,5) obtain c s' where
      s': "load_records e clk now rs s1 (Suc count) = Inr (c, s')" "store_ok e s'"
      "\<forall>k. case map_of rs k of None \<Rightarrow> store_map e s' k = store_map e s1 k
           | Some r \<Rightarrow> restored now d r (store_map e s' k)" by (auto simp: r)
    have "store_map e s' k = Some (v, deadline ttl (clk count))"
      using s'(3) k(1) s1(4) by (auto dest: spec [of _ k])
    then have "restored now d (v, x) (store_map e s' k)"
      using False ci by (auto simp: restored_def deadline_def ttl_def)
    moreover have "case map_of rs k' of None \<Rightarrow> store_map e s' k' = store_map e s k'
        | Some r \<Rightarrow> restored now d r (store_map e s' k')" if "k' \<noteq> k" for k'
      using spec [OF s'(3), of k'] that by (cases "map_of rs k'") (simp_all add: s1(4))
    moreover have "load_records e clk now (r # rs) s count = Inr (c, s')"
      using s'(1) s1(1) sub False by (auto simp: r)
    ultimately show ?thesis using s'(2) by (intro exI [of _ c] exI [of _ s']) (simp add: r)
  qed
qed simp

lemma load_snapshot:
  assumes "fs path = Some (rdb_file rs)" and "\<forall>r\<in>set rs. good_record r"
  shows "rdb_load e clk now path fs s0 = load_records e clk now rs s0 0"
proof -
  have "rbind a (\<lambda>(c, s'). Inr (c, s')) = a" for a :: "(nat \<times> store) result" by (cases a) auto
  then show ?thesis
    using assms(1) load_loop_records [OF assms(2), of e clk now "write_u32 EOF_MARKER" s0 0]
      load_loop_end [of e clk now "[]"]
    by (simp add: rdb_load_def rdb_file_def stream_read_def MAGIC_def)
qed

lemma for_each_map_of:
  assumes "store_ok e s"
  shows "map_of (store_for_each s t) k =
           (case store_map e s k of None \<Rightarrow> None | Some (v, x) \<Rightarrow> if expired_at x t then None else Some (v, x))"
proof (cases "map_of (store_for_each s t) k")
  case None
  then have "(k, v, x) \<notin> set (store_for_each s t)" for v x by (force simp: map_of_eq_None_iff)
  then have "store_map e s k = Some (v, x) \<Longrightarrow> expired_at x t" for v x
    using store_for_each_set(1) [OF assms] by blast
  with None show ?thesis by (auto split: option.splits)
next
  case (Some r)
  obtain v x where r: "r = (v, x)" by (cases r)
  with Some have "(k, v, x) \<in> set (store_for_each s t)" by (simp add: map_of_SomeD)
  with Some r show ?thesis using store_for_each_set(1) [OF assms] by auto
qed

lemma length_for_each:
  assumes "store_ok e s"
  shows "length (store_for_each s t) \<le> store_size s"
proof -
  have "length (for_each_shared sh t) \<le> length (smap sh)" for sh by (simp add: for_each_shared_def)
  then have "sum_list (map (\<lambda>sh. length (for_each_shared sh t)) shs) \<le> sum_list (map (\<lambda>sh. length (smap sh)) shs)"
    for shs by (intro sum_list_mono) auto
  then show ?thesis by (simp add: store_for_each_def length_concat store_size_sum comp_def)
qed

lemma max_keys_init [simp]: "max_keys (store_init n) = n"
  by (simp add: store_init_def)

lemma store_size_init [simp]: "store_size (store_init n) = 0"
  by (simp add: store_size_card [OF store_ok_init, where e = sample_externals])

section \<open>Properties\<close>

text \<open>Loading the bytes of a snapshot into a fresh store of sufficient capacity.\<close>

definition restores :: "externals \<Rightarrow> int \<Rightarrow> int \<Rightarrow> int \<Rightarrow> store \<Rightarrow> store \<Rightarrow> bool" where
  "restores e t now d s s' \<longleftrightarrow>
     (\<forall>k. case store_map e s k of
            None \<Rightarrow> store_map e s' k = None
          | Some (v, x) \<Rightarrow>
              if expired_at x t then store_map e s' k = None
              else restored now d (v, x) (store_map e s' k))"

lemma load_file:
  assumes "distinct (map fst rs)"
    and "\<forall>(k, v, x)\<in>set rs. length k < 2 ^ 32 - 1 \<and> length v < 2 ^ 32 \<and> in_int64 x \<and> x + d < 2 ^ 63"
    and "length rs \<le> n" and "0 \<le> now" and "\<forall>i. now \<le> clk i \<and> clk i \<le> now + d"
    and "fs path = Some (rdb_file rs)"
  obtains count s' where "rdb_load e clk now path fs (store_init n) = Inr (count, s')" "store_ok e s'"
    "\<forall>k. case map_of rs k of None \<Rightarrow> store_map e s' k = None | Some r \<Rightarrow> restored now d r (store_map e s' k)"
proof -
  have good: "\<forall>r\<in>set rs. good_record r" using assms(2) by (auto simp: good_record_def)
  have "\<exists>count' s'. load_records e clk now rs (store_init n) 0 = Inr (count', s') \<and> store_ok e s' \<and>
      (\<forall>k. case map_of rs k of None \<Rightarrow> store_map e s' k = store_map e (store_init n) k
           | Some r \<Rightarrow> restored now d r (store_map e s' k))"
    using assms(1-5) by (intro load_records_ok) auto
  then obtain count s' where "load_records e clk now rs (store_init n) 0 = Inr (count, s')" "store_ok e s'"
    "\<forall>k. case map_of rs k of None \<Rightarrow> store_map e s' k = None | Some r \<Rightarrow> restored now d r (store_map e s' k)"
    unfolding store_map_init by blast
  with that [of count s'] load_snapshot [of fs path rs e clk now "store_init n"] assms(6) good show ?thesis by simp
qed

lemma rdb_load_restores:
  assumes "store_ok e s"
    and "\<forall>(k, v, x)\<in>set (store_for_each s t). length k < 2 ^ 32 - 1 \<and> length v < 2 ^ 32 \<and> in_int64 x \<and> x + d < 2 ^ 63"
    and "store_size s \<le> n" and "0 \<le> now" and "\<forall>i. now \<le> clk i \<and> clk i \<le> now + d"
    and "fs path = Some (rdb_bytes s t)"
  obtains count s' where "rdb_load e clk now path fs (store_init n) = Inr (count, s')" "store_ok e s'" "restores e t now d s s'"
proof -
  have len: "length (store_for_each s t) \<le> n" using length_for_each [OF assms(1), of t] assms(3) by simp
  obtain count s' where l: "rdb_load e clk now path fs (store_init n) = Inr (count, s')" "store_ok e s'"
    "\<forall>k. case map_of (store_for_each s t) k of None \<Rightarrow> store_map e s' k = None
          | Some r \<Rightarrow> restored now d r (store_map e s' k)"
    using store_for_each_set(2) [OF assms(1)] assms(2) len assms(4-6) unfolding rdb_bytes_def
    by (rule load_file [where e = e])
  have "case store_map e s k of None \<Rightarrow> store_map e s' k = None
      | Some (v, x) \<Rightarrow> if expired_at x t then store_map e s' k = None
                       else restored now d (v, x) (store_map e s' k)" for k
    using spec [OF l(3), of k] by (auto simp: for_each_map_of [OF assms(1)] split: option.splits if_splits)
  then have "restores e t now d s s'" by (simp add: restores_def)
  with that [of count s'] l(1,2) show ?thesis by simp
qed

lemma rdb_save_bytes:
  assumes "open_ok io" and "write_fails_at io = None" and "rename_ok io"
  obtains fs' where "rdb_save path io s t fs = (True, fs')" "fs' path = Some (rdb_bytes s t)"
  using assms by (simp add: rdb_save_def write_snapshot_def Let_def)

text \<open>
  C6: Snapshot round trip. Saving a store whose keys and values fit the 32-bit length fields and
  loading the file into a fresh store of sufficient capacity restores every entry: those that were
  expired when saving or are expired when loading are gone, the others come back with their value
  and with their deadline, late by at most the time the load takes; entries without a deadline stay
  without one, and no other key appears.
\<close>

theorem rdb_round_trip:
  assumes "store_ok e s" and "open_ok io" and "write_fails_at io = None" and "rename_ok io"
    and "\<forall>(k, v, x)\<in>set (store_for_each s t). length k < 2 ^ 32 - 1 \<and> length v < 2 ^ 32 \<and> in_int64 x \<and> x + d < 2 ^ 63"
    and "store_size s \<le> n" and "0 \<le> now" and "\<forall>i. now \<le> clk i \<and> clk i \<le> now + d"
  shows "\<exists>fs' count s'. rdb_save path io s t fs = (True, fs') \<and>
           rdb_load e clk now path fs' (store_init n) = Inr (count, s') \<and> store_ok e s' \<and>
           (\<forall>k. case store_map e s k of
                  None \<Rightarrow> store_map e s' k = None
                | Some (v, x) \<Rightarrow>
                    if expired_at x t then store_map e s' k = None
                    else restored now d (v, x) (store_map e s' k))"
proof -
  obtain fs' where fs': "rdb_save path io s t fs = (True, fs')" "fs' path = Some (rdb_bytes s t)"
    using assms(2-4) by (rule rdb_save_bytes)
  obtain count s' where "rdb_load e clk now path fs' (store_init n) = Inr (count, s')" "store_ok e s'" "restores e t now d s s'"
    using assms(1,5-8) fs'(2) by (rule rdb_load_restores)
  with fs'(1) show ?thesis unfolding restores_def by blast
qed

lemma full_store_entries: "store_for_each full_store 0 = [(''a'', ''1'', -1), (''bb'', ''2'', 1050)]"
  by code_simp

theorem rdb_round_trip_witness:
  "\<exists>fs' count s' y. rdb_save ''dump'' \<lparr>open_ok = True, write_fails_at = None, rename_ok = True\<rparr> full_store 0 Map.empty = (True, fs') \<and>
     rdb_load sample_externals (\<lambda>_. 105) 100 ''dump'' fs' (store_init 2) = Inr (count, s') \<and>
     store_map sample_externals s' ''a'' = Some (''1'', -1) \<and>
     store_map sample_externals s' ''bb'' = Some (''2'', y) \<and> 1050 \<le> y \<and> y \<le> 1055"
proof -
  let ?io = "\<lparr>open_ok = True, write_fails_at = None, rename_ok = True\<rparr>"
  have "\<forall>(k, v, x)\<in>set (store_for_each full_store 0). length k < 2 ^ 32 - 1 \<and> length v < 2 ^ 32 \<and>
      in_int64 x \<and> x + 5 < 2 ^ 63" by (simp add: full_store_entries in_int64_def)
  from rdb_round_trip [OF store_ok_full _ _ _ this, of ?io 2 100 "\<lambda>_. 105" "''dump''" Map.empty]
  obtain fs' count s' where r: "rdb_save ''dump'' ?io full_store 0 Map.empty = (True, fs')"
    "rdb_load sample_externals (\<lambda>_. 105) 100 ''dump'' fs' (store_init 2) = Inr (count, s')"
    "\<And>k. case store_map sample_externals full_store k of
        None \<Rightarrow> store_map sample_externals s' k = None
      | Some (v, x) \<Rightarrow> if expired_at x 0 then store_map sample_externals s' k = None
          else restored 100 5 (v, x) (store_map sample_externals s' k)"
    by (auto simp: full_store_eval)
  from r(3) [of "''a''"] r(3) [of "''bb''"] r(1,2) show ?thesis
    by (auto simp: full_store_eval expired_at_def restored_def)
qed

text \<open>
  C26: Atomic replacement. If a save fails at any point, the previous snapshot is still in place
  byte for byte; if it reports success, the file is the complete snapshot and the temporary file is
  gone. Files of other names are never touched.
\<close>

theorem rdb_save_atomic:
  "case rdb_save path io s t fs of (success, fs') \<Rightarrow>
     fs' path = (if success then Some (rdb_bytes s t) else fs path) \<and>
     (success = (fs' (path @ ''.tmp'') = None \<and> open_ok io \<and> write_fails_at io = None \<and> rename_ok io)) \<and>
     (\<forall>p. p \<noteq> path \<and> p \<noteq> path @ ''.tmp'' \<longrightarrow> fs' p = fs p)"
  by (auto simp: rdb_save_def write_snapshot_def Let_def split: option.splits)

theorem rdb_save_atomic_witness:
  "\<exists>fs'. rdb_save ''dump'' \<lparr>open_ok = True, write_fails_at = Some 9, rename_ok = True\<rparr> full_store 0
           [''dump'' \<mapsto> ''old'', ''log'' \<mapsto> ''x''] = (False, fs') \<and>
        fs' ''dump'' = Some ''old'' \<and> fs' ''log'' = Some ''x''"
  using rdb_save_atomic [where path = "''dump''" and s = full_store and t = 0
      and io = "\<lparr>open_ok = True, write_fails_at = Some 9, rename_ok = True\<rparr>"
      and fs = "[''dump'' \<mapsto> ''old'', ''log'' \<mapsto> ''x'']"]
  by (auto split: prod.splits)

text \<open>A prefix of the records and the end marker: some complete records, then a piece that cannot be read.\<close>

lemma load_loop_torn:
  assumes "\<forall>r\<in>set rs. good_record r" and "n < length (concat (map rdb_record rs)) + 4"
  obtains k j where "k \<le> length rs"
    "take n (concat (map rdb_record rs) @ write_u32 EOF_MARKER) = concat (map rdb_record (take k rs)) @ j"
    "\<forall>s c. load_loop e clk now \<lparr>remaining = j, good_bit = True\<rparr> s c = Inl UninitialisedRead"
proof (cases "n < length (concat (map rdb_record rs))")
  case True
  with cut_frames [of rs n rdb_record] obtain k j where
    c: "k \<le> length rs" "take n (concat (map rdb_record rs)) = concat (map rdb_record (take k rs)) @ j"
    "j = [] \<or> k < length rs \<and> (\<exists>i < length (rdb_record (rs ! k)). j = take i (rdb_record (rs ! k)))"
    by auto
  from c(3) have "load_loop e clk now \<lparr>remaining = j, good_bit = True\<rparr> s c' = Inl UninitialisedRead" for s c'
    using assms(1) by (auto simp: load_loop_short load_loop_cut)
  with c(1,2) True that [of k j] show ?thesis by simp
next
  case False
  with assms(2) that [of "length rs" "take (n - length (concat (map rdb_record rs))) (write_u32 EOF_MARKER)"]
  show ?thesis by (simp add: load_loop_short)
qed

text \<open>
  C40: Truncated snapshots. If a snapshot file lost its tail, anywhere but directly after the magic
  bytes, loading it reads bytes of a local array that were never written: undefined behaviour
  instead of an error.
\<close>

theorem rdb_truncated_uninitialised:
  assumes "\<forall>(k, v, x)\<in>set (store_for_each s t). length k < 2 ^ 32 - 1 \<and> length v < 2 ^ 32 \<and> in_int64 x \<and> x + d < 2 ^ 63"
    and "fs path = Some (take m (rdb_bytes s t))" and "m < length (rdb_bytes s t)" and "m \<noteq> 6"
    and "store_ok e s0" and "0 \<le> now" and "\<forall>i. now \<le> clk i \<and> clk i \<le> now + d"
  shows "rdb_load e clk now path fs s0 = Inl UninitialisedRead"
proof (cases "m < 6")
  case True
  with assms(2) show ?thesis by (simp add: rdb_load_def rdb_bytes_def rdb_file_def stream_read_def MAGIC_def)
next
  case False
  let ?rs = "store_for_each s t"
  define b where "b = take (m - 7) (concat (map rdb_record ?rs) @ write_u32 EOF_MARKER)"
  have good: "\<forall>r\<in>set ?rs. good_record r" using assms(1) by (auto simp: good_record_def)
  have "take m (rdb_bytes s t) = MAGIC @ [VERSION] @ b"
    using False assms(4) by (simp add: rdb_bytes_def rdb_file_def b_def MAGIC_def take_Cons' numeral_eq_Suc)
  then have load: "rdb_load e clk now path fs s0 = load_loop e clk now \<lparr>remaining = b, good_bit = True\<rparr> s0 0"
    using assms(2) by (simp add: rdb_load_def stream_read_def MAGIC_def)
  have "m - 7 < length (concat (map rdb_record ?rs)) + 4"
    using assms(3,4) False by (simp add: rdb_bytes_def rdb_file_def MAGIC_def)
  from good this obtain k j where kj: "k \<le> length ?rs" "b = concat (map rdb_record (take k ?rs)) @ j"
    "\<forall>s c. load_loop e clk now \<lparr>remaining = j, good_bit = True\<rparr> s c = Inl UninitialisedRead"
    unfolding b_def by (rule load_loop_torn [where e = e and clk = clk and now = now])
  have "\<forall>(k, v, x)\<in>set (take k ?rs). x + d < 2 ^ 63" using assms(1) by (auto dest: in_set_takeD)
  then obtain r where "load_records e clk now (take k ?rs) s0 0 = Inr r"
    using load_records_total [OF assms(5-7)] by blast
  moreover have "\<forall>r\<in>set (take k ?rs). good_record r" using good by (auto dest: in_set_takeD)
  ultimately show ?thesis
    using load kj(2,3) load_loop_records [of "take k ?rs" e clk now j s0 0] by (cases r) simp
qed

theorem rdb_truncated_uninitialised_witness:
  "rdb_load sample_externals (\<lambda>_. 105) 100 ''dump'' [''dump'' \<mapsto> take 20 (rdb_bytes full_store 0)] (store_init 2) =
     Inl UninitialisedRead"
proof (rule rdb_truncated_uninitialised)
  show "\<forall>(k, v, x)\<in>set (store_for_each full_store 0). length k < 2 ^ 32 - 1 \<and> length v < 2 ^ 32 \<and>
      in_int64 x \<and> x + 5 < 2 ^ 63" by (simp add: full_store_entries in_int64_def)
  show "20 < length (rdb_bytes full_store 0)"
    by (simp add: rdb_bytes_def rdb_file_def full_store_entries length_rdb_record)
qed simp_all

end
