(* ===== verification/Aof.thy ===== *)
theory Aof
  imports Commands_Correct Rdb_Correct
begin

text \<open>
  The append-only log (\<open>src/src/persistence/Aof.cpp\<close>): commands are appended in the wire format and
  replayed at start-up by parsing the whole file and executing every complete command.
\<close>

section \<open>Writing\<close>

text \<open>The object: the path, whether the stream is open, and whether an error was recorded on it.\<close>

record aof =
  aof_path :: string
  is_open :: bool
  stream_ok :: bool

definition aof_init :: "string \<Rightarrow> aof" where
  "aof_init path = \<lparr>aof_path = path, is_open = False, stream_ok = True\<rparr>"

text \<open>Opening for append creates a missing file; opening a stream twice is an error.\<close>

definition aof_open :: "bool \<Rightarrow> aof \<Rightarrow> file_system \<Rightarrow> bool \<times> aof \<times> file_system" where
  "aof_open can_open a fs =
     (if is_open a \<or> \<not> can_open then (False, a\<lparr>stream_ok := False\<rparr>, fs)
      else (stream_ok a, a\<lparr>is_open := True\<rparr>,
            fs(aof_path a \<mapsto> (case fs (aof_path a) of None \<Rightarrow> [] | Some c \<Rightarrow> c))))"

definition aof_wire :: "externals \<Rightarrow> resp_value \<Rightarrow> string" where
  "aof_wire e cmd =
     foldl (\<lambda>wire arg. wire @ bulk e (str arg))
       (''*'' @ to_string (int (length (array_field cmd))) @ crlf) (array_field cmd)"

text \<open>
  \<open>fails_at\<close> is the number of bytes the operating system accepts before it reports an error. A stream
  that is not open or has an error writes nothing.
\<close>

definition aof_append ::
  "externals \<Rightarrow> nat option \<Rightarrow> resp_value \<Rightarrow> aof \<Rightarrow> file_system \<Rightarrow> bool \<times> aof \<times> file_system" where
  "aof_append e fails_at cmd a fs =
     (if rtype cmd \<noteq> ArrayT then (False, a, fs)
      else if \<not> is_open a \<or> \<not> stream_ok a then (False, a\<lparr>stream_ok := False\<rparr>, fs)
      else
        let wire = aof_wire e cmd;
            old = (case fs (aof_path a) of None \<Rightarrow> [] | Some c \<Rightarrow> c)
        in case fails_at of
             Some n \<Rightarrow> (False, a\<lparr>stream_ok := False\<rparr>, fs(aof_path a \<mapsto> old @ take n wire))
           | None \<Rightarrow> (True, a, fs(aof_path a \<mapsto> old @ wire)))"

definition aof_close :: "aof \<Rightarrow> aof" where
  "aof_close a = (if is_open a then a\<lparr>is_open := False\<rparr> else a)"

section \<open>Replaying\<close>

text \<open>
  The executor receives the number of commands executed before as a further argument, so that it
  can take its clock readings from it.
\<close>

type_synonym executor = "nat \<Rightarrow> resp_value \<Rightarrow> store \<Rightarrow> store result"

partial_function (option) replay_loop ::
  "externals \<Rightarrow> executor \<Rightarrow> string \<Rightarrow> store \<Rightarrow> nat \<Rightarrow> (nat \<times> store) result option" where
  "replay_loop e execute view s count =
     (if view = [] then Some (Inr (count, s))
      else case parse e view of
             Inl f \<Rightarrow> Some (Inl f)
           | Inr res \<Rightarrow>
               if status res \<noteq> Ok then Some (Inr (count, s))
               else case execute count (res_value res) s of
                      Inl f \<Rightarrow> Some (Inl f)
                    | Inr s' \<Rightarrow> replay_loop e execute (drop (consumed res) view) s' (count + 1))"

definition aof_replay ::
  "externals \<Rightarrow> executor \<Rightarrow> string \<Rightarrow> file_system \<Rightarrow> store \<Rightarrow> (nat \<times> store) result option" where
  "aof_replay e execute path fs s =
     (case fs path of None \<Rightarrow> Some (Inr (0, s)) | Some content \<Rightarrow> replay_loop e execute content s 0)"

text \<open>The executor the server passes: dispatch the command and drop the reply.\<close>

definition dispatch_executor :: "externals \<Rightarrow> (nat \<Rightarrow> nat \<Rightarrow> int) \<Rightarrow> executor" where
  "dispatch_executor e clks n cmd s = rbind (dispatch e (clks n) cmd s) (\<lambda>(reply, s'). Inr s')"

section \<open>Correctness\<close>

fun execute_all :: "executor \<Rightarrow> resp_value list \<Rightarrow> store \<Rightarrow> nat \<Rightarrow> (nat \<times> store) result" where
  "execute_all execute [] s n = Inr (n, s)"
| "execute_all execute (c # cs) s n = rbind (execute n c s) (\<lambda>s'. execute_all execute cs s' (n + 1))"

lemma aof_wire_array:
  assumes "decimal_fmt e"
  shows "aof_wire e cmd = array e (map str (array_field cmd))"
proof -
  have "foldl (\<lambda>wire arg. wire @ bulk e (str arg)) acc xs = acc @ concat (map (bulk e) (map str xs))" for acc xs
    by (induction xs arbitrary: acc) auto
  with assms show ?thesis by (simp add: aof_wire_def array_concat)
qed

lemma replay_stops:
  assumes "v = [] \<or> (\<exists>r. parse e v = Inr r \<and> status r \<noteq> Ok)"
  shows "replay_loop e execute v s n = Some (Inr (n, s))"
  using assms by (subst replay_loop.simps) auto

lemma replay_commands:
  assumes "decimal_fmt e" and "\<forall>as\<in>set ass. length as \<le> vec_max e"
    and "length (concat (map (array e) ass) @ rest) < 2 ^ 63"
    and "\<And>s n. replay_loop e execute rest s n = Some (Inr (n, s))"
  shows "replay_loop e execute (concat (map (array e) ass) @ rest) s n =
           Some (execute_all execute (map request ass) s n)"
  using assms(2,3)
proof (induction ass arbitrary: s n)
  case Nil
  then show ?case by (simp add: assms(4))
next
  case (Cons as ass)
  let ?rest = "concat (map (array e) ass) @ rest"
  have "parse e (array e as @ ?rest) = Inr (parsed (request as) (length (array e as)))"
    unfolding request_def using Cons.prems assms(1) by (intro parse_array_bulks) auto
  moreover have "array e as \<noteq> []" by (rule resp.enc_not_Nil) (use Cons.prems in auto)
  moreover have "replay_loop e execute ?rest s' n' = Some (execute_all execute (map request ass) s' n')" for s' n'
    using Cons.prems by (intro Cons.IH) auto
  ultimately show ?case
    by (subst replay_loop.simps) (auto split: sum.splits)
qed

lemma replay_returns:
  assumes "length view < 2 ^ 63"
  shows "\<exists>r. replay_loop e execute view s n = Some r"
  using assms
proof (induction "length view" arbitrary: view s n rule: less_induct)
  case less
  have "\<exists>r. replay_loop e execute (drop (consumed res) view) s' (n + 1) = Some r"
    if "parse e view = Inr res" "status res = Ok" for res s'
    using parse_progress_all(1) [OF that less.prems] less.prems by (intro less.hyps) auto
  then show ?case by (subst replay_loop.simps) (auto split: sum.splits)
qed

text \<open>Appending a list of commands, all writes succeeding.\<close>

fun append_all :: "externals \<Rightarrow> resp_value list \<Rightarrow> aof \<Rightarrow> file_system \<Rightarrow> aof \<times> file_system" where
  "append_all e [] a fs = (a, fs)"
| "append_all e (c # cs) a fs = (case aof_append e None c a fs of (b, a', fs') \<Rightarrow> append_all e cs a' fs')"

lemma append_all_log:
  assumes "is_open a" and "stream_ok a" and "\<forall>c\<in>set cs. rtype c = ArrayT" and "fs (aof_path a) = Some old"
  shows "append_all e cs a fs = (a, fs(aof_path a \<mapsto> old @ concat (map (aof_wire e) cs)))"
  using assms(3,4)
proof (induction cs arbitrary: old fs)
  case (Cons c cs)
  with assms(1,2) show ?case by (auto simp: aof_append_def Let_def fun_eq_iff)
qed (simp add: fun_upd_idem)

definition replayed :: "resp_value list \<Rightarrow> resp_value list" where
  "replayed cmds = map (\<lambda>c. request (map str (array_field c))) cmds"

lemma replay_cut_log:
  assumes "decimal_fmt e" and "\<forall>as\<in>set ass. length as \<le> vec_max e" and "length (concat (map (array e) ass)) < 2 ^ 63"
  shows "\<exists>k \<le> length ass. replay_loop e execute (take m (concat (map (array e) ass))) s 0 =
                            Some (execute_all execute (map request (take k ass)) s 0) \<and>
           length (concat (map (array e) (take k ass))) \<le> m \<and>
           (k < length ass \<longrightarrow> m < length (concat (map (array e) (take (Suc k) ass))))"
proof -
  let ?log = "concat (map (array e) ass)" and ?pre = "\<lambda>k. concat (map (array e) (take k ass))"
  from cut_frames [of ass m "array e"] obtain k j where kj: "k \<le> length ass" "take m ?log = ?pre k @ j"
    "j = [] \<or> k < length ass \<and> (\<exists>i < length (array e (ass ! k)). j = take i (array e (ass ! k)))" by blast
  have suc: "?pre (Suc k) = ?pre k @ array e (ass ! k)" if "k < length ass"
    using that by (simp add: take_Suc_conv_app_nth)
  have whole: "?log = ?pre (Suc k) @ concat (map (array e) (drop (Suc k) ass))"
    by (metis append_take_drop_id concat_append map_append)
  have ne: "array e (ass ! k) \<noteq> []" by (simp add: array_concat)
  have cut: "length j < length (array e (ass ! k))" if "k < length ass" using kj(3) ne by auto
  have stop: "replay_loop e execute j s' n = Some (Inr (n, s'))" for s' n
  proof (rule replay_stops)
    have "length (array e (ass ! k)) < 2 ^ 63" if "k < length ass"
      using suc [OF that] whole assms(3) by simp
    with kj(3) assms(1,2) parse_array_cut [of e "ass ! k"] show "j = [] \<or> (\<exists>r. parse e j = Inr r \<and> status r \<noteq> Ok)"
      by fastforce
  qed
  have len: "length (?pre k @ j) < 2 ^ 63"
    using assms(3) kj(2) by (metis le_less_trans length_take min.cobounded1)
  have "replay_loop e execute (?pre k @ j) s 0 = Some (execute_all execute (map request (take k ass)) s 0)"
    using assms(1,2) len stop by (intro replay_commands) (auto dest: in_set_takeD)
  moreover have le: "length (?pre k) \<le> m" using arg_cong [OF kj(2), of length] by simp
  moreover have "m < length (?pre (Suc k))" if k: "k < length ass"
  proof (rule ccontr)
    assume "\<not> m < length (?pre (Suc k))"
    moreover have "length (?pre (Suc k)) \<le> length ?log" using arg_cong [OF whole, of length] by simp
    ultimately have "length (?pre (Suc k)) \<le> length (take m ?log)" by simp
    with cut [OF k] suc [OF k] kj(2) show False by simp
  qed
  ultimately show ?thesis using kj(1,2) by auto
qed

section \<open>Properties\<close>

text \<open>
  C14: Crash recovery from the log. Append any commands to an empty log, cut the file after any
  number of bytes, and replay it: replay returns, executes in order exactly the commands that are
  completely in the file (seen as arrays of bulk strings), and stops before the torn one without
  an error.
\<close>

theorem aof_crash_recovery:
  assumes "decimal_fmt e" and "\<forall>c\<in>set cmds. rtype c = ArrayT \<and> length (array_field c) \<le> vec_max e"
    and "is_open a" and "stream_ok a" and "fs (aof_path a) = Some []"
    and "length (concat (map (aof_wire e) cmds)) < 2 ^ 63"
  shows "\<exists>fs' log k. append_all e cmds a fs = (a, fs') \<and> fs' (aof_path a) = Some log \<and> k \<le> length cmds \<and>
           aof_replay e execute (aof_path a) (fs'(aof_path a \<mapsto> take m log)) s =
             Some (execute_all execute (replayed (take k cmds)) s 0) \<and>
           length (concat (map (aof_wire e) (take k cmds))) \<le> m \<and>
           (k < length cmds \<longrightarrow> m < length (concat (map (aof_wire e) (take (Suc k) cmds))))"
proof -
  define ass where "ass = map (\<lambda>c. map str (array_field c)) cmds"
  have wires: "map (aof_wire e) (take k cmds) = map (array e) (take k ass)" for k
    using aof_wire_array [OF assms(1)] by (simp add: ass_def take_map)
  from wires [of "length cmds"] have log: "map (aof_wire e) cmds = map (array e) ass" by (simp add: ass_def)
  have "\<forall>as\<in>set ass. length as \<le> vec_max e" using assms(2) by (auto simp: ass_def)
  from replay_cut_log [OF assms(1) this, of execute m s] assms(6) obtain k where
    k: "k \<le> length cmds" "replay_loop e execute (take m (concat (map (array e) ass))) s 0 =
         Some (execute_all execute (map request (take k ass)) s 0)"
      "length (concat (map (array e) (take k ass))) \<le> m"
      "k < length cmds \<longrightarrow> m < length (concat (map (array e) (take (Suc k) ass)))"
    unfolding log by (auto simp: ass_def)
  have "map request (take k ass) = replayed (take k cmds)" by (simp add: ass_def replayed_def take_map)
  with k append_all_log [of a cmds fs "[]" e] assms(2-5) show ?thesis
    unfolding wires log [symmetric] by (auto simp: aof_replay_def)
qed

theorem aof_crash_recovery_witness:
  "\<exists>fs' log k. append_all sample_externals [request [''SET'', ''a'', ''1''], request [''DEL'', ''a'']]
       ((aof_init ''log'')\<lparr>is_open := True\<rparr>) [''log'' \<mapsto> []] = ((aof_init ''log'')\<lparr>is_open := True\<rparr>, fs') \<and>
     fs' ''log'' = Some log \<and>
     aof_replay sample_externals (dispatch_executor sample_externals (\<lambda>_ _. 0)) ''log''
       (fs'(''log'' \<mapsto> take 30 log)) (store_init 4) =
       Some (execute_all (dispatch_executor sample_externals (\<lambda>_ _. 0))
               (replayed (take k [request [''SET'', ''a'', ''1''], request [''DEL'', ''a'']])) (store_init 4) 0)"
proof -
  let ?cs = "[request [''SET'', ''a'', ''1''], request [''DEL'', ''a'']]"
  have "length (concat (map (aof_wire sample_externals) ?cs)) = 47" by code_simp
  moreover have "\<forall>c\<in>set ?cs. rtype c = ArrayT \<and> length (array_field c) \<le> vec_max sample_externals"
    by (simp add: request_def sample_externals_def)
  ultimately show ?thesis
    using aof_crash_recovery [OF decimal_fmt_sample, of ?cs "(aof_init ''log'')\<lparr>is_open := True\<rparr>" "[''log'' \<mapsto> []]"
        "dispatch_executor sample_externals (\<lambda>_ _. 0)" 30 "store_init 4"]
    by (simp add: aof_init_def) blast
qed

text \<open>
  Replay terminates. On every file of fewer than \<open>2^63\<close> bytes, whatever its contents, the replay
  loop returns: each successful parse advances it.
\<close>

theorem aof_replay_terminates:
  assumes "fs path = Some content" and "length content < 2 ^ 63"
  shows "\<exists>r. aof_replay e execute path fs s = Some r"
  using assms replay_returns by (simp add: aof_replay_def)

theorem aof_replay_terminates_witness:
  "\<exists>r. aof_replay sample_externals (\<lambda>_ _ s. Inr s) ''log'' [''log'' \<mapsto> ''+OK''] (store_init 1) = Some r"
  using aof_replay_terminates [of "[''log'' \<mapsto> ''+OK'']" "''log''" "''+OK''" sample_externals "\<lambda>_ _ s. Inr s" "store_init 1"]
  by simp

end
