(* ===== verification/Buffer.thy ===== *)
theory Buffer
  imports Cache_Prelude
begin

text \<open>
  The byte buffer of a connection (\<open>src/src/network/Buffer.hpp\<close>): a vector with a read and a write
  cursor. The capacity computation is done in \<open>size_t\<close>, so it is modelled on 64-bit words, and the
  doubling loop is a partial function: not returning is the value \<open>None\<close>. Under the invariant the
  buffer is a queue of bytes.
\<close>

section \<open>Operations\<close>

record buffer =
  bdata :: string
  read_pos :: nat
  write_pos :: nat

definition INITIAL_CAP :: nat where
  "INITIAL_CAP = 4096"

definition MAX_CAP :: nat where
  "MAX_CAP = 64 * 1024 * 1024"

definition buffer_init :: buffer where
  "buffer_init = \<lparr>bdata = replicate INITIAL_CAP (CHR 0x00), read_pos = 0, write_pos = 0\<rparr>"

definition writable_size :: "buffer \<Rightarrow> nat" where
  "writable_size b = length (bdata b) - write_pos b"

text \<open>Storing bytes behind the write cursor, as \<open>memcpy\<close> and \<open>recv\<close> do through \<open>write_ptr\<close>.\<close>

definition poke :: "string \<Rightarrow> buffer \<Rightarrow> buffer" where
  "poke d b = b\<lparr>bdata := take (write_pos b) (bdata b) @ d @ drop (write_pos b + length d) (bdata b)\<rparr>"

definition commit_write :: "nat \<Rightarrow> buffer \<Rightarrow> buffer" where
  "commit_write n b = b\<lparr>write_pos := write_pos b + n\<rparr>"

definition readable :: "buffer \<Rightarrow> string" where
  "readable b = take (write_pos b - read_pos b) (drop (read_pos b) (bdata b))"

definition readable_size :: "buffer \<Rightarrow> nat" where
  "readable_size b = write_pos b - read_pos b"

definition buffer_empty :: "buffer \<Rightarrow> bool" where
  "buffer_empty b \<longleftrightarrow> write_pos b = read_pos b"

definition consume :: "nat \<Rightarrow> buffer \<Rightarrow> buffer" where
  "consume n b =
     (let b' = b\<lparr>read_pos := read_pos b + n\<rparr> in
      if read_pos b' = write_pos b' then b'\<lparr>read_pos := 0, write_pos := 0\<rparr> else b')"

definition compact :: "buffer \<Rightarrow> buffer" where
  "compact b =
     (if read_pos b = 0 then b
      else let unread = write_pos b - read_pos b in
           \<lparr>bdata = take unread (drop (read_pos b) (bdata b)) @ drop unread (bdata b),
            read_pos = 0, write_pos = unread\<rparr>)"

partial_function (option) grow_loop :: "64 word \<Rightarrow> 64 word \<Rightarrow> 64 word \<Rightarrow> 64 word option" where
  "grow_loop new_cap wp n = (if new_cap - wp < n then grow_loop (new_cap * 2) wp n else Some new_cap)"

definition ensure_writable :: "nat \<Rightarrow> buffer \<Rightarrow> buffer result option" where
  "ensure_writable n b =
     (if writable_size b \<ge> n then Some (Inr b)
      else
        let b1 = compact b in
        if writable_size b1 \<ge> n then Some (Inr b1)
        else
          case grow_loop (of_nat (length (bdata b1)) * 2) (of_nat (write_pos b1)) (of_nat n) of
            None \<Rightarrow> None
          | Some new_cap \<Rightarrow>
              if unat new_cap > MAX_CAP then Some (Inl (RuntimeError ''Buffer exceeded max capacity''))
              else Some (Inr (b1\<lparr>bdata := take (unat new_cap) (bdata b1) @
                                          replicate (unat new_cap - length (bdata b1)) (CHR 0x00)\<rparr>)))"

definition append_data :: "string \<Rightarrow> buffer \<Rightarrow> buffer result option" where
  "append_data d b =
     (case ensure_writable (length d) b of
        None \<Rightarrow> None
      | Some (Inl f) \<Rightarrow> Some (Inl f)
      | Some (Inr b') \<Rightarrow> Some (Inr (commit_write (length d) (poke d b'))))"

section \<open>Invariant\<close>

definition buffer_ok :: "buffer \<Rightarrow> bool" where
  "buffer_ok b \<longleftrightarrow>
     read_pos b \<le> write_pos b \<and> write_pos b \<le> length (bdata b) \<and>
     0 < length (bdata b) \<and> length (bdata b) \<le> MAX_CAP"

lemma buffer_ok_init [simp]: "buffer_ok buffer_init" "readable buffer_init = []"
  by (simp_all add: buffer_ok_def buffer_init_def INITIAL_CAP_def MAX_CAP_def readable_def)

lemma length_readable: "buffer_ok b \<Longrightarrow> length (readable b) = readable_size b"
  by (auto simp: buffer_ok_def readable_def readable_size_def)

lemma buffer_empty_iff: "buffer_ok b \<Longrightarrow> buffer_empty b \<longleftrightarrow> readable b = []"
  by (auto simp: buffer_ok_def readable_def buffer_empty_def)

lemma consume_ok:
  assumes "buffer_ok b" and "n \<le> length (readable b)"
  shows "buffer_ok (consume n b)" and "readable (consume n b) = drop n (readable b)"
  using assms by (auto simp: consume_def buffer_ok_def readable_def Let_def drop_take add.commute)

lemma compact_ok:
  assumes "buffer_ok b"
  shows "buffer_ok (compact b)" and "readable (compact b) = readable b"
    and "read_pos (compact b) = 0" and "write_pos (compact b) = length (readable b)"
    and "length (bdata (compact b)) = length (bdata b)"
  using assms by (auto simp: compact_def buffer_ok_def readable_def Let_def)

lemma write_ok:
  assumes "buffer_ok b" and "length d \<le> writable_size b"
  shows "buffer_ok (commit_write (length d) (poke d b))"
    and "readable (commit_write (length d) (poke d b)) = readable b @ d"
proof -
  let ?pre = "drop (read_pos b) (take (write_pos b) (bdata b))"
  have pos: "read_pos b \<le> write_pos b" "write_pos b + length d \<le> length (bdata b)"
    using assms by (auto simp: buffer_ok_def writable_size_def)
  then have "length ?pre = write_pos b - read_pos b" by simp
  moreover from pos(1) have "write_pos b + length d - read_pos b = (write_pos b - read_pos b) + length d" by simp
  ultimately show "readable (commit_write (length d) (poke d b)) = readable b @ d"
    using pos by (simp add: commit_write_def poke_def readable_def drop_take)
  show "buffer_ok (commit_write (length d) (poke d b))"
    using assms pos by (auto simp: commit_write_def poke_def buffer_ok_def)
qed

lemma extend_ok:
  assumes "buffer_ok b" and "length (bdata b @ z) \<le> MAX_CAP"
  shows "buffer_ok (b\<lparr>bdata := bdata b @ z\<rparr>)" and "readable (b\<lparr>bdata := bdata b @ z\<rparr>) = readable b"
  using assms by (auto simp: buffer_ok_def readable_def)

section \<open>Growing\<close>

text \<open>The doubling loop returns and does not wrap around as long as the sizes are far from the word size.\<close>

lemma grow_loop_returns:
  assumes "0 < c" and "c < 2 ^ 62" and "w \<le> c" and "w + n < 2 ^ 62"
  shows "\<exists>c'. grow_loop (of_nat c) (of_nat w) (of_nat n) = Some (of_nat c') \<and>
              w + n \<le> c' \<and> c \<le> c' \<and> (c' = c \<or> c' < 2 * (w + n)) \<and> c' < 2 ^ 63"
  using assms
proof (induction "w + n - c" arbitrary: c rule: less_induct)
  case less
  have small: "unat (of_nat x :: 64 word) = x" if "x < 2 ^ 63" for x
    using that by (simp add: unsigned_of_nat take_bit_nat_eq_self)
  then have lt: "(of_nat c - of_nat w < (of_nat n :: 64 word)) \<longleftrightarrow> c - w < n"
    using less.prems by (simp add: word_less_nat_alt flip: of_nat_diff)
  have dbl: "(of_nat c * 2 :: 64 word) = of_nat (2 * c)" by simp
  have step: "grow_loop (of_nat c) (of_nat w) (of_nat n) =
      (if c - w < n then grow_loop (of_nat (2 * c)) (of_nat w) (of_nat n) else Some (of_nat c))"
    unfolding dbl [symmetric] lt [symmetric] by (rule grow_loop.simps)
  show ?case
  proof (cases "c - w < n")
    case True
    show ?thesis
    proof (cases "2 * c < 2 ^ 62")
      case small: True
      have "w + n - 2 * c < w + n - c" using True less.prems by arith
      with less.hyps [of "2 * c"] small less.prems obtain c' where
        c': "grow_loop (of_nat (2 * c)) (of_nat w) (of_nat n) = Some (of_nat c')"
        "w + n \<le> c'" "2 * c \<le> c'" "c' = 2 * c \<or> c' < 2 * (w + n)" "c' < 2 ^ 63" by auto
      have "c' < 2 * (w + n)" using c'(4) True less.prems by arith
      with c' step True show ?thesis by (intro exI [of _ c']) auto
    next
      case big: False
      then have le: "w + n \<le> 2 * c" using less.prems by simp
      have "\<not> ((of_nat (2 * c) :: 64 word) - of_nat w < of_nat n)"
        using less.prems le small by (simp add: word_less_nat_alt flip: of_nat_diff of_nat_mult)
      then have "grow_loop (of_nat (2 * c)) (of_nat w) (of_nat n) = Some (of_nat (2 * c))"
        by (subst grow_loop.simps) simp
      moreover have "2 * c < 2 * (w + n)" using True less.prems by arith
      moreover have "2 * c < 2 ^ 63" using less.prems by simp
      ultimately show ?thesis using step True le by (intro exI [of _ "2 * c"]) auto
    qed
  next
    case False
    with step less.prems show ?thesis by auto
  qed
qed

lemma ensure_writable_cases:
  assumes "buffer_ok b" and "n < 2 ^ 60"
  shows "(\<exists>b'. ensure_writable n b = Some (Inr b') \<and> buffer_ok b' \<and> readable b' = readable b \<and> n \<le> writable_size b') \<or>
         (ensure_writable n b = Some (Inl (RuntimeError ''Buffer exceeded max capacity'')) \<and>
          MAX_CAP < 2 * (length (readable b) + n))"
proof -
  note c = compact_ok [OF assms(1)]
  show ?thesis
  proof (cases "n \<le> writable_size b \<or> n \<le> writable_size (compact b)")
    case True
    with assms(1) c(1,2) show ?thesis by (auto simp: ensure_writable_def Let_def)
  next
    case False
    let ?cap = "length (bdata b)" and ?w = "length (readable b)"
    have cap: "0 < ?cap" "?cap \<le> MAX_CAP" "?w \<le> ?cap"
      using assms(1) c(1,4,5) by (simp_all add: buffer_ok_def)
    have "\<not> n \<le> ?cap - ?w" using False c(4,5) by (simp add: writable_size_def)
    then have full: "?cap < ?w + n" by arith
    have "\<exists>c'. grow_loop (of_nat (2 * ?cap)) (of_nat ?w) (of_nat n) = Some (of_nat c') \<and>
        ?w + n \<le> c' \<and> 2 * ?cap \<le> c' \<and> (c' = 2 * ?cap \<or> c' < 2 * (?w + n)) \<and> c' < 2 ^ 63"
      using cap assms(2) by (intro grow_loop_returns) (auto simp: MAX_CAP_def)
    then obtain c' where c': "grow_loop (of_nat (2 * ?cap)) (of_nat ?w) (of_nat n) = Some (of_nat c')"
      "?w + n \<le> c'" "2 * ?cap \<le> c'" "c' = 2 * ?cap \<or> c' < 2 * (?w + n)" "c' < 2 ^ 63" by blast
    from c'(4) full have less: "c' < 2 * (?w + n)" by auto
    have u: "unat (of_nat c' :: 64 word) = c'"
      using c'(5) by (simp add: unsigned_of_nat take_bit_nat_eq_self)
    let ?b = "(compact b)\<lparr>bdata := bdata (compact b) @ replicate (c' - ?cap) (CHR 0x00)\<rparr>"
    have e: "ensure_writable n b =
        (if c' > MAX_CAP then Some (Inl (RuntimeError ''Buffer exceeded max capacity'')) else Some (Inr ?b))"
      using False c' u c(4,5) by (simp add: ensure_writable_def Let_def mult.commute)
    have "readable ?b = readable b" "n \<le> writable_size ?b" "buffer_ok ?b" if "c' \<le> MAX_CAP"
      using extend_ok [OF c(1), of "replicate (c' - ?cap) (CHR 0x00)"] c(2,4,5) c'(2,3) that
      by (auto simp: writable_size_def)
    with e less show ?thesis by (cases "c' > MAX_CAP") auto
  qed
qed

lemma append_cases:
  assumes "buffer_ok b" and "length d < 2 ^ 60"
  shows "(\<exists>b'. append_data d b = Some (Inr b') \<and> buffer_ok b' \<and> readable b' = readable b @ d) \<or>
         (append_data d b = Some (Inl (RuntimeError ''Buffer exceeded max capacity'')) \<and>
          MAX_CAP < 2 * (length (readable b) + length d))"
  using ensure_writable_cases [OF assms]
proof
  assume "\<exists>b'. ensure_writable (length d) b = Some (Inr b') \<and> buffer_ok b' \<and> readable b' = readable b \<and>
    length d \<le> writable_size b'"
  then obtain b' where "ensure_writable (length d) b = Some (Inr b')" "buffer_ok b'" "readable b' = readable b"
    "length d \<le> writable_size b'" by blast
  with write_ok [of b' d] show ?thesis by (simp add: append_data_def)
qed (simp add: append_data_def)

section \<open>The queue contract\<close>

text \<open>
  What the connection relies on: pushing bytes succeeds or reports, popping removes from the front.
  From the two laws follows that no byte is lost, duplicated or reordered, whatever the sequence of
  operations.
\<close>

datatype queue_op = Push string | Pop nat

locale byte_queue =
  fixes inv :: "'q \<Rightarrow> bool"
    and view :: "'q \<Rightarrow> string"
    and fits :: "string \<Rightarrow> bool"
    and push :: "string \<Rightarrow> 'q \<Rightarrow> 'q result option"
    and pop :: "nat \<Rightarrow> 'q \<Rightarrow> 'q"
  assumes push_law: "inv q \<Longrightarrow> fits d \<Longrightarrow> push d q = Some (Inr q') \<Longrightarrow> inv q' \<and> view q' = view q @ d"
    and pop_law: "inv q \<Longrightarrow> n \<le> length (view q) \<Longrightarrow> inv (pop n q) \<and> view (pop n q) = drop n (view q)"
begin

fun run :: "queue_op list \<Rightarrow> 'q \<Rightarrow> ('q \<times> string \<times> string) option" where
  "run [] q = Some (q, [], [])"
| "run (Push d # ops) q =
     (if fits d
      then case push d q of
             Some (Inr q') \<Rightarrow> map_option (\<lambda>(r, into, out). (r, d @ into, out)) (run ops q')
           | _ \<Rightarrow> None
      else None)"
| "run (Pop n # ops) q =
     (if n \<le> length (view q)
      then map_option (\<lambda>(r, into, out). (r, into, take n (view q) @ out)) (run ops (pop n q)) else None)"

lemma conservation: "inv q \<Longrightarrow> run ops q = Some (r, into, out) \<Longrightarrow> inv r \<and> view q @ into = out @ view r"
proof (induction ops arbitrary: q into out)
  case (Cons op ops)
  show ?case
  proof (cases op)
    case (Push d)
    with Cons.prems(2) obtain q' into' where q': "fits d" "push d q = Some (Inr q')"
      "run ops q' = Some (r, into', out)" "into = d @ into'" by (auto split: option.splits sum.splits if_splits)
    with Cons.IH [OF _ q'(3)] push_law [OF Cons.prems(1) q'(1,2)] show ?thesis by simp
  next
    case (Pop n)
    with Cons.prems(2) obtain out' where p: "n \<le> length (view q)" "run ops (pop n q) = Some (r, into, out')"
      "out = take n (view q) @ out'" by (auto split: if_splits)
    with Cons.IH [OF _ p(2)] pop_law [OF Cons.prems(1) p(1)] show ?thesis
      by (metis append.assoc append_take_drop_id)
  qed
qed simp

end

interpretation bq: byte_queue buffer_ok readable "\<lambda>d. length d < 2 ^ 60" append_data consume
proof
  fix b d b'
  assume "buffer_ok b" and "length d < 2 ^ 60" and "append_data d b = Some (Inr b')"
  then show "buffer_ok b' \<and> readable b' = readable b @ d" using append_cases [of b d] by auto
next
  fix b n
  assume "buffer_ok b" and "n \<le> length (readable b)"
  then show "buffer_ok (consume n b) \<and> readable (consume n b) = drop n (readable b)"
    using consume_ok by blast
qed

section \<open>Properties\<close>

text \<open>
  Appending. On a well-formed buffer \<open>append\<close> always returns (the doubling loop ends and does not
  wrap around): either the bytes are behind the ones already readable, or it throws because the
  capacity limit would be exceeded, which cannot happen while the unread and the new bytes take at
  most half of the limit.
\<close>

theorem append_returns:
  assumes "buffer_ok b" and "length d < 2 ^ 60"
  shows "case append_data d b of
           Some (Inr b') \<Rightarrow> buffer_ok b' \<and> readable b' = readable b @ d
         | Some (Inl f) \<Rightarrow> f = RuntimeError ''Buffer exceeded max capacity'' \<and>
                           MAX_CAP < 2 * (length (readable b) + length d)
         | None \<Rightarrow> False"
  using append_cases [OF assms] by auto

theorem append_returns_witness:
  "case append_data ''hello'' buffer_init of
     Some (Inr b') \<Rightarrow> readable b' = ''hello'' | Some (Inl f) \<Rightarrow> False | None \<Rightarrow> False"
  using append_returns [of buffer_init "''hello''"]
  by (simp add: MAX_CAP_def split: option.splits sum.splits)

end
