(* ===== verification/Metrics.thy ===== *)
theory Metrics
  imports Resp_Types Complex_Main "HOL-Library.Signed_Division"
begin

text \<open>
  The metrics counters (\<open>src/src/metrics/Metrics.cpp\<close>). The counters are 64-bit atomics: \<open>fetch_add\<close>
  wraps around. Floating-point arithmetic is real arithmetic with a rounding function applied after
  each operation; the rounding and the rendering of a double with a fixed number of decimals are
  arguments.
\<close>

section \<open>State\<close>

record float_env =
  fl :: "real \<Rightarrow> real"
  fmt_fixed :: "nat \<Rightarrow> real \<Rightarrow> string"

record metrics =
  total_commands :: int
  total_hits :: int
  total_misses :: int
  active_connections :: int
  total_connections :: int
  memory_bytes :: int
  key_count :: int
  latency_ema_x100 :: int
  commands_per_sec :: int
  last_cmd_snapshot :: int
  last_snapshot_time_ms :: int

definition metrics_init :: metrics where
  "metrics_init =
     \<lparr>total_commands = 0, total_hits = 0, total_misses = 0, active_connections = 0, total_connections = 0,
      memory_bytes = 0, key_count = 0, latency_ema_x100 = 0, commands_per_sec = 0, last_cmd_snapshot = 0,
      last_snapshot_time_ms = 0\<rparr>"

section \<open>Recording\<close>

definition wrap64 :: "int \<Rightarrow> int" where
  "wrap64 x = sint (word_of_int x :: 64 word)"

definition truncate64 :: "real \<Rightarrow> int result" where
  "truncate64 x =
     (let n = (if x \<ge> 0 then \<lfloor>x\<rfloor> else \<lceil>x\<rceil>) in if in_int64 n then Inr n else Inl BadConversion)"

definition update_latency_ema :: "float_env \<Rightarrow> real \<Rightarrow> metrics \<Rightarrow> metrics result" where
  "update_latency_ema E sample_us m =
     (let alpha = fl E (1 / 20);
          old = latency_ema_x100 m;
          ema = fl E (fl E (of_int old) / 100);
          ema' = fl E (fl E (alpha * sample_us) + fl E (fl E (1 - alpha) * ema))
      in rbind (truncate64 (fl E (ema' * 100))) (\<lambda>n. Inr (m\<lparr>latency_ema_x100 := n\<rparr>)))"

definition record_command :: "float_env \<Rightarrow> int \<Rightarrow> metrics \<Rightarrow> metrics result" where
  "record_command E latency_us m =
     update_latency_ema E (fl E (of_int latency_us)) (m\<lparr>total_commands := wrap64 (total_commands m + 1)\<rparr>)"

definition record_cache_hit :: "metrics \<Rightarrow> metrics" where
  "record_cache_hit m = m\<lparr>total_hits := wrap64 (total_hits m + 1)\<rparr>"

definition record_cache_miss :: "metrics \<Rightarrow> metrics" where
  "record_cache_miss m = m\<lparr>total_misses := wrap64 (total_misses m + 1)\<rparr>"

definition record_connection_open :: "metrics \<Rightarrow> metrics" where
  "record_connection_open m =
     (let m1 = m\<lparr>active_connections := wrap64 (active_connections m + 1)\<rparr> in
      m1\<lparr>total_connections := wrap64 (total_connections m1 + 1)\<rparr>)"

definition record_connection_close :: "metrics \<Rightarrow> metrics" where
  "record_connection_close m = m\<lparr>active_connections := wrap64 (active_connections m - 1)\<rparr>"

definition set_memory_bytes :: "int \<Rightarrow> metrics \<Rightarrow> metrics" where
  "set_memory_bytes bytes m = m\<lparr>memory_bytes := bytes\<rparr>"

definition set_key_count :: "int \<Rightarrow> metrics \<Rightarrow> metrics" where
  "set_key_count n m = m\<lparr>key_count := n\<rparr>"

section \<open>Reporting\<close>

record snapshot =
  snap_total_commands :: int
  snap_total_hits :: int
  snap_total_misses :: int
  snap_active_connections :: int
  snap_total_connections :: int
  snap_memory_bytes :: int
  snap_key_count :: int
  avg_latency_us :: real
  hit_rate :: real
  snap_commands_per_sec :: int

text \<open>
  A snapshot also updates the two fields the rate is computed from. The additions and the product are
  plain \<open>int64_t\<close> arithmetic.
\<close>

definition metrics_snapshot :: "float_env \<Rightarrow> int \<Rightarrow> metrics \<Rightarrow> (snapshot \<times> metrics) result" where
  "metrics_snapshot E now m =
     rbind (add64 (total_hits m) (total_misses m)) (\<lambda>total.
     let rate = (if total > 0 then fl E (fl E (of_int (total_hits m)) / fl E (of_int total)) else 0);
         avg = fl E (fl E (of_int (latency_ema_x100 m)) / 100);
         snap = (\<lambda>cps. \<lparr>snap_total_commands = total_commands m, snap_total_hits = total_hits m,
                   snap_total_misses = total_misses m, snap_active_connections = active_connections m,
                   snap_total_connections = total_connections m, snap_memory_bytes = memory_bytes m,
                   snap_key_count = key_count m, avg_latency_us = avg, hit_rate = rate,
                   snap_commands_per_sec = cps\<rparr>)
     in rbind (sub64 now (last_snapshot_time_ms m)) (\<lambda>dt_ms.
        if dt_ms > 100 then
          rbind (sub64 (total_commands m) (last_cmd_snapshot m)) (\<lambda>delta_cmds.
          rbind (mul64 delta_cmds 1000) (\<lambda>x.
            Inr (snap (if dt_ms > 0 then x sdiv dt_ms else 0),
                 m\<lparr>last_snapshot_time_ms := now, last_cmd_snapshot := total_commands m\<rparr>)))
        else Inr (snap (commands_per_sec m), m)))"

definition metric_line :: "string \<Rightarrow> string \<Rightarrow> string \<Rightarrow> string \<Rightarrow> string" where
  "metric_line name help kind v =
     ''# HELP '' @ name @ '' '' @ help @ [LF] @ ''# TYPE '' @ name @ '' '' @ kind @ [LF] @ name @ '' '' @ v @ [LF]"

definition prometheus_text :: "externals \<Rightarrow> float_env \<Rightarrow> int \<Rightarrow> metrics \<Rightarrow> (string \<times> metrics) result" where
  "prometheus_text e E now m =
     rbind (metrics_snapshot E now m) (\<lambda>(s, m').
       Inr (metric_line ''cache_commands_total'' ''Total commands executed'' ''counter'' (fmt_int e (snap_total_commands s)) @
            metric_line ''cache_hits_total'' ''Total cache hits'' ''counter'' (fmt_int e (snap_total_hits s)) @
            metric_line ''cache_misses_total'' ''Total cache misses'' ''counter'' (fmt_int e (snap_total_misses s)) @
            metric_line ''cache_active_connections'' ''Current active connections'' ''gauge''
              (fmt_int e (snap_active_connections s)) @
            metric_line ''cache_key_count'' ''Current number of keys'' ''gauge'' (fmt_int e (snap_key_count s)) @
            metric_line ''cache_memory_bytes'' ''Approximate memory usage'' ''gauge'' (fmt_int e (snap_memory_bytes s)) @
            metric_line ''cache_avg_latency_us'' ''Exponentially-weighted average command latency'' ''gauge''
              (fmt_fixed E 2 (avg_latency_us s)) @
            metric_line ''cache_hit_rate'' ''Cache hit rate (0-1)'' ''gauge'' (fmt_fixed E 4 (hit_rate s)) @
            metric_line ''cache_commands_per_sec'' ''Commands per second'' ''gauge''
              (fmt_int e (snap_commands_per_sec s)), m'))"

section \<open>Facts\<close>

lemma wrap64_in_range [simp]: "in_int64 (wrap64 x)"
  using sint_ge [of "word_of_int x :: 64 word"] sint_lt [of "word_of_int x :: 64 word"]
  by (simp add: in_int64_def wrap64_def)

lemma wrap64_id [simp]: "in_int64 x \<Longrightarrow> wrap64 x = x"
  by (simp add: wrap64_def in_int64_def signed_of_int signed_take_bit_int_eq_self)

lemma record_command_fault: "record_command E l m = Inl f \<Longrightarrow> f = BadConversion"
  by (auto simp: record_command_def update_latency_ema_def truncate64_def Let_def rbind_eq_Inl split: if_splits)

lemma metrics_snapshot_fault: "metrics_snapshot E now m = Inl f \<Longrightarrow> f = SignedOverflow"
  by (auto simp: metrics_snapshot_def Let_def rbind_eq_Inl add64_def sub64_def mul64_def split: if_splits)

lemma prometheus_text_fault: "prometheus_text e E now m = Inl f \<Longrightarrow> f = SignedOverflow"
  by (auto simp: prometheus_text_def rbind_eq_Inl dest: metrics_snapshot_fault)

end
