(* ===== verification/Connection.thy ===== *)
theory Connection
  imports Buffer Metrics Commands_Correct
begin

text \<open>
  One client connection (\<open>src/src/network/Connection.cpp\<close>): reading from the socket, executing every
  complete command in the input buffer, and flushing the replies. The socket is modelled from the
  outside: the bytes the peer has sent and not yet been read, and the answers of the kernel to the
  successive \<open>recv\<close> and \<open>send\<close> calls. The drain loop over the input buffer is a partial function.
\<close>

section \<open>State\<close>

record connection =
  conn_fd :: int
  conn_closed :: bool
  in_buf :: buffer
  out_buf :: buffer

definition connection_init :: "int \<Rightarrow> connection" where
  "connection_init fd = \<lparr>conn_fd = fd, conn_closed = False, in_buf = buffer_init, out_buf = buffer_init\<rparr>"

text \<open>What the connections of a server share, and the clock readings around one command.\<close>

record server_state =
  st_store :: store
  st_metrics :: metrics

record command_times =
  t_start :: int
  t_end :: int
  t_cmd :: "nat \<Rightarrow> int"

section \<open>Replies\<close>

definition write_response :: "string \<Rightarrow> connection \<Rightarrow> connection result option" where
  "write_response resp c =
     (case append_data resp (out_buf c) of
        None \<Rightarrow> None
      | Some (Inl f) \<Rightarrow> Some (Inl f)
      | Some (Inr b) \<Rightarrow> Some (Inr (c\<lparr>out_buf := b\<rparr>)))"

definition has_pending_write :: "connection \<Rightarrow> bool" where
  "has_pending_write c \<longleftrightarrow> \<not> buffer_empty (out_buf c)"

section \<open>Executing commands\<close>

definition record_latency :: "float_env \<Rightarrow> command_times \<Rightarrow> metrics \<Rightarrow> metrics result" where
  "record_latency E t m =
     rbind (sub64 (t_end t) (t_start t)) (\<lambda>latency_us. record_command E latency_us m)"

text \<open>
  The loop of \<open>process_commands\<close>; the boolean of the result says that the function returned from
  inside the loop, after a protocol error.
\<close>

partial_function (option) process_loop ::
  "externals \<Rightarrow> float_env \<Rightarrow> (nat \<Rightarrow> command_times) \<Rightarrow> connection \<Rightarrow> server_state \<Rightarrow> string \<Rightarrow> nat \<Rightarrow>
   (bool \<times> connection \<times> server_state \<times> string) result option" where
  "process_loop e E tms c st batch_resp i =
     (if readable (in_buf c) = [] then Some (Inr (False, c, st, batch_resp))
      else case parse e (readable (in_buf c)) of
        Inl f \<Rightarrow> Some (Inl f)
      | Inr res \<Rightarrow>
          if status res = Incomplete then Some (Inr (False, c, st, batch_resp))
          else if status res = Error then
            (case write_response (error ''protocol error'') c of
               None \<Rightarrow> None
             | Some (Inl f) \<Rightarrow> Some (Inl f)
             | Some (Inr c') \<Rightarrow> Some (Inr (True, c'\<lparr>conn_closed := True\<rparr>, st, batch_resp)))
          else
            case dispatch e (t_cmd (tms i)) (res_value res) (st_store st) of
              Inl f \<Rightarrow> Some (Inl f)
            | Inr (reply, s') \<Rightarrow>
                if mem_limit e < length (batch_resp @ reply) then Some (Inl BadAlloc)
                else (case record_latency E (tms i) (st_metrics st) of
                   Inl f \<Rightarrow> Some (Inl f)
                 | Inr m' \<Rightarrow>
                     process_loop e E tms (c\<lparr>in_buf := consume (consumed res) (in_buf c)\<rparr>)
                       (st\<lparr>st_store := s', st_metrics := m'\<rparr>) (batch_resp @ reply) (i + 1)))"

definition process_commands ::
  "externals \<Rightarrow> float_env \<Rightarrow> (nat \<Rightarrow> command_times) \<Rightarrow> connection \<Rightarrow> server_state \<Rightarrow>
   (connection \<times> server_state) result option" where
  "process_commands e E tms c st =
     (case process_loop e E tms c st [] 0 of
        None \<Rightarrow> None
      | Some (Inl f) \<Rightarrow> Some (Inl f)
      | Some (Inr (returned, c', st', batch_resp)) \<Rightarrow>
          if returned \<or> batch_resp = [] then Some (Inr (c', st'))
          else case write_response batch_resp c' of
                 None \<Rightarrow> None
               | Some (Inl f) \<Rightarrow> Some (Inl f)
               | Some (Inr c'') \<Rightarrow> Some (Inr (c'', st')))"

section \<open>Reading\<close>

text \<open>
  The kernel's answers to \<open>recv\<close>: it delivers between one byte and as many as are pending and fit,
  \<open>RecvData n\<close> being its choice; with nothing pending it answers \<open>EAGAIN\<close>. After the last listed answer
  it answers \<open>EAGAIN\<close>.
\<close>

datatype recv_answer = RecvData nat | RecvClosed | RecvAgain | RecvIntr | RecvFail

fun recv_loop :: "recv_answer list \<Rightarrow> string \<Rightarrow> connection \<Rightarrow> (bool \<times> string \<times> connection) result option" where
  "recv_loop answers pending c =
     (case ensure_writable 4096 (in_buf c) of
        None \<Rightarrow> None
      | Some (Inl f) \<Rightarrow> Some (Inl f)
      | Some (Inr b) \<Rightarrow>
          (case answers of
             [] \<Rightarrow> Some (Inr (True, pending, c\<lparr>in_buf := b\<rparr>))
           | RecvData k # rest \<Rightarrow>
               if pending = [] then Some (Inr (True, pending, c\<lparr>in_buf := b\<rparr>))
               else let n = min (max 1 k) (min (length pending) (writable_size b)) in
                    recv_loop rest (drop n pending)
                      (c\<lparr>in_buf := commit_write n (poke (take n pending) b)\<rparr>)
           | RecvClosed # rest \<Rightarrow> Some (Inr (False, pending, c\<lparr>in_buf := b, conn_closed := True\<rparr>))
           | RecvAgain # rest \<Rightarrow> Some (Inr (True, pending, c\<lparr>in_buf := b\<rparr>))
           | RecvIntr # rest \<Rightarrow> recv_loop rest pending (c\<lparr>in_buf := b\<rparr>)
           | RecvFail # rest \<Rightarrow> Some (Inr (False, pending, c\<lparr>in_buf := b, conn_closed := True\<rparr>))))"

declare recv_loop.simps [simp del]

lemmas recv_loop_Nil = recv_loop.simps [of "[]"]

lemmas recv_loop_Cons = recv_loop.simps [of "a # rest" for a rest]

definition on_readable ::
  "externals \<Rightarrow> float_env \<Rightarrow> (nat \<Rightarrow> command_times) \<Rightarrow> recv_answer list \<Rightarrow> string \<Rightarrow> connection \<Rightarrow> server_state \<Rightarrow>
   (bool \<times> string \<times> connection \<times> server_state) result option" where
  "on_readable e E tms answers pending c st =
     (case recv_loop answers pending c of
        None \<Rightarrow> None
      | Some (Inl f) \<Rightarrow> Some (Inl f)
      | Some (Inr (go_on, pending', c')) \<Rightarrow>
          if \<not> go_on then Some (Inr (False, pending', c', st))
          else case process_commands e E tms c' st of
                 None \<Rightarrow> None
               | Some (Inl f) \<Rightarrow> Some (Inl f)
               | Some (Inr (c'', st')) \<Rightarrow> Some (Inr (\<not> conn_closed c'', pending', c'', st')))"

section \<open>Writing\<close>

text \<open>
  The kernel's answers to \<open>send\<close>: \<open>SendData n\<close> accepts between one and all bytes offered, \<open>SendZero\<close> is
  the return value 0. The second component collects the bytes that went out.
\<close>

datatype send_answer = SendData nat | SendZero | SendAgain | SendIntr | SendFail

fun send_loop :: "send_answer list \<Rightarrow> string \<Rightarrow> connection \<Rightarrow> bool \<times> string \<times> connection" where
  "send_loop answers sent c =
     (if buffer_empty (out_buf c) then (True, sent, c)
      else case answers of
             [] \<Rightarrow> (True, sent, c)
           | SendData k # rest \<Rightarrow>
               let data = readable (out_buf c); n = min (max 1 k) (length data) in
               send_loop rest (sent @ take n data) (c\<lparr>out_buf := consume n (out_buf c)\<rparr>)
           | SendZero # rest \<Rightarrow> send_loop rest sent c
           | SendAgain # rest \<Rightarrow> (True, sent, c)
           | SendIntr # rest \<Rightarrow> send_loop rest sent c
           | SendFail # rest \<Rightarrow> (False, sent, c\<lparr>conn_closed := True\<rparr>))"

declare send_loop.simps [simp del]

lemmas send_loop_Nil = send_loop.simps [of "[]"]

lemmas send_loop_Cons = send_loop.simps [of "a # rest" for a rest]

definition on_writable :: "send_answer list \<Rightarrow> connection \<Rightarrow> bool \<times> string \<times> connection" where
  "on_writable answers c = send_loop answers [] c"

section \<open>Invariant\<close>

definition conn_ok :: "connection \<Rightarrow> bool" where
  "conn_ok c \<longleftrightarrow> buffer_ok (in_buf c) \<and> buffer_ok (out_buf c)"

lemma conn_ok_init [simp]: "conn_ok (connection_init fd)"
  by (simp add: conn_ok_def connection_init_def)

lemma conn_ok_sel:
  "conn_ok c \<Longrightarrow> buffer_ok b \<Longrightarrow> conn_ok (c\<lparr>in_buf := b\<rparr>)"
  "conn_ok c \<Longrightarrow> buffer_ok b \<Longrightarrow> conn_ok (c\<lparr>out_buf := b\<rparr>)"
  "conn_ok c \<Longrightarrow> conn_ok (c\<lparr>conn_closed := x\<rparr>)"
  by (simp_all add: conn_ok_def)

text \<open>Sending moves bytes from the front of the output buffer to the peer and nothing else.\<close>

lemma send_loop_conserves:
  assumes "send_loop answers sent c = (go_on, sent', c')" and "conn_ok c"
  shows "conn_ok c' \<and> sent' @ readable (out_buf c') = sent @ readable (out_buf c) \<and> in_buf c' = in_buf c \<and>
         (go_on \<longrightarrow> conn_closed c' = conn_closed c)"
  using assms
proof (induction answers arbitrary: sent c)
  case Nil
  then show ?case by (auto simp: send_loop_Nil split: if_splits)
next
  case (Cons a rest)
  show ?case
  proof (cases "buffer_empty (out_buf c)")
    case True
    with Cons.prems show ?thesis by (auto simp: send_loop_Cons)
  next
    case False
    show ?thesis
    proof (cases a)
      case (SendData k)
      let ?d = "readable (out_buf c)" and ?n = "min (max 1 k) (length (readable (out_buf c)))"
      have "buffer_ok (out_buf c)" using Cons.prems(2) by (simp add: conn_ok_def)
      then have p: "buffer_ok (consume ?n (out_buf c))" "readable (consume ?n (out_buf c)) = drop ?n ?d"
        using bq.pop_law [of "out_buf c" ?n] by simp_all
      have "send_loop rest (sent @ take ?n ?d) (c\<lparr>out_buf := consume ?n (out_buf c)\<rparr>) = (go_on, sent', c')"
        using Cons.prems(1) False SendData by (simp add: send_loop_Cons Let_def)
      from Cons.IH [OF this] Cons.prems(2) p show ?thesis by (simp add: conn_ok_def)
    qed (use Cons False in \<open>auto simp: send_loop_Cons conn_ok_def\<close>)
  qed
qed

text \<open>Receiving moves bytes from the socket to the end of the input buffer and nothing else.\<close>

lemma recv_loop_conserves:
  assumes "recv_loop answers pending c = Some (Inr (go_on, pending', c'))" and "conn_ok c"
  shows "conn_ok c' \<and> readable (in_buf c') @ pending' = readable (in_buf c) @ pending \<and> out_buf c' = out_buf c \<and>
         (go_on \<longrightarrow> conn_closed c' = conn_closed c)"
  using assms
proof (induction answers arbitrary: pending c)
  case (Nil pending c)
  have "buffer_ok (in_buf c)" using Nil.prems(2) by (simp add: conn_ok_def)
  with Nil.prems ensure_writable_cases [of "in_buf c" 4096] show ?case
    by (auto simp: recv_loop_Nil conn_ok_def)
next
  case (Cons a rest)
  have b: "buffer_ok (in_buf c)" using Cons.prems(2) by (simp add: conn_ok_def)
  from Cons.prems(1) obtain b1 where "ensure_writable 4096 (in_buf c) = Some (Inr b1)"
    by (simp add: recv_loop_Cons split: option.splits sum.splits)
  with ensure_writable_cases [OF b, of 4096] have e: "ensure_writable 4096 (in_buf c) = Some (Inr b1)"
    "buffer_ok b1" "readable b1 = readable (in_buf c)" by auto
  have c1: "conn_ok (c\<lparr>in_buf := b1\<rparr>)" using Cons.prems(2) e(2) by (simp add: conn_ok_def)
  show ?case
  proof (cases a)
    case (RecvData k)
    show ?thesis
    proof (cases "pending = []")
      case True
      with Cons.prems RecvData e c1 show ?thesis by (auto simp: recv_loop_Cons)
    next
      case False
      let ?n = "min (max 1 k) (min (length pending) (writable_size b1))"
      let ?b = "commit_write ?n (poke (take ?n pending) b1)"
      have "length (take ?n pending) = ?n" by simp
      with write_ok [OF e(2), of "take ?n pending"] have w: "buffer_ok ?b" "readable ?b = readable b1 @ take ?n pending"
        by simp_all
      have "recv_loop rest (drop ?n pending) (c\<lparr>in_buf := ?b\<rparr>) = Some (Inr (go_on, pending', c'))"
        using Cons.prems(1) False RecvData e(1) by (simp add: recv_loop_Cons Let_def)
      from Cons.IH [OF this] Cons.prems(2) w e(3) show ?thesis by (simp add: conn_ok_def)
    qed
  next
    case RecvIntr
    with Cons.prems(1) e(1) have "recv_loop rest pending (c\<lparr>in_buf := b1\<rparr>) = Some (Inr (go_on, pending', c'))"
      by (simp add: recv_loop_Cons)
    from Cons.IH [OF this c1] e(3) show ?thesis by simp
  qed (use Cons.prems e c1 in \<open>auto simp: recv_loop_Cons conn_ok_def\<close>)
qed

section \<open>Executing a pipeline\<close>

text \<open>The sequential specification: execute the requests one after the other and collect the replies.\<close>

fun serve ::
  "externals \<Rightarrow> float_env \<Rightarrow> (nat \<Rightarrow> command_times) \<Rightarrow> resp_value list \<Rightarrow> server_state \<Rightarrow> nat \<Rightarrow>
   (string \<times> server_state) result" where
  "serve e E tms [] st i = Inr ([], st)"
| "serve e E tms (r # rs) st i =
     rbind (dispatch e (t_cmd (tms i)) r (st_store st)) (\<lambda>(reply, s').
     rbind (record_latency E (tms i) (st_metrics st)) (\<lambda>m'.
     rbind (serve e E tms rs (st\<lparr>st_store := s', st_metrics := m'\<rparr>) (i + 1)) (\<lambda>(out, st').
       Inr (reply @ out, st'))))"

text \<open>Commands at the front of the input buffer are executed, whatever follows them.\<close>

lemma process_loop_step:
  assumes "buffer_ok (in_buf c)" and "decimal_fmt e" and "length as \<le> vec_max e"
    and "readable (in_buf c) = array e as @ rest"
  obtains b where "buffer_ok b" "readable b = rest"
    "process_loop e E tms c st batch i =
       (case dispatch e (t_cmd (tms i)) (request as) (st_store st) of
          Inl f \<Rightarrow> Some (Inl f)
        | Inr (reply, s') \<Rightarrow>
            if mem_limit e < length (batch @ reply) then Some (Inl BadAlloc)
            else (case record_latency E (tms i) (st_metrics st) of
               Inl f \<Rightarrow> Some (Inl f)
             | Inr m' \<Rightarrow> process_loop e E tms (c\<lparr>in_buf := b\<rparr>) (st\<lparr>st_store := s', st_metrics := m'\<rparr>)
                           (batch @ reply) (i + 1)))"
proof -
  have len: "length (readable (in_buf c)) < 2 ^ 63"
    using assms(1) length_readable [OF assms(1)] by (auto simp: buffer_ok_def readable_size_def MAX_CAP_def)
  let ?b = "consume (length (array e as)) (in_buf c)"
  have "buffer_ok ?b" "readable ?b = rest"
    using bq.pop_law [OF assms(1), of "length (array e as)"] assms(4) by simp_all
  moreover have "parse e (readable (in_buf c)) = Inr (parsed (request as) (length (array e as)))"
    using parse_array_bulks [OF assms(2,3), of rest] len assms(4) by (simp add: request_def)
  moreover have "readable (in_buf c) \<noteq> []"
    using assms(4) resp.enc_not_Nil [of as e] assms(3) by auto
  ultimately show ?thesis by (intro that [of ?b]) (auto simp: process_loop.simps [of e E tms c] split: sum.splits)
qed

lemma process_loop_serves:
  assumes "buffer_ok (in_buf c)" and "decimal_fmt e" and "\<forall>as\<in>set ass. length as \<le> vec_max e"
    and "readable (in_buf c) = concat (map (array e) ass) @ rest"
    and "serve e E tms (map request ass) st i = Inr (out, st')" and "length (batch @ out) \<le> mem_limit e"
  shows "\<exists>b. buffer_ok b \<and> readable b = rest \<and>
           process_loop e E tms c st batch i = process_loop e E tms (c\<lparr>in_buf := b\<rparr>) st' (batch @ out) (i + length ass)"
  using assms(1,3-)
proof (induction ass arbitrary: c st batch i out)
  case Nil
  then show ?case by (intro exI [of _ "in_buf c"]) simp
next
  case (Cons as ass)
  let ?rest = "concat (map (array e) ass) @ rest"
  have as: "readable (in_buf c) = array e as @ ?rest" "length as \<le> vec_max e" using Cons.prems by simp_all
  obtain b where b: "buffer_ok b" "readable b = ?rest"
    "process_loop e E tms c st batch i =
       (case dispatch e (t_cmd (tms i)) (request as) (st_store st) of
          Inl f \<Rightarrow> Some (Inl f)
        | Inr (reply, s') \<Rightarrow>
            if mem_limit e < length (batch @ reply) then Some (Inl BadAlloc)
            else (case record_latency E (tms i) (st_metrics st) of
               Inl f \<Rightarrow> Some (Inl f)
             | Inr m' \<Rightarrow> process_loop e E tms (c\<lparr>in_buf := b\<rparr>) (st\<lparr>st_store := s', st_metrics := m'\<rparr>)
                           (batch @ reply) (i + 1)))"
    by (rule process_loop_step [OF Cons.prems(1) assms(2) as(2,1), of E tms st batch i])
  from Cons.prems(4) obtain reply s1 m1 out1 where
    r: "dispatch e (t_cmd (tms i)) (request as) (st_store st) = Inr (reply, s1)"
       "record_latency E (tms i) (st_metrics st) = Inr m1"
       "serve e E tms (map request ass) (st\<lparr>st_store := s1, st_metrics := m1\<rparr>) (Suc i) = Inr (out1, st')"
       "out = reply @ out1"
    by (auto split: prod.splits)
  have dbl: "c\<lparr>in_buf := b\<rparr>\<lparr>in_buf := b'\<rparr> = c\<lparr>in_buf := b'\<rparr>" for b' by simp
  from Cons.IH [of "c\<lparr>in_buf := b\<rparr>" _ _ out1 "batch @ reply", unfolded dbl, OF _ _ _ r(3)] b(1,2) Cons.prems(2,5) r(4)
  obtain b' where "buffer_ok b'" "readable b' = rest"
    "process_loop e E tms (c\<lparr>in_buf := b\<rparr>) (st\<lparr>st_store := s1, st_metrics := m1\<rparr>) (batch @ reply) (Suc i) =
       process_loop e E tms (c\<lparr>in_buf := b'\<rparr>) st' ((batch @ reply) @ out1) (Suc i + length ass)" by auto
  with b(3) r Cons.prems(5) show ?case by (intro exI [of _ b']) simp
qed

lemma process_loop_returns:
  assumes "conn_ok c"
  shows "\<exists>r. process_loop e E tms c st batch i = Some r"
  using assms
proof (induction "length (readable (in_buf c))" arbitrary: c st batch i rule: less_induct)
  case less
  note b = less.prems [unfolded conn_ok_def, THEN conjunct1]
  have len: "length (readable (in_buf c)) < 2 ^ 63"
    using b length_readable [OF b] by (auto simp: buffer_ok_def readable_size_def MAX_CAP_def)
  have step: "\<exists>r. process_loop e E tms (c\<lparr>in_buf := consume (consumed res) (in_buf c)\<rparr>) st' batch' (i + 1) = Some r"
    if "parse e (readable (in_buf c)) = Inr res" "status res = Ok" for res st' batch'
  proof (rule less.hyps)
    note p = parse_progress_all(1) [OF that len]
    from bq.pop_law [OF b, of "consumed res"] p less.prems
    show "length (readable (in_buf (c\<lparr>in_buf := consume (consumed res) (in_buf c)\<rparr>))) < length (readable (in_buf c))"
      and "conn_ok (c\<lparr>in_buf := consume (consumed res) (in_buf c)\<rparr>)" by (auto simp: conn_ok_def)
  qed
  have "length (error ''protocol error'') < 2 ^ 60" by (simp add: error_def crlf_def)
  with append_cases [of "out_buf c" "error ''protocol error''"] less.prems
  have w: "\<exists>r. write_response (error ''protocol error'') c = Some r"
    by (auto simp: write_response_def conn_ok_def)
  show ?case
  proof (cases "parse e (readable (in_buf c))")
    case (Inl f)
    then show ?thesis by (simp add: process_loop.simps [of e E tms c])
  next
    case (Inr res)
    with step [OF Inr] w show ?thesis
      by (cases "status res") (auto simp: process_loop.simps [of e E tms c] split: sum.splits prod.splits)
  qed
qed

lemma write_response_ok:
  assumes "conn_ok c" and "2 * (length (readable (out_buf c)) + length r) \<le> MAX_CAP"
  obtains c' where "write_response r c = Some (Inr c')" "conn_ok c'" "in_buf c' = in_buf c"
    "conn_closed c' = conn_closed c" "readable (out_buf c') = readable (out_buf c) @ r"
proof -
  have "length r < 2 ^ 60" using assms(2) by (simp add: MAX_CAP_def)
  with append_cases [of "out_buf c" r] assms obtain b where "append_data r (out_buf c) = Some (Inr b)" "buffer_ok b"
    "readable b = readable (out_buf c) @ r" by (auto simp: conn_ok_def)
  with assms(1) that [of "c\<lparr>out_buf := b\<rparr>"] show ?thesis by (simp add: write_response_def conn_ok_def)
qed

lemma process_commands_pipeline:
  assumes "conn_ok c" and "decimal_fmt e" and "\<forall>as\<in>set ass. length as \<le> vec_max e"
    and "readable (in_buf c) = concat (map (array e) ass) @ rest"
    and "rest = [] \<or> (\<exists>r. parse e rest = Inr r \<and> status r = Incomplete)"
    and "serve e E tms (map request ass) st 0 = Inr (out, st')" and "length out \<le> mem_limit e"
    and "2 * (length (readable (out_buf c)) + length out) \<le> MAX_CAP"
  obtains c' where "process_commands e E tms c st = Some (Inr (c', st'))" "conn_ok c'"
    "conn_closed c' = conn_closed c" "readable (in_buf c') = rest" "readable (out_buf c') = readable (out_buf c) @ out"
proof -
  from assms(1) have "buffer_ok (in_buf c)" by (simp add: conn_ok_def)
  from process_loop_serves [OF this assms(2-4,6), of "[]"] assms(7) obtain b where
    b: "buffer_ok b" "readable b = rest"
      "process_loop e E tms c st [] 0 = process_loop e E tms (c\<lparr>in_buf := b\<rparr>) st' out (length ass)" by auto
  have "process_loop e E tms (c\<lparr>in_buf := b\<rparr>) st' out (length ass) = Some (Inr (False, c\<lparr>in_buf := b\<rparr>, st', out))"
    using assms(5) b(2) by (subst process_loop.simps) auto
  with b(3) have loop: "process_loop e E tms c st [] 0 = Some (Inr (False, c\<lparr>in_buf := b\<rparr>, st', out))" by simp
  have ok: "conn_ok (c\<lparr>in_buf := b\<rparr>)" using assms(1) b(1) by (simp add: conn_ok_def)
  show ?thesis
  proof (cases "out = []")
    case True
    with loop ok b(2) that show ?thesis by (simp add: process_commands_def)
  next
    case False
    from write_response_ok [OF ok, of out] assms(8) obtain c' where
      "write_response out (c\<lparr>in_buf := b\<rparr>) = Some (Inr c')" "conn_ok c'" "in_buf c' = b"
      "conn_closed c' = conn_closed c" "readable (out_buf c') = readable (out_buf c) @ out" by auto
    with loop False b(2) that show ?thesis by (simp add: process_commands_def)
  qed
qed

lemma on_readable_serves:
  assumes "conn_ok c" and "\<not> conn_closed c" and "decimal_fmt e" and "\<forall>as\<in>set ass. length as \<le> vec_max e"
    and "recv_loop answers pending c = Some (Inr (True, [], c1))"
    and "readable (in_buf c) @ pending = concat (map (array e) ass) @ rest"
    and "rest = [] \<or> (\<exists>r. parse e rest = Inr r \<and> status r = Incomplete)"
    and "serve e E tms (map request ass) st 0 = Inr (out, st')" and "length out \<le> mem_limit e"
    and "2 * (length (readable (out_buf c)) + length out) \<le> MAX_CAP"
  shows "\<exists>c'. on_readable e E tms answers pending c st = Some (Inr (True, [], c', st')) \<and> conn_ok c' \<and>
              readable (in_buf c') = rest \<and> readable (out_buf c') = readable (out_buf c) @ out"
proof -
  from recv_loop_conserves [OF assms(5,1)] have r: "conn_ok c1" "readable (in_buf c1) = readable (in_buf c) @ pending"
    "out_buf c1 = out_buf c" "\<not> conn_closed c1" using assms(2) by simp_all
  have "readable (in_buf c1) = concat (map (array e) ass) @ rest" using r(2) assms(6) by simp
  from process_commands_pipeline [OF r(1) assms(3,4) this assms(7-9)] assms(10) r(3) obtain c' where
    "process_commands e E tms c1 st = Some (Inr (c', st'))" "conn_ok c'" "conn_closed c' = conn_closed c1"
    "readable (in_buf c') = rest" "readable (out_buf c') = readable (out_buf c) @ out" by auto
  with assms(5) r(4) show ?thesis by (simp add: on_readable_def)
qed

section \<open>A concrete server for the examples\<close>

definition sample_float :: float_env where
  "sample_float = \<lparr>fl = (\<lambda>x. x), fmt_fixed = (\<lambda>_ _. ''0'')\<rparr>"

definition sample_times :: "nat \<Rightarrow> command_times" where
  "sample_times i = \<lparr>t_start = 0, t_end = 0, t_cmd = (\<lambda>_. 0)\<rparr>"

definition sample_state :: server_state where
  "sample_state = \<lparr>st_store = store_init 4, st_metrics = metrics_init\<rparr>"

lemma serve_ping:
  "\<exists>st'. serve sample_externals sample_float sample_times (map request [[''ping'']]) sample_state 0 =
           Inr (simple ''PONG'', st')"
proof -
  have "dispatch sample_externals (\<lambda>_. 0) (request [''ping'']) (store_init 4) =
      Inr (simple ''PONG'', store_init 4)" by code_simp
  moreover have "record_latency sample_float (sample_times 0) metrics_init =
      Inr (metrics_init\<lparr>total_commands := 1\<rparr>)"
    by (simp add: record_latency_def sample_times_def sub64_def record_command_def update_latency_ema_def
        truncate64_def sample_float_def metrics_init_def in_int64_def)
  ultimately show ?thesis by (simp add: sample_state_def sample_times_def)
qed

lemma ensure_4096:
  assumes "buffer_ok b" and "2 * (length (readable b) + 4096) \<le> MAX_CAP"
  obtains b' where "ensure_writable 4096 b = Some (Inr b')" "buffer_ok b'" "readable b' = readable b"
    "4096 \<le> writable_size b'"
  using ensure_writable_cases [OF assms(1), of 4096] assms(2) by auto

lemma recv_data:
  assumes "conn_ok c" and "pending \<noteq> []" and "length pending \<le> 4096"
    and "2 * (length (readable (in_buf c)) + 4096) \<le> MAX_CAP"
  obtains b where "recv_loop (RecvData (length pending) # rest) pending c = recv_loop rest [] (c\<lparr>in_buf := b\<rparr>)"
    "buffer_ok b" "readable b = readable (in_buf c) @ pending"
proof -
  from assms(1,4) obtain b' where b': "ensure_writable 4096 (in_buf c) = Some (Inr b')" "buffer_ok b'"
    "readable b' = readable (in_buf c)" "4096 \<le> writable_size b'" by (auto simp: conn_ok_def intro: ensure_4096 [of "in_buf c"])
  have n: "min (max 1 (length pending)) (min (length pending) (writable_size b')) = length pending"
    using assms(2,3) b'(4) by (cases pending) auto
  have "length pending \<le> writable_size b'" using assms(3) b'(4) by linarith
  with write_ok [OF b'(2) this] b'(1,3) n assms(2) that [of "commit_write (length pending) (poke pending b')"] show ?thesis
    by (simp add: recv_loop_Cons Let_def)
qed

lemma recv_all:
  assumes "conn_ok c" and "pending \<noteq> []" and "length pending \<le> 4096"
    and "2 * (length (readable (in_buf c)) + 8192) \<le> MAX_CAP"
  shows "\<exists>c1. recv_loop [RecvIntr, RecvData (length pending)] pending c = Some (Inr (True, [], c1))"
proof -
  from assms(1,4) obtain b where b: "ensure_writable 4096 (in_buf c) = Some (Inr b)" "buffer_ok b"
    "readable b = readable (in_buf c)" by (auto simp: conn_ok_def intro: ensure_4096 [of "in_buf c"])
  then have "conn_ok (c\<lparr>in_buf := b\<rparr>)" using assms(1) by (simp add: conn_ok_def)
  from recv_data [OF this assms(2,3), of "[]"] b(3) assms(4) obtain b' where
    b': "recv_loop [RecvData (length pending)] pending (c\<lparr>in_buf := b\<rparr>) = recv_loop [] [] (c\<lparr>in_buf := b'\<rparr>)"
    "buffer_ok b'" "readable b' = readable (in_buf c) @ pending" by auto
  from ensure_4096 [OF b'(2)] b'(3) assms(3,4) obtain b'' where "ensure_writable 4096 b' = Some (Inr b'')" by auto
  with b(1) b'(1) show ?thesis by (simp add: recv_loop_Cons recv_loop_Nil)
qed

text \<open>
  The end of the stream discards what came before it: bytes that are read by the same call as the end of
  the stream are neither executed nor answered, even if they are complete commands.
\<close>

lemma close_discards_commands:
  assumes "conn_ok c" and "pending \<noteq> []" and "length pending \<le> 4096"
    and "2 * (length (readable (in_buf c)) + 8192) \<le> MAX_CAP"
  shows "\<exists>c'. on_readable e E tms [RecvData (length pending), RecvClosed] pending c st = Some (Inr (False, [], c', st)) \<and>
              conn_closed c' \<and> readable (in_buf c') = readable (in_buf c) @ pending \<and> out_buf c' = out_buf c"
proof -
  from recv_data [OF assms(1-3), of "[RecvClosed]"] assms(4) obtain b where
    b: "recv_loop [RecvData (length pending), RecvClosed] pending c = recv_loop [RecvClosed] [] (c\<lparr>in_buf := b\<rparr>)"
    "buffer_ok b" "readable b = readable (in_buf c) @ pending" by auto
  from ensure_4096 [OF b(2)] b(3) assms(3,4) obtain b' where "ensure_writable 4096 b = Some (Inr b')" "readable b' = readable b"
    by auto
  with b(1,3) show ?thesis by (simp add: on_readable_def recv_loop_Cons)
qed

section \<open>Properties\<close>

text \<open>
  C4: Pipelining and fragmentation. However the kernel cuts the byte stream into pieces, if what was
  already buffered plus what is read makes up a number of complete commands followed by an
  incomplete one, then one \<open>on_readable\<close> executes exactly those commands in order, queues their replies
  in the same order behind the replies already waiting, keeps the incomplete rest buffered, and
  leaves the connection open.
\<close>

theorem on_readable_pipeline:
  assumes "conn_ok c" and "\<not> conn_closed c" and "decimal_fmt e" and "\<forall>as\<in>set ass. length as \<le> vec_max e"
    and "recv_loop answers pending c = Some (Inr (True, [], c1))"
    and "readable (in_buf c) @ pending = concat (map (array e) ass) @ rest"
    and "rest = [] \<or> (\<exists>r. parse e rest = Inr r \<and> status r = Incomplete)"
    and "serve e E tms (map request ass) st 0 = Inr (out, st')" and "length out \<le> mem_limit e"
    and "2 * (length (readable (out_buf c)) + length out) \<le> MAX_CAP"
  shows "\<exists>c'. on_readable e E tms answers pending c st = Some (Inr (True, [], c', st')) \<and> conn_ok c' \<and>
              readable (in_buf c') = rest \<and> readable (out_buf c') = readable (out_buf c) @ out"
  using assms by (rule on_readable_serves)

theorem on_readable_pipeline_witness:
  "\<exists>c' st'. on_readable sample_externals sample_float sample_times [RecvIntr, RecvData 18]
       (array sample_externals [''ping''] @ ''*2'' @ crlf) (connection_init 7) sample_state = Some (Inr (True, [], c', st')) \<and>
     readable (in_buf c') = ''*2'' @ crlf \<and> readable (out_buf c') = simple ''PONG''"
proof -
  let ?p = "array sample_externals [''ping''] @ ''*2'' @ crlf"
  have len: "length ?p = 18" by code_simp
  then have "?p \<noteq> []" by auto
  have init: "\<not> conn_closed (connection_init 7)" "readable (in_buf (connection_init 7)) = []"
    "readable (out_buf (connection_init 7)) = []" by (simp_all add: connection_init_def)
  with recv_all [OF conn_ok_init \<open>?p \<noteq> []\<close>, of 7] len obtain c1 where
    "recv_loop [RecvIntr, RecvData 18] ?p (connection_init 7) = Some (Inr (True, [], c1))"
    by (auto simp: MAX_CAP_def)
  moreover have "parse sample_externals (''*2'' @ crlf) = Inr incomplete" by code_simp
  moreover obtain st' where "serve sample_externals sample_float sample_times (map request [[''ping'']]) sample_state 0 =
      Inr (simple ''PONG'', st')" using serve_ping by blast
  moreover have "length (simple ''PONG'') \<le> mem_limit sample_externals"
    by (simp add: simple_def crlf_def sample_externals_def)
  moreover have "2 * (length (readable (out_buf (connection_init 7))) + length (simple ''PONG'')) \<le> MAX_CAP"
    by (simp add: init simple_def crlf_def MAX_CAP_def)
  moreover have "\<forall>as\<in>set [[''ping'']]. length as \<le> vec_max sample_externals" by (simp add: sample_externals_def)
  ultimately show ?thesis
    using on_readable_pipeline [OF conn_ok_init init(1) decimal_fmt_sample, of "[[''ping'']]" "[RecvIntr, RecvData 18]" ?p
        c1 "''*2'' @ crlf" sample_float sample_times sample_state "simple ''PONG''"] init(2,3)
    by auto
qed

text \<open>
  C37: The drain loop ends. On every well-formed connection, whatever bytes its input buffer holds,
  the loop of \<open>process_commands\<close> returns: every successful parse consumes input.
\<close>

theorem process_loop_terminates:
  assumes "conn_ok c"
  shows "\<exists>r. process_loop e E tms c st batch_resp i = Some r"
  using assms by (rule process_loop_returns)

theorem process_loop_terminates_witness:
  "\<exists>r. process_loop sample_externals sample_float sample_times (connection_init 7) sample_state [] 0 = Some r"
  using process_loop_terminates [OF conn_ok_init] by blast

text \<open>
  Flushing. Whatever the kernel answers, \<open>on_writable\<close> only moves bytes from the front of the
  output buffer to the peer: what was sent followed by what is still queued is what was queued
  before, and the input side is untouched.
\<close>

theorem on_writable_conserves:
  assumes "conn_ok c" and "on_writable answers c = (go_on, sent, c')"
  shows "sent @ readable (out_buf c') = readable (out_buf c) \<and> conn_ok c' \<and> in_buf c' = in_buf c"
  using send_loop_conserves [of answers "[]" c go_on sent c'] assms by (simp add: on_writable_def)

theorem on_writable_conserves_witness:
  "\<exists>b c'. readable b = ''+OK'' \<and>
     on_writable [SendData 2, SendAgain] ((connection_init 7)\<lparr>out_buf := b\<rparr>) = (True, ''+O'', c') \<and>
     ''+O'' @ readable (out_buf c') = ''+OK''"
proof -
  have "length ''+OK'' \<le> writable_size buffer_init"
    by (simp add: writable_size_def buffer_init_def INITIAL_CAP_def)
  then obtain b where b: "buffer_ok b" "readable b = ''+OK''"
    using write_ok [OF buffer_ok_init(1), of "''+OK''"] by auto
  let ?c = "(connection_init 7)\<lparr>out_buf := b\<rparr>"
  let ?c' = "?c\<lparr>out_buf := consume (Suc (Suc 0)) b\<rparr>"
  have o: "on_writable [SendData 2, SendAgain] ?c = (True, ''+O'', ?c')"
    using b by (simp add: on_writable_def send_loop_Cons buffer_empty_iff Let_def)
  have "conn_ok ?c" using b(1) by (simp add: conn_ok_sel)
  from on_writable_conserves [OF this o] b o show ?thesis by auto
qed

text \<open>
  A protocol error discards replies. If complete commands are followed by a byte sequence that is
  a protocol error, the commands are executed, but their replies are dropped: only the error message
  is queued, and the connection is marked closed.
\<close>

theorem protocol_error_drops_replies:
  assumes "conn_ok c" and "decimal_fmt e" and "\<forall>as\<in>set ass. length as \<le> vec_max e"
    and "readable (in_buf c) = concat (map (array e) ass) @ junk"
    and "junk \<noteq> []" and "parse e junk = Inr r" and "status r = Error"
    and "serve e E tms (map request ass) st 0 = Inr (out, st')" and "length out \<le> mem_limit e"
    and "2 * (length (readable (out_buf c)) + 21) \<le> MAX_CAP"
  shows "\<exists>c'. process_commands e E tms c st = Some (Inr (c', st')) \<and> conn_closed c' \<and>
              readable (out_buf c') = readable (out_buf c) @ error ''protocol error''"
proof -
  from assms(1) have "buffer_ok (in_buf c)" by (simp add: conn_ok_def)
  from process_loop_serves [OF this assms(2-4,8), of "[]"] assms(9) obtain b where
    b: "buffer_ok b" "readable b = junk"
      "process_loop e E tms c st [] 0 = process_loop e E tms (c\<lparr>in_buf := b\<rparr>) st' out (length ass)" by auto
  have ok: "conn_ok (c\<lparr>in_buf := b\<rparr>)" using assms(1) b(1) by (simp add: conn_ok_def)
  have "length (error ''protocol error'') = 21" by (simp add: error_def crlf_def)
  with write_response_ok [OF ok, of "error ''protocol error''"] assms(10) obtain c' where
    "write_response (error ''protocol error'') (c\<lparr>in_buf := b\<rparr>) = Some (Inr c')"
    "readable (out_buf c') = readable (out_buf c) @ error ''protocol error''" by auto
  then have "process_loop e E tms (c\<lparr>in_buf := b\<rparr>) st' out (length ass) =
      Some (Inr (True, c'\<lparr>conn_closed := True\<rparr>, st', out))"
    using assms(5-7) b(2) by (subst process_loop.simps) simp
  with b(3) \<open>readable (out_buf c') = _\<close> show ?thesis by (simp add: process_commands_def)
qed

theorem protocol_error_drops_replies_witness:
  "\<exists>b c' st'. buffer_ok b \<and> readable b = array sample_externals [''ping''] @ ''!'' \<and>
     process_commands sample_externals sample_float sample_times ((connection_init 7)\<lparr>in_buf := b\<rparr>) sample_state =
       Some (Inr (c', st')) \<and>
     conn_closed c' \<and> readable (out_buf c') = error ''protocol error''"
proof -
  let ?d = "array sample_externals [''ping''] @ ''!''"
  have "length ?d = 15" by code_simp
  with append_cases [of buffer_init ?d] obtain b where b: "buffer_ok b" "readable b = ?d"
    by (auto simp: MAX_CAP_def)
  let ?c = "(connection_init 7)\<lparr>in_buf := b\<rparr>"
  have c: "conn_ok ?c" "readable (in_buf ?c) = concat (map (array sample_externals) [[''ping'']]) @ ''!''"
    "readable (out_buf ?c) = []"
    using b by (simp_all add: conn_ok_def connection_init_def)
  have v: "\<forall>as\<in>set [[''ping'']]. length as \<le> vec_max sample_externals" by (simp add: sample_externals_def)
  have p: "parse sample_externals ''!'' = Inr protocol_error" by code_simp
  obtain st' where "serve sample_externals sample_float sample_times (map request [[''ping'']]) sample_state 0 =
      Inr (simple ''PONG'', st')" using serve_ping by blast
  moreover have "length (simple ''PONG'') \<le> mem_limit sample_externals"
    by (simp add: simple_def crlf_def sample_externals_def)
  note protocol_error_drops_replies [OF c(1) decimal_fmt_sample v c(2) _ p _ calculation this]
  then
  have "\<exists>c'. process_commands sample_externals sample_float sample_times ?c sample_state = Some (Inr (c', st')) \<and>
      conn_closed c' \<and> readable (out_buf c') = readable (out_buf ?c) @ error ''protocol error''"
    using c(3) by (simp add: MAX_CAP_def)
  with b c(3) show ?thesis by auto
qed

end
