(* ===== verification/Connection_Safety.thy ===== *)
theory Connection_Safety
  imports Connection
begin

text \<open>
  What a connection handler can do at worst. Whatever the peer sends and whatever the kernel answers,
  reading from a connection returns, keeps the invariants of the buffers and of the store, and fails
  only by one of the exceptions and overflows listed in \<open>server_fault\<close>: never by touching a dangling
  recency node or by reading memory that was not written.
\<close>

section \<open>Outcomes of computations that may not return\<close>

definition returns :: "(fault \<Rightarrow> bool) \<Rightarrow> ('a \<Rightarrow> bool) \<Rightarrow> 'a result option \<Rightarrow> bool" where
  "returns F P r = (case r of None \<Rightarrow> False | Some x \<Rightarrow> outcome F P x)"

lemma returns_simps [simp]:
  "\<not> returns F P None"
  "returns F P (Some (Inl f)) = F f"
  "returns F P (Some (Inr x)) = P x"
  by (simp_all add: returns_def)

lemma returns_cases:
  assumes "returns F P r"
  obtains (fails) f where "r = Some (Inl f)" "F f" | (result) x where "r = Some (Inr x)" "P x"
  using assms by (auto simp: returns_def outcome_def split: option.splits sum.splits)

definition server_fault :: "externals \<Rightarrow> fault \<Rightarrow> bool" where
  "server_fault e f \<longleftrightarrow>
     f = SignedOverflow \<or> (f = InvalidRange \<and> \<not> left_to_right e) \<or> f = BadConversion \<or>
     f = LengthError \<or> f = BadAlloc \<or> (\<exists>msg. f = RuntimeError msg)"

lemma server_faultI [simp, intro]:
  "language_fault e f \<Longrightarrow> server_fault e f"
  "server_fault e SignedOverflow" "server_fault e BadConversion" "server_fault e LengthError"
  "server_fault e BadAlloc" "server_fault e (RuntimeError msg)"
  by (auto simp: server_fault_def language_fault_def)

section \<open>The handlers of a connection\<close>

definition same_conn :: "connection \<Rightarrow> connection \<Rightarrow> bool" where
  "same_conn c c' \<longleftrightarrow> conn_ok c' \<and> conn_fd c' = conn_fd c"

lemma write_response_safe:
  assumes "conn_ok c" and "length r < 2 ^ 60"
  shows "returns (server_fault e) (\<lambda>c'. same_conn c c' \<and> conn_closed c' = conn_closed c) (write_response r c)"
  using append_cases [of "out_buf c" r] assms by (auto simp: write_response_def conn_ok_def same_conn_def)

lemma record_latency_fault: "record_latency E t m = Inl f \<Longrightarrow> server_fault e f"
  by (auto simp: record_latency_def rbind_eq_Inl sub64_def dest: record_command_fault split: if_splits)

definition loop_result :: "externals \<Rightarrow> connection \<Rightarrow> bool \<times> connection \<times> server_state \<times> string \<Rightarrow> bool" where
  "loop_result e c = (\<lambda>(returned, c', st', batch).
     same_conn c c' \<and> store_ok e (st_store st') \<and> length batch \<le> mem_limit e \<and>
     (returned \<or> conn_closed c' = conn_closed c))"

lemma process_loop_safe:
  assumes "conn_ok c" and "store_ok e (st_store st)" and "length batch \<le> mem_limit e"
  shows "returns (server_fault e) (loop_result e c) (process_loop e E tms c st batch i)"
  using assms
proof (induction "length (readable (in_buf c))" arbitrary: c st batch i rule: less_induct)
  case less
  note b = less.prems(1) [unfolded conn_ok_def, THEN conjunct1]
  have len: "length (readable (in_buf c)) < 2 ^ 63"
    using b length_readable [OF b] by (auto simp: buffer_ok_def readable_size_def MAX_CAP_def)
  note unfold = process_loop.simps [of e E tms c st batch i]
  consider "readable (in_buf c) = []" | (fault) f where "readable (in_buf c) \<noteq> []" "parse e (readable (in_buf c)) = Inl f"
    | (parsed) res where "readable (in_buf c) \<noteq> []" "parse e (readable (in_buf c)) = Inr res"
    by (cases "parse e (readable (in_buf c))") auto
  then show ?case
  proof cases
    case 1
    with less.prems show ?thesis by (simp add: unfold loop_result_def same_conn_def)
  next
    case fault
    then show ?thesis by (auto simp: unfold dest: parse_fault_all(1))
  next
    case parsed
    have "length (error ''protocol error'') < 2 ^ 60" by (simp add: error_def crlf_def)
    note w = write_response_safe [OF less.prems(1) this, of e]
    have step: "returns (server_fault e) (loop_result e c)
        (process_loop e E tms (c\<lparr>in_buf := consume (consumed res) (in_buf c)\<rparr>) st' batch' (i + 1))"
      if "status res = Ok" "store_ok e (st_store st')" "length batch' \<le> mem_limit e" for st' batch'
    proof -
      let ?c = "c\<lparr>in_buf := consume (consumed res) (in_buf c)\<rparr>"
      from bq.pop_law [OF b, of "consumed res"] parse_progress_all(1) [OF parsed(2) that(1) len] less.prems(1)
      have "length (readable (in_buf ?c)) < length (readable (in_buf c))" "conn_ok ?c" by (auto simp: conn_ok_def)
      from less.hyps [OF this that(2,3)] show ?thesis
        by (auto simp: returns_def outcome_def loop_result_def same_conn_def split: option.splits sum.splits)
    qed
    show ?thesis
    proof (cases "status res")
      case Ok
      with parsed step [OF Ok] dispatch_outcome [OF less.prems(2), of "res_value res" "t_cmd (tms i)"] show ?thesis
        by (auto simp: unfold outcome_def record_latency_fault split: sum.splits)
    next
      case Incomplete
      with parsed less.prems show ?thesis by (simp add: unfold loop_result_def same_conn_def)
    next
      case Error
      from w show ?thesis
        by (cases rule: returns_cases)
          (use Error parsed less.prems in \<open>auto simp: unfold loop_result_def same_conn_def conn_ok_def\<close>)
    qed
  qed
qed

lemma process_commands_safe:
  assumes "conn_ok c" and "store_ok e (st_store st)" and "mem_limit e < 2 ^ 60"
  shows "returns (server_fault e) (\<lambda>(c', st'). same_conn c c' \<and> store_ok e (st_store st')) (process_commands e E tms c st)"
  using process_loop_safe [OF assms(1,2), of "[]" E tms 0, simplified]
proof (cases rule: returns_cases)
  case (result x)
  obtain returned c' st' batch where x: "x = (returned, c', st', batch)" by (cases x)
  with result have r: "conn_ok c'" "conn_fd c' = conn_fd c" "store_ok e (st_store st')" "length batch < 2 ^ 60"
    using assms(3) by (auto simp: loop_result_def same_conn_def)
  from write_response_safe [OF r(1,4), of e] show ?thesis
    by (cases rule: returns_cases) (use r result x in \<open>auto simp: process_commands_def same_conn_def\<close>)
qed (simp add: process_commands_def)

lemma recv_loop_fd: "recv_loop answers pending c = Some (Inr (go_on, pending', c')) \<Longrightarrow> conn_fd c' = conn_fd c"
proof (induction answers arbitrary: pending c)
  case Nil
  then show ?case by (auto simp: recv_loop_Nil split: option.splits sum.splits)
next
  case (Cons a rest)
  then show ?case
    by (cases a) (fastforce simp: recv_loop_Cons Let_def split: option.splits sum.splits if_splits)+
qed

lemma recv_loop_returns:
  assumes "conn_ok c"
  shows "returns (server_fault e) (\<lambda>_. True) (recv_loop answers pending c)"
  using assms
proof (induction answers arbitrary: pending c)
  case (Nil pending c)
  with ensure_writable_cases [of "in_buf c" 4096] show ?case by (auto simp: recv_loop_Nil conn_ok_def)
next
  case (Cons a rest)
  have b: "buffer_ok (in_buf c)" using Cons.prems by (simp add: conn_ok_def)
  show ?case
  proof (cases "ensure_writable 4096 (in_buf c)")
    case None
    with ensure_writable_cases [OF b, of 4096] show ?thesis by auto
  next
    case (Some r)
    show ?thesis
    proof (cases r)
      case (Inl f)
      with Some ensure_writable_cases [OF b, of 4096] show ?thesis by (auto simp: recv_loop_Cons)
    next
      case (Inr b1)
      with Some ensure_writable_cases [OF b, of 4096] have b1: "buffer_ok b1" by auto
      show ?thesis
      proof (cases a)
        case (RecvData k)
        let ?n = "min (max 1 k) (min (length pending) (writable_size b1))"
        have "conn_ok (c\<lparr>in_buf := commit_write ?n (poke (take ?n pending) b1)\<rparr>)"
          using Cons.prems write_ok [OF b1, of "take ?n pending"] by (simp add: conn_ok_def)
        from Cons.IH [OF this, of "drop ?n pending"] Some Inr RecvData show ?thesis
          by (simp add: recv_loop_Cons Let_def)
      qed (use Cons b1 Some Inr in \<open>auto simp: recv_loop_Cons conn_ok_def\<close>)
    qed
  qed
qed

lemma on_readable_safe:
  assumes "conn_ok c" and "store_ok e (st_store st)" and "mem_limit e < 2 ^ 60"
  shows "returns (server_fault e)
           (\<lambda>(go_on, pending', c', st'). same_conn c c' \<and> store_ok e (st_store st') \<and> (go_on \<longrightarrow> \<not> conn_closed c'))
           (on_readable e E tms answers pending c st)"
  using recv_loop_returns [OF assms(1), of e answers pending]
proof (cases rule: returns_cases)
  case (result x)
  obtain go_on pending' c' where x: "x = (go_on, pending', c')" by (cases x)
  note r = result(1) [unfolded x]
  have c': "conn_ok c'" "conn_fd c' = conn_fd c"
    using recv_loop_conserves [OF r assms(1)] recv_loop_fd [OF r] by simp_all
  from process_commands_safe [OF c'(1) assms(2,3), of E tms] show ?thesis
    by (cases rule: returns_cases) (use r c' assms(2) in \<open>auto simp: on_readable_def same_conn_def\<close>)
qed (simp add: on_readable_def)

lemma on_writable_safe:
  assumes "conn_ok c" and "on_writable answers c = (go_on, sent, c')"
  shows "same_conn c c' \<and> (has_pending_write c' \<longrightarrow> has_pending_write c)"
proof -
  have fd: "send_loop answers sent0 c0 = (go_on, sent', c') \<Longrightarrow> conn_fd c' = conn_fd c0" for sent0 c0 sent'
  proof (induction answers arbitrary: sent0 c0)
    case Nil
    then show ?case by (auto simp: send_loop_Nil split: if_splits)
  next
    case (Cons a rest)
    then show ?case by (cases a) (fastforce simp: send_loop_Cons Let_def split: if_splits)+
  qed
  note s = send_loop_conserves [OF assms(2) [unfolded on_writable_def] assms(1)]
  have "buffer_ok (out_buf c)" "buffer_ok (out_buf c')" using s assms(1) by (auto simp: conn_ok_def)
  with s fd [OF assms(2) [unfolded on_writable_def]] show ?thesis
    by (auto simp: same_conn_def has_pending_write_def buffer_empty_iff)
qed

end
