(* ===== verification/Event_Loop.thy ===== *)
theory Event_Loop
  imports Connection_Safety
begin

text \<open>
  The event loop (\<open>src/src/network/EventLoop.cpp\<close>): the connection table, the interest registered with
  the kernel, the handlers and the rounds of \<open>run\<close>. The platform-independent handlers are written over
  a record of registration operations, which is instantiated by epoll (Linux) and by kqueue (macOS).
  What the kernel answers (the ready events, the answers to \<open>accept\<close>, \<open>recv\<close>, \<open>send\<close> and \<open>fcntl\<close>) is an
  argument; the bytes that go out are part of the result. A socket is closed when its connection object
  leaves the table.
\<close>

section \<open>State\<close>

record 'p event_loop =
  listen_fd :: int
  running :: bool
  connections :: "(int \<times> connection) list"
  interest :: 'p

definition event_loop_init :: "'p \<Rightarrow> 'p event_loop" where
  "event_loop_init p = \<lparr>listen_fd = -1, running = False, connections = [], interest = p\<rparr>"

text \<open>Registration with the kernel: add a descriptor for reading, drop it, ask for write events or not.\<close>

record 'p poller =
  p_add :: "int \<Rightarrow> 'p \<Rightarrow> 'p"
  p_del :: "int \<Rightarrow> 'p \<Rightarrow> 'p"
  p_mod :: "int \<Rightarrow> bool \<Rightarrow> 'p \<Rightarrow> 'p"

section \<open>Registration\<close>

text \<open>The two answers of \<open>fcntl\<close>: whether reading and whether setting the flags worked.\<close>

definition set_nonblocking :: "bool \<Rightarrow> bool \<Rightarrow> unit result" where
  "set_nonblocking get_ok set_ok =
     (if \<not> get_ok then Inl (RuntimeError ''fcntl F_GETFL failed'')
      else if \<not> set_ok then Inl (RuntimeError ''fcntl F_SETFL O_NONBLOCK failed'')
      else Inr ())"

text \<open>\<open>emplace\<close> keeps an entry that is in the table already.\<close>

definition add_connection :: "'p poller \<Rightarrow> bool \<Rightarrow> bool \<Rightarrow> connection \<Rightarrow> 'p event_loop \<Rightarrow> 'p event_loop result" where
  "add_connection P get_ok set_ok conn L =
     rbind (set_nonblocking get_ok set_ok) (\<lambda>_.
       let fd = conn_fd conn; L1 = L\<lparr>interest := p_add P fd (interest L)\<rparr>
       in Inr (if map_of (connections L1) fd = None
               then L1\<lparr>connections := (fd, conn) # connections L1\<rparr> else L1))"

definition remove_connection :: "'p poller \<Rightarrow> int \<Rightarrow> 'p event_loop \<Rightarrow> 'p event_loop" where
  "remove_connection P fd L =
     L\<lparr>interest := p_del P fd (interest L), connections := AList.delete fd (connections L)\<rparr>"

definition update_write_interest :: "'p poller \<Rightarrow> int \<Rightarrow> bool \<Rightarrow> 'p event_loop \<Rightarrow> 'p event_loop" where
  "update_write_interest P fd want_write L = L\<lparr>interest := p_mod P fd want_write (interest L)\<rparr>"

section \<open>Handlers\<close>

datatype accept_answer = AcceptFd int bool bool | AcceptAgain | AcceptIntr | AcceptFail

text \<open>
  The accept loop with the callback of \<open>Server::run\<close>, which counts the connection and always returns
  a connection object.
\<close>

fun handle_accept ::
  "'p poller \<Rightarrow> accept_answer list \<Rightarrow> 'p event_loop \<Rightarrow> server_state \<Rightarrow> ('p event_loop \<times> server_state) result" where
  "handle_accept P [] L st = Inr (L, st)"
| "handle_accept P (AcceptFd cfd get_ok set_ok # rest) L st =
     (let st' = st\<lparr>st_metrics := record_connection_open (st_metrics st)\<rparr> in
      rbind (add_connection P get_ok set_ok (connection_init cfd) L) (\<lambda>L'. handle_accept P rest L' st'))"
| "handle_accept P (AcceptAgain # rest) L st = Inr (L, st)"
| "handle_accept P (AcceptIntr # rest) L st = handle_accept P rest L st"
| "handle_accept P (AcceptFail # rest) L st = Inr (L, st)"

text \<open>The kernel's answers to the calls that the handlers of one event make.\<close>

record answers =
  an_accepts :: "accept_answer list"
  an_recvs :: "recv_answer list"
  an_pending :: string
  an_times :: "nat \<Rightarrow> command_times"
  an_sends :: "send_answer list"

definition handle_readable ::
  "'p poller \<Rightarrow> externals \<Rightarrow> float_env \<Rightarrow> answers \<Rightarrow> int \<Rightarrow> 'p event_loop \<Rightarrow> server_state \<Rightarrow>
   ('p event_loop \<times> server_state) result option" where
  "handle_readable P e E an fd L st =
     (case map_of (connections L) fd of
        None \<Rightarrow> Some (Inr (L, st))
      | Some conn \<Rightarrow>
          (case on_readable e E (an_times an) (an_recvs an) (an_pending an) conn st of
             None \<Rightarrow> None
           | Some (Inl f) \<Rightarrow> Some (Inl f)
           | Some (Inr (go_on, pending, conn', st')) \<Rightarrow>
               let L1 = L\<lparr>connections := AList.update fd conn' (connections L)\<rparr> in
               if \<not> go_on \<or> conn_closed conn' then Some (Inr (remove_connection P fd L1, st'))
               else if has_pending_write conn' then Some (Inr (update_write_interest P fd True L1, st'))
               else Some (Inr (L1, st'))))"

text \<open>The first component of the result is what was sent, with the descriptor it was sent to.\<close>

definition handle_writable :: "'p poller \<Rightarrow> answers \<Rightarrow> int \<Rightarrow> 'p event_loop \<Rightarrow> (int \<times> string) list \<times> 'p event_loop" where
  "handle_writable P an fd L =
     (case map_of (connections L) fd of
        None \<Rightarrow> ([], L)
      | Some conn \<Rightarrow>
          (case on_writable (an_sends an) conn of (go_on, sent, conn') \<Rightarrow>
             let L1 = L\<lparr>connections := AList.update fd conn' (connections L)\<rparr> in
             ([(fd, sent)],
              if \<not> go_on \<or> conn_closed conn' then remove_connection P fd L1
              else if \<not> has_pending_write conn' then update_write_interest P fd False L1
              else L1)))"

section \<open>Rounds\<close>

text \<open>
  One event; the four platform-specific pieces of its treatment (is it an error, is it readable, is it
  writable, and which test comes first) differ between the platforms, so it is an argument of the rounds.
\<close>

type_synonym ('ev, 'p) event_handler =
  "externals \<Rightarrow> float_env \<Rightarrow> 'ev \<Rightarrow> 'p event_loop \<Rightarrow> server_state \<Rightarrow>
   ((int \<times> string) list \<times> 'p event_loop \<times> server_state) result option"

fun poll_once ::
  "('ev, 'p) event_handler \<Rightarrow> externals \<Rightarrow> float_env \<Rightarrow> 'ev list \<Rightarrow> 'p event_loop \<Rightarrow> server_state \<Rightarrow>
   ((int \<times> string) list \<times> 'p event_loop \<times> server_state) result option" where
  "poll_once handle e E [] L st = Some (Inr ([], L, st))"
| "poll_once handle e E (ev # evs) L st =
     (case handle e E ev L st of
        None \<Rightarrow> None
      | Some (Inl f) \<Rightarrow> Some (Inl f)
      | Some (Inr (sent, L', st')) \<Rightarrow>
          (case poll_once handle e E evs L' st' of
             None \<Rightarrow> None
           | Some (Inl f) \<Rightarrow> Some (Inl f)
           | Some (Inr (sent', r)) \<Rightarrow> Some (Inr (sent @ sent', r))))"

definition reap_closed :: "'p poller \<Rightarrow> 'p event_loop \<Rightarrow> 'p event_loop" where
  "reap_closed P L =
     foldl (\<lambda>L fd. remove_connection P fd L) L
       (map fst (filter (\<lambda>(fd, conn). conn_closed conn) (connections L)))"

definition loop_stop :: "'p event_loop \<Rightarrow> 'p event_loop" where
  "loop_stop L = L\<lparr>running := False\<rparr>"

text \<open>
  \<open>run\<close>: the flag is set, then rounds are made while it is set. The list gives for each round the ready
  events and whether \<open>stop\<close> is called during it; it ends when no further round is observed.
\<close>

fun run_rounds ::
  "'p poller \<Rightarrow> ('ev, 'p) event_handler \<Rightarrow> externals \<Rightarrow> float_env \<Rightarrow> ('ev list \<times> bool) list \<Rightarrow> 'p event_loop \<Rightarrow>
   server_state \<Rightarrow> ((int \<times> string) list \<times> 'p event_loop \<times> server_state) result option" where
  "run_rounds P handle e E [] L st = Some (Inr ([], L, st))"
| "run_rounds P handle e E ((evs, stopped) # rounds) L st =
     (if \<not> running L then Some (Inr ([], L, st))
      else case poll_once handle e E evs L st of
             None \<Rightarrow> None
           | Some (Inl f) \<Rightarrow> Some (Inl f)
           | Some (Inr (sent, L', st')) \<Rightarrow>
               let L1 = reap_closed P L' in
               (case run_rounds P handle e E rounds (if stopped then loop_stop L1 else L1) st' of
                  None \<Rightarrow> None
                | Some (Inl f) \<Rightarrow> Some (Inl f)
                | Some (Inr (sent', r)) \<Rightarrow> Some (Inr (sent @ sent', r))))"

definition loop_run ::
  "'p poller \<Rightarrow> ('ev, 'p) event_handler \<Rightarrow> externals \<Rightarrow> float_env \<Rightarrow> ('ev list \<times> bool) list \<Rightarrow> 'p event_loop \<Rightarrow>
   server_state \<Rightarrow> ((int \<times> string) list \<times> 'p event_loop \<times> server_state) result option" where
  "loop_run P handle e E rounds L st = run_rounds P handle e E rounds (L\<lparr>running := True\<rparr>) st"

section \<open>epoll\<close>

text \<open>
  The epoll set: the registered descriptors, and whether \<open>EPOLLOUT\<close> is asked for. Adding a registered
  descriptor and modifying one that is not registered are errors that the code ignores.
\<close>

type_synonym epoll_set = "int \<rightharpoonup> bool"

definition epoll :: "epoll_set poller" where
  "epoll = \<lparr>p_add = (\<lambda>fd p. if p fd = None then p(fd \<mapsto> False) else p),
            p_del = (\<lambda>fd p. p(fd := None)),
            p_mod = (\<lambda>fd want_write p. if p fd = None then p else p(fd \<mapsto> want_write))\<rparr>"

text \<open>The constructor, with the descriptor that \<open>epoll_create1\<close> answers.\<close>

definition epoll_loop_create :: "int \<Rightarrow> epoll_set event_loop result" where
  "epoll_loop_create fd =
     (if fd < 0 then Inl (RuntimeError ''epoll_create1 failed'') else Inr (event_loop_init Map.empty))"

definition epoll_add_listener ::
  "bool \<Rightarrow> bool \<Rightarrow> bool \<Rightarrow> int \<Rightarrow> epoll_set event_loop \<Rightarrow> epoll_set event_loop result" where
  "epoll_add_listener get_ok set_ok add_ok fd L =
     rbind (set_nonblocking get_ok set_ok) (\<lambda>_.
       if \<not> add_ok then Inl (RuntimeError ''epoll_ctl ADD listener failed'')
       else Inr (L\<lparr>listen_fd := fd, interest := p_add epoll fd (interest L)\<rparr>))"

record epoll_event =
  ev_fd :: int
  ev_err :: bool
  ev_in :: bool
  ev_out :: bool
  ev_answers :: answers

definition epoll_event_handler :: "(epoll_event, epoll_set) event_handler" where
  "epoll_event_handler e E ev L st =
     (let fd = ev_fd ev; an = ev_answers ev in
      if fd = listen_fd L then
        (case handle_accept epoll (an_accepts an) L st of
           Inl f \<Rightarrow> Some (Inl f) | Inr (L', st') \<Rightarrow> Some (Inr ([], L', st')))
      else if ev_err ev then Some (Inr ([], remove_connection epoll fd L, st))
      else
        case (if ev_in ev then handle_readable epoll e E an fd L st else Some (Inr (L, st))) of
          None \<Rightarrow> None
        | Some (Inl f) \<Rightarrow> Some (Inl f)
        | Some (Inr (L1, st1)) \<Rightarrow>
            (case (if ev_out ev then handle_writable epoll an fd L1 else ([], L1)) of
               (sent, L2) \<Rightarrow> Some (Inr (sent, L2, st1))))"

section \<open>kqueue\<close>

datatype kq_filter = EVFILT_READ | EVFILT_WRITE

type_synonym kqueue_set = "(int \<times> kq_filter) set"

definition kqueue :: "kqueue_set poller" where
  "kqueue = \<lparr>p_add = (\<lambda>fd q. insert (fd, EVFILT_READ) q),
             p_del = (\<lambda>fd q. q - {(fd, EVFILT_READ)} - {(fd, EVFILT_WRITE)}),
             p_mod = (\<lambda>fd want_write q.
               if want_write then insert (fd, EVFILT_WRITE) q else q - {(fd, EVFILT_WRITE)})\<rparr>"

definition kqueue_loop_create :: "int \<Rightarrow> kqueue_set event_loop result" where
  "kqueue_loop_create fd =
     (if fd < 0 then Inl (RuntimeError ''kqueue() failed'') else Inr (event_loop_init {}))"

definition kqueue_add_listener :: "bool \<Rightarrow> bool \<Rightarrow> int \<Rightarrow> kqueue_set event_loop \<Rightarrow> kqueue_set event_loop result" where
  "kqueue_add_listener get_ok set_ok fd L =
     rbind (set_nonblocking get_ok set_ok) (\<lambda>_.
       Inr (L\<lparr>listen_fd := fd, interest := p_add kqueue fd (interest L)\<rparr>))"

record kqueue_event =
  kev_fd :: int
  kev_error :: bool
  kev_filter :: kq_filter
  kev_answers :: answers

definition kqueue_event_handler :: "(kqueue_event, kqueue_set) event_handler" where
  "kqueue_event_handler e E ev L st =
     (let fd = kev_fd ev; an = kev_answers ev in
      if kev_error ev then Some (Inr ([], remove_connection kqueue fd L, st))
      else if fd = listen_fd L then
        (case handle_accept kqueue (an_accepts an) L st of
           Inl f \<Rightarrow> Some (Inl f) | Inr (L', st') \<Rightarrow> Some (Inr ([], L', st')))
      else
        case (if kev_filter ev = EVFILT_READ then handle_readable kqueue e E an fd L st else Some (Inr (L, st))) of
          None \<Rightarrow> None
        | Some (Inl f) \<Rightarrow> Some (Inl f)
        | Some (Inr (L1, st1)) \<Rightarrow>
            (case (if kev_filter ev = EVFILT_WRITE then handle_writable kqueue an fd L1 else ([], L1)) of
               (sent, L2) \<Rightarrow> Some (Inr (sent, L2, st1))))"

end
