(* ===== verification/Event_Loop_Correct.thy ===== *)
theory Event_Loop_Correct
  imports Event_Loop
begin

text \<open>
  Correctness of the event loop. The contract between the platform-independent handlers and the
  registration with the kernel is a locale; the loop invariant is proved once inside it and holds for
  epoll and for kqueue by interpretation.
\<close>

section \<open>Invariant\<close>

declare map_of_eq_Some_iff [simp del]

text \<open>
  Every connection in the table is under its own descriptor, well-formed and open, it is registered
  with the kernel, and if it has replies to send then write events are asked for: no reply waits
  forever. Conversely only the listener and the connections are registered.
\<close>

definition conn_entry_ok :: "int \<Rightarrow> (int \<rightharpoonup> bool) \<Rightarrow> int \<Rightarrow> connection \<Rightarrow> bool" where
  "conn_entry_ok lfd reg fd c \<longleftrightarrow>
     conn_fd c = fd \<and> fd \<noteq> lfd \<and> conn_ok c \<and> \<not> conn_closed c \<and>
     (case reg fd of None \<Rightarrow> False | Some w \<Rightarrow> has_pending_write c \<longrightarrow> w)"

definition loop_ok :: "('p \<Rightarrow> bool) \<Rightarrow> ('p \<Rightarrow> int \<rightharpoonup> bool) \<Rightarrow> 'p event_loop \<Rightarrow> bool" where
  "loop_ok pok view L \<longleftrightarrow>
     pok (interest L) \<and> distinct (map fst (connections L)) \<and>
     (\<forall>fd c. map_of (connections L) fd = Some c \<longrightarrow> conn_entry_ok (listen_fd L) (view (interest L)) fd c) \<and>
     (\<forall>fd. view (interest L) fd \<noteq> None \<longrightarrow> fd = listen_fd L \<or> map_of (connections L) fd \<noteq> None)"

lemma loop_okD:
  assumes "loop_ok pok view L"
  shows "pok (interest L)" "distinct (map fst (connections L))"
    "map_of (connections L) fd = Some c \<Longrightarrow> conn_entry_ok (listen_fd L) (view (interest L)) fd c"
    "view (interest L) fd \<noteq> None \<Longrightarrow> fd = listen_fd L \<or> map_of (connections L) fd \<noteq> None"
  using assms by (auto simp: loop_ok_def)

lemma loop_ok_running [simp]: "loop_ok pok view (L\<lparr>running := r\<rparr>) = loop_ok pok view L"
  by (simp add: loop_ok_def)

text \<open>A descriptor that \<open>accept\<close> returns is not the listening one.\<close>

definition accepts_ok :: "int \<Rightarrow> answers \<Rightarrow> bool" where
  "accepts_ok lfd an \<longleftrightarrow> (\<forall>cfd a b. AcceptFd cfd a b \<in> set (an_accepts an) \<longrightarrow> cfd \<noteq> lfd)"

text \<open>What a handler and a round leave behind, for a loop with the listening descriptor of \<open>L\<close>.\<close>

definition loop_post ::
  "('p \<Rightarrow> bool) \<Rightarrow> ('p \<Rightarrow> int \<rightharpoonup> bool) \<Rightarrow> externals \<Rightarrow> 'p event_loop \<Rightarrow> 'p event_loop \<times> server_state \<Rightarrow> bool" where
  "loop_post pok view e L =
     (\<lambda>(L', st'). loop_ok pok view L' \<and> listen_fd L' = listen_fd L \<and> store_ok e (st_store st'))"

definition round_post ::
  "('p \<Rightarrow> bool) \<Rightarrow> ('p \<Rightarrow> int \<rightharpoonup> bool) \<Rightarrow> externals \<Rightarrow> 'p event_loop \<Rightarrow>
   (int \<times> string) list \<times> 'p event_loop \<times> server_state \<Rightarrow> bool" where
  "round_post pok view e L = (\<lambda>(sent, r). loop_post pok view e L r)"

section \<open>The contract of the poller\<close>

locale poller_contract =
  fixes P :: "'p poller" and pok :: "'p \<Rightarrow> bool" and view :: "'p \<Rightarrow> int \<rightharpoonup> bool"
  assumes add_law: "pok p \<Longrightarrow> pok (p_add P fd p) \<and>
      view (p_add P fd p) = (if view p fd = None then (view p)(fd \<mapsto> False) else view p)"
    and del_law: "pok p \<Longrightarrow> pok (p_del P fd p) \<and> view (p_del P fd p) = (view p)(fd := None)"
    and mod_law: "pok p \<Longrightarrow> view p fd \<noteq> None \<Longrightarrow>
      pok (p_mod P fd w p) \<and> view (p_mod P fd w p) = (view p)(fd \<mapsto> w)"
begin

lemma remove_connection_ok:
  assumes "loop_ok pok view L"
  shows "loop_ok pok view (remove_connection P fd L) \<and> listen_fd (remove_connection P fd L) = listen_fd L"
proof -
  have "distinct (map fst (AList.delete fd (connections L)))"
    using loop_okD(2) [OF assms] by (rule distinct_delete)
  moreover have "map_of (AList.delete fd (connections L)) = (map_of (connections L))(fd := None)"
    by (rule delete_conv')
  ultimately show ?thesis
    using assms del_law [OF loop_okD(1) [OF assms], of fd]
    by (auto simp: loop_ok_def remove_connection_def conn_entry_ok_def split: if_splits)
qed

text \<open>Replacing the connection object under a registered descriptor.\<close>

lemma replace_connection_ok:
  assumes "loop_ok pok view L" and "map_of (connections L) fd = Some c" and "same_conn c c'" and "\<not> conn_closed c'"
    and "pok p" and "view p = (view (interest L))(fd \<mapsto> w)" and "has_pending_write c' \<longrightarrow> w"
  shows "loop_ok pok view (L\<lparr>connections := AList.update fd c' (connections L), interest := p\<rparr>)"
proof -
  have "distinct (map fst (AList.update fd c' (connections L)))"
    using loop_okD(2) [OF assms(1)] by (rule distinct_update)
  moreover have "map_of (AList.update fd c' (connections L)) = (map_of (connections L))(fd \<mapsto> c')"
    by (rule update_conv')
  moreover have "conn_entry_ok (listen_fd L) (view (interest L)) fd c" using loop_okD(3) [OF assms(1,2)] .
  ultimately show ?thesis
    using assms(1,3-7) by (auto simp: loop_ok_def conn_entry_ok_def same_conn_def split: if_splits)
qed

lemma remove_replaced:
  "remove_connection P fd (L\<lparr>connections := AList.update fd c' (connections L)\<rparr>) = remove_connection P fd L"
  by (simp add: remove_connection_def delete_update_same)

lemma reg_same: "view p fd = Some w \<Longrightarrow> view p = (view p)(fd \<mapsto> w)"
  by (simp add: fun_upd_idem)

lemma entry_reg:
  assumes "loop_ok pok view L" and "map_of (connections L) fd = Some c"
  obtains w where "view (interest L) fd = Some w" "has_pending_write c \<longrightarrow> w" "conn_ok c"
  using loop_okD(3) [OF assms] by (auto simp: conn_entry_ok_def split: option.splits)

lemma add_connection_ok:
  assumes "loop_ok pok view L" and "conn_fd c \<noteq> listen_fd L" and "conn_ok c" and "\<not> conn_closed c" and "\<not> has_pending_write c"
  shows "outcome (server_fault e) (\<lambda>L'. loop_ok pok view L' \<and> listen_fd L' = listen_fd L) (add_connection P a b c L)"
proof (cases "a \<and> b")
  case True
  let ?fd = "conn_fd c"
  let ?p = "p_add P ?fd (interest L)"
  note add = add_law [OF loop_okD(1) [OF assms(1)], of ?fd]
  show ?thesis
  proof (cases "map_of (connections L) ?fd")
    case None
    let ?L = "L\<lparr>interest := ?p, connections := (?fd, c) # connections L\<rparr>"
    have new: "view (interest L) ?fd = None" using loop_okD(4) [OF assms(1), of ?fd] None assms(2) by blast
    have v: "view ?p = (view (interest L))(?fd \<mapsto> False)" "pok ?p" using add new by simp_all
    have "conn_entry_ok (listen_fd L) (view ?p) fd c'" if "map_of ((?fd, c) # connections L) fd = Some c'" for fd c'
      using that loop_okD(3) [OF assms(1), of fd c'] assms(2-) v(1) by (simp add: conn_entry_ok_def split: if_splits)
    moreover have "fd = listen_fd L \<or> map_of ((?fd, c) # connections L) fd \<noteq> None" if "view ?p fd \<noteq> None" for fd
      using that loop_okD(4) [OF assms(1), of fd] v(1) by (simp split: if_splits)
    moreover have "distinct (map fst ((?fd, c) # connections L))"
      using loop_okD(2) [OF assms(1)] None by (simp add: map_of_eq_None_iff)
    ultimately have "loop_ok pok view ?L" using v(2) by (simp add: loop_ok_def del: map_of.simps)
    with None True show ?thesis by (simp add: add_connection_def set_nonblocking_def Let_def)
  next
    case (Some c0)
    obtain w where "view (interest L) ?fd = Some w" using entry_reg [OF assms(1) Some] .
    with add have "view ?p = view (interest L)" "pok ?p" by simp_all
    then have "loop_ok pok view (L\<lparr>interest := ?p\<rparr>)" using assms(1) by (simp add: loop_ok_def)
    with Some True show ?thesis by (simp add: add_connection_def set_nonblocking_def Let_def)
  qed
qed (auto simp: add_connection_def set_nonblocking_def)

lemma handle_accept_ok:
  assumes "loop_ok pok view L" and "store_ok e (st_store st)"
    and "\<forall>cfd a b. AcceptFd cfd a b \<in> set as \<longrightarrow> cfd \<noteq> listen_fd L"
  shows "outcome (server_fault e) (loop_post pok view e L) (handle_accept P as L st)"
  using assms unfolding loop_post_def
proof (induction as arbitrary: L st)
  case (Cons a as)
  show ?case
  proof (cases a)
    case (AcceptFd cfd x y)
    have "\<not> has_pending_write (connection_init cfd)" "\<not> conn_closed (connection_init cfd)" "conn_fd (connection_init cfd) = cfd"
      by (simp_all add: connection_init_def has_pending_write_def buffer_empty_def buffer_init_def)
    with Cons.prems AcceptFd
    have add: "outcome (server_fault e) (\<lambda>L'. loop_ok pok view L' \<and> listen_fd L' = listen_fd L)
        (add_connection P x y (connection_init cfd) L)" by (intro add_connection_ok) auto
    let ?st = "st\<lparr>st_metrics := record_connection_open (st_metrics st)\<rparr>"
    have "outcome (server_fault e)
        (\<lambda>(L', st'). loop_ok pok view L' \<and> listen_fd L' = listen_fd L \<and> store_ok e (st_store st'))
        (handle_accept P as L' ?st)" if "loop_ok pok view L' \<and> listen_fd L' = listen_fd L" for L'
      using Cons.IH [of L' ?st] that Cons.prems(2,3) by auto
    with add show ?thesis using AcceptFd by (auto simp: Let_def intro: outcome_rbind)
  qed (use Cons in auto)
qed simp

lemma handle_readable_ok:
  assumes "loop_ok pok view L" and "store_ok e (st_store st)" and "mem_limit e < 2 ^ 60"
  shows "returns (server_fault e) (loop_post pok view e L) (handle_readable P e E an fd L st)"
proof (cases "map_of (connections L) fd")
  case None
  with assms show ?thesis by (simp add: handle_readable_def loop_post_def)
next
  case (Some c)
  obtain w where w: "view (interest L) fd = Some w" "conn_ok c" using entry_reg [OF assms(1) Some] .
  from on_readable_safe [OF w(2) assms(2,3), of E "an_times an" "an_recvs an" "an_pending an"] show ?thesis
  proof (cases rule: returns_cases)
    case (fails f)
    with Some show ?thesis by (simp add: handle_readable_def)
  next
    case (result x)
    obtain go_on pending c' st' where x: "x = (go_on, pending, c', st')" by (cases x)
    let ?L1 = "L\<lparr>connections := AList.update fd c' (connections L)\<rparr>"
    have s: "same_conn c c'" "store_ok e (st_store st')" using result x by auto
    have rm: "loop_ok pok view (remove_connection P fd ?L1)" "listen_fd (remove_connection P fd ?L1) = listen_fd L"
      using remove_connection_ok [OF assms(1), of fd] by (simp_all add: remove_replaced)
    have up: "loop_ok pok view (update_write_interest P fd True ?L1)" if "\<not> conn_closed c'"
      using replace_connection_ok [OF assms(1) Some s(1) that, of "p_mod P fd True (interest L)" True]
        mod_law [OF loop_okD(1) [OF assms(1)], of fd True] w(1) by (simp add: update_write_interest_def)
    have same: "loop_ok pok view ?L1" if "\<not> conn_closed c'" "\<not> has_pending_write c'"
      using replace_connection_ok [OF assms(1) Some s(1) that(1) loop_okD(1) [OF assms(1)] reg_same [OF w(1)]] that(2)
      by simp
    show ?thesis
      using result(1) x Some s(2) rm up same
      by (auto simp: handle_readable_def Let_def loop_post_def update_write_interest_def)
  qed
qed

lemma handle_writable_ok:
  assumes "loop_ok pok view L" and "handle_writable P an fd L = (sent, L')"
  shows "loop_ok pok view L' \<and> listen_fd L' = listen_fd L"
proof (cases "map_of (connections L) fd")
  case None
  with assms show ?thesis by (simp add: handle_writable_def)
next
  case (Some c)
  obtain w where w: "view (interest L) fd = Some w" "has_pending_write c \<longrightarrow> w" "conn_ok c"
    using entry_reg [OF assms(1) Some] .
  obtain go_on out c' where on: "on_writable (an_sends an) c = (go_on, out, c')" by (cases "on_writable (an_sends an) c")
  note s = on_writable_safe [OF w(3) on]
  let ?L1 = "L\<lparr>connections := AList.update fd c' (connections L)\<rparr>"
  have up: "loop_ok pok view (update_write_interest P fd False ?L1)" if "\<not> conn_closed c'" "\<not> has_pending_write c'"
    using replace_connection_ok [OF assms(1) Some conjunct1 [OF s] that(1), of "p_mod P fd False (interest L)" False]
      mod_law [OF loop_okD(1) [OF assms(1)], of fd False] w(1) that(2) by (simp add: update_write_interest_def)
  have same: "loop_ok pok view ?L1" if "\<not> conn_closed c'"
    using replace_connection_ok [OF assms(1) Some conjunct1 [OF s] that(1) loop_okD(1) [OF assms(1)] reg_same [OF w(1)]]
      s w(2) by simp
  show ?thesis
    using assms(2) Some on up same remove_connection_ok [OF assms(1), of fd]
    by (auto simp: handle_writable_def Let_def remove_replaced update_write_interest_def split: if_splits)
qed

text \<open>Connections that are closed leave the table at once, so reaping finds nothing to do.\<close>

lemma reap_closed_idle:
  assumes "loop_ok pok view L"
  shows "reap_closed P L = L"
proof -
  have "\<not> conn_closed c" if "(fd, c) \<in> set (connections L)" for fd c
    using that loop_okD(3) [OF assms, of fd c] loop_okD(2) [OF assms] by (auto simp: conn_entry_ok_def)
  then have "filter (\<lambda>(fd, c). conn_closed c) (connections L) = []" by (auto simp: filter_empty_conv)
  then show ?thesis by (simp add: reap_closed_def)
qed

text \<open>Rounds, for every treatment of an event that keeps the invariant.\<close>

lemma poll_once_ok:
  assumes "\<And>L st ev. loop_ok pok view L \<Longrightarrow> store_ok e (st_store st) \<Longrightarrow> good (listen_fd L) ev \<Longrightarrow>
      returns (server_fault e) (round_post pok view e L) (handle e E ev L st)"
    and "loop_ok pok view L" and "store_ok e (st_store st)" and "\<forall>ev\<in>set evs. good (listen_fd L) ev"
  shows "returns (server_fault e) (round_post pok view e L) (poll_once handle e E evs L st)"
  using assms(2-)
proof (induction evs arbitrary: L st)
  case (Cons ev evs)
  have "returns (server_fault e) (round_post pok view e L) (handle e E ev L st)" using Cons.prems by (intro assms(1)) auto
  then show ?case
  proof (cases rule: returns_cases)
    case (result x)
    obtain sent L1 st1 where x: "x = (sent, L1, st1)" by (cases x)
    have "returns (server_fault e) (round_post pok view e L1) (poll_once handle e E evs L1 st1)"
      using result(2) x Cons.prems by (intro Cons.IH) (auto simp: round_post_def loop_post_def)
    then show ?thesis
      by (cases rule: returns_cases) (use result x in \<open>auto simp: round_post_def loop_post_def\<close>)
  qed simp
qed (simp add: round_post_def loop_post_def)

lemma run_rounds_ok:
  assumes "\<And>L st ev. loop_ok pok view L \<Longrightarrow> store_ok e (st_store st) \<Longrightarrow> good (listen_fd L) ev \<Longrightarrow>
      returns (server_fault e) (round_post pok view e L) (handle e E ev L st)"
    and "loop_ok pok view L" and "store_ok e (st_store st)"
    and "\<forall>(evs, stopped)\<in>set rounds. \<forall>ev\<in>set evs. good (listen_fd L) ev"
  shows "returns (server_fault e) (round_post pok view e L) (run_rounds P handle e E rounds L st)"
  using assms(2-)
proof (induction rounds arbitrary: L st)
  case (Cons r rounds)
  obtain evs stopped where r: "r = (evs, stopped)" by (cases r)
  show ?case
  proof (cases "running L")
    case True
    have "returns (server_fault e) (round_post pok view e L) (poll_once handle e E evs L st)"
      by (rule poll_once_ok [where good = good, rotated]) (use Cons.prems r in \<open>auto intro: assms(1)\<close>)
    then show ?thesis
    proof (cases rule: returns_cases)
      case (fails f)
      with r True show ?thesis by simp
    next
      case (result x)
      obtain sent L1 st1 where x: "x = (sent, L1, st1)" by (cases x)
      let ?L1 = "if stopped then loop_stop L1 else L1"
      have 1: "loop_ok pok view L1" "listen_fd L1 = listen_fd L" "store_ok e (st_store st1)"
        using result(2) x by (auto simp: round_post_def loop_post_def)
      have "returns (server_fault e) (round_post pok view e ?L1) (run_rounds P handle e E rounds ?L1 st1)"
        using 1 Cons.prems(3) by (intro Cons.IH) (auto simp: loop_stop_def)
      then show ?thesis
        by (cases rule: returns_cases)
          (use result x r True 1 reap_closed_idle [OF 1(1)] in
            \<open>auto simp: round_post_def loop_post_def Let_def loop_stop_def split: if_splits\<close>)
    qed
  qed (use Cons.prems r in \<open>simp add: round_post_def loop_post_def\<close>)
qed (simp add: round_post_def loop_post_def)

end

section \<open>epoll\<close>

interpretation ep: poller_contract epoll "\<lambda>_. True" "\<lambda>p. p"
  by unfold_locales (auto simp: epoll_def)

abbreviation epoll_ok :: "epoll_set event_loop \<Rightarrow> bool" where
  "epoll_ok \<equiv> loop_ok (\<lambda>_. True) (\<lambda>p. p)"

lemma handler_returns:
  assumes "returns F (loop_post pok view e L) r" and "\<And>L1. loop_ok pok view L1 \<Longrightarrow> listen_fd L1 = listen_fd L \<Longrightarrow>
      loop_ok pok view (snd (out L1)) \<and> listen_fd (snd (out L1)) = listen_fd L"
  shows "returns F (round_post pok view e L)
           (case r of None \<Rightarrow> None | Some (Inl f) \<Rightarrow> Some (Inl f)
            | Some (Inr (L1, st1)) \<Rightarrow> (case out L1 of (sent, L2) \<Rightarrow> Some (Inr (sent, L2, st1))))"
  using assms(1)
proof (cases rule: returns_cases)
  case (result x)
  then show ?thesis
    using assms(2) [of "fst x"] by (auto simp: round_post_def loop_post_def split: prod.splits)
qed simp

lemma accept_returns:
  assumes "outcome F (loop_post pok view e L) r"
  shows "returns F (round_post pok view e L)
           (case r of Inl f \<Rightarrow> Some (Inl f) | Inr (L', st') \<Rightarrow> Some (Inr ([], L', st')))"
  using assms by (cases r) (auto simp: round_post_def)

lemma epoll_event_ok:
  assumes "epoll_ok L" and "store_ok e (st_store st)" and "accepts_ok (listen_fd L) (ev_answers ev)" and "mem_limit e < 2 ^ 60"
  shows "returns (server_fault e) (round_post (\<lambda>_. True) (\<lambda>p. p) e L) (epoll_event_handler e E ev L st)"
proof -
  let ?fd = "ev_fd ev" and ?an = "ev_answers ev"
  let ?read = "if ev_in ev then handle_readable epoll e E ?an ?fd L st else Some (Inr (L, st))"
  have "returns (server_fault e) (loop_post (\<lambda>_. True) (\<lambda>p. p) e L) ?read"
    using ep.handle_readable_ok [OF assms(1,2,4), of E ?an ?fd] assms(1,2) by (simp add: loop_post_def)
  then have io: "returns (server_fault e) (round_post (\<lambda>_. True) (\<lambda>p. p) e L)
      (case ?read of None \<Rightarrow> None | Some (Inl f) \<Rightarrow> Some (Inl f)
       | Some (Inr (L1, st1)) \<Rightarrow>
           (case (if ev_out ev then handle_writable epoll ?an ?fd L1 else ([], L1)) of
              (sent, L2) \<Rightarrow> Some (Inr (sent, L2, st1))))"
    by (rule handler_returns) (auto simp: ep.handle_writable_ok [OF _ surjective_pairing])
  have acc: "outcome (server_fault e) (loop_post (\<lambda>_. True) (\<lambda>p. p) e L) (handle_accept epoll (an_accepts ?an) L st)"
    using assms(1-3) by (intro ep.handle_accept_ok) (auto simp: accepts_ok_def)
  have "round_post (\<lambda>_. True) (\<lambda>p. p) e L ([], remove_connection epoll ?fd L, st)"
    using ep.remove_connection_ok [OF assms(1), of ?fd] assms(2) by (simp add: round_post_def loop_post_def)
  with io accept_returns [OF acc] show ?thesis by (simp add: epoll_event_handler_def Let_def)
qed

section \<open>kqueue\<close>

definition kq_ok :: "kqueue_set \<Rightarrow> bool" where
  "kq_ok q \<longleftrightarrow> (\<forall>fd. (fd, EVFILT_WRITE) \<in> q \<longrightarrow> (fd, EVFILT_READ) \<in> q)"

definition kq_view :: "kqueue_set \<Rightarrow> int \<rightharpoonup> bool" where
  "kq_view q fd = (if (fd, EVFILT_READ) \<in> q then Some ((fd, EVFILT_WRITE) \<in> q) else None)"

interpretation kq: poller_contract kqueue kq_ok kq_view
  by unfold_locales (auto simp: kqueue_def kq_ok_def kq_view_def fun_eq_iff split: if_splits)

lemma kqueue_event_ok:
  assumes "loop_ok kq_ok kq_view L" and "store_ok e (st_store st)" and "accepts_ok (listen_fd L) (kev_answers ev)"
    and "mem_limit e < 2 ^ 60"
  shows "returns (server_fault e) (round_post kq_ok kq_view e L) (kqueue_event_handler e E ev L st)"
proof -
  let ?fd = "kev_fd ev" and ?an = "kev_answers ev"
  let ?read = "if kev_filter ev = EVFILT_READ then handle_readable kqueue e E ?an ?fd L st else Some (Inr (L, st))"
  have "returns (server_fault e) (loop_post kq_ok kq_view e L) ?read"
    using kq.handle_readable_ok [OF assms(1,2,4), of E ?an ?fd] assms(1,2) by (simp add: loop_post_def)
  then have io: "returns (server_fault e) (round_post kq_ok kq_view e L)
      (case ?read of None \<Rightarrow> None | Some (Inl f) \<Rightarrow> Some (Inl f)
       | Some (Inr (L1, st1)) \<Rightarrow>
           (case (if kev_filter ev = EVFILT_WRITE then handle_writable kqueue ?an ?fd L1 else ([], L1)) of
              (sent, L2) \<Rightarrow> Some (Inr (sent, L2, st1))))"
    by (rule handler_returns) (auto simp: kq.handle_writable_ok [OF _ surjective_pairing])
  have acc: "outcome (server_fault e) (loop_post kq_ok kq_view e L) (handle_accept kqueue (an_accepts ?an) L st)"
    using assms(1-3) by (intro kq.handle_accept_ok) (auto simp: accepts_ok_def)
  have "round_post kq_ok kq_view e L ([], remove_connection kqueue ?fd L, st)"
    using kq.remove_connection_ok [OF assms(1), of ?fd] assms(2) by (simp add: round_post_def loop_post_def)
  with io accept_returns [OF acc] show ?thesis by (simp add: kqueue_event_handler_def Let_def)
qed

end
