(* ===== verification/Event_Loop_Platforms.thy ===== *)
theory Event_Loop_Platforms
  imports Event_Loop_Correct
begin

text \<open>
  The two platforms: a loop on kqueue behaves as the loop on epoll with the same ready events. The
  abstraction reads the registered filters of a kqueue as an epoll set.
\<close>

section \<open>Reading a kqueue loop as an epoll loop\<close>

definition as_epoll :: "kqueue_set event_loop \<Rightarrow> epoll_set event_loop" where
  "as_epoll K = \<lparr>listen_fd = listen_fd K, running = running K, connections = connections K,
                 interest = kq_view (interest K)\<rparr>"

definition as_epoll_event :: "kqueue_event \<Rightarrow> epoll_event" where
  "as_epoll_event ev = \<lparr>ev_fd = kev_fd ev, ev_err = kev_error ev, ev_in = (kev_filter ev = EVFILT_READ),
                        ev_out = (kev_filter ev = EVFILT_WRITE), ev_answers = kev_answers ev\<rparr>"

definition as_epoll_result ::
  "('s \<times> kqueue_set event_loop \<times> server_state) result option \<Rightarrow> ('s \<times> epoll_set event_loop \<times> server_state) result option" where
  "as_epoll_result r =
     (case r of None \<Rightarrow> None | Some (Inl f) \<Rightarrow> Some (Inl f)
      | Some (Inr (sent, K, st)) \<Rightarrow> Some (Inr (sent, as_epoll K, st)))"

lemma as_epoll_result_simps [simp]:
  "as_epoll_result None = None"
  "as_epoll_result (Some (Inl f)) = Some (Inl f)"
  "as_epoll_result (Some (Inr (sent, K, st))) = Some (Inr (sent, as_epoll K, st))"
  by (simp_all add: as_epoll_result_def)

lemma as_epoll_sel [simp]:
  "listen_fd (as_epoll K) = listen_fd K" "running (as_epoll K) = running K"
  "connections (as_epoll K) = connections K" "interest (as_epoll K) = kq_view (interest K)"
  "as_epoll (K\<lparr>connections := cs\<rparr>) = (as_epoll K)\<lparr>connections := cs\<rparr>"
  "as_epoll (K\<lparr>running := r\<rparr>) = (as_epoll K)\<lparr>running := r\<rparr>"
  "as_epoll (K\<lparr>interest := q\<rparr>) = (as_epoll K)\<lparr>interest := kq_view q\<rparr>"
  by (simp_all add: as_epoll_def)

lemma as_epoll_ok: "loop_ok kq_ok kq_view K \<Longrightarrow> epoll_ok (as_epoll K)"
  by (simp add: loop_ok_def)

section \<open>The operations agree\<close>

lemma remove_agrees: "as_epoll (remove_connection kqueue fd K) = remove_connection epoll fd (as_epoll K)"
  by (auto simp: remove_connection_def kqueue_def epoll_def kq_view_def fun_eq_iff)

lemma update_agrees:
  assumes "kq_view (interest K) fd \<noteq> None"
  shows "as_epoll (update_write_interest kqueue fd w K) = update_write_interest epoll fd w (as_epoll K)"
  using assms
  by (auto simp: update_write_interest_def kqueue_def epoll_def kq_view_def fun_eq_iff split: if_splits)

lemma add_agrees:
  assumes "kq_ok (interest K)"
  shows "add_connection epoll a b c (as_epoll K) =
           rbind (add_connection kqueue a b c K) (\<lambda>K'. Inr (as_epoll K'))"
proof -
  have "kq_view (p_add kqueue (conn_fd c) (interest K)) = p_add epoll (conn_fd c) (kq_view (interest K))"
    using conjunct2 [OF kq.add_law [OF assms, of "conn_fd c"]] by (simp add: epoll_def)
  then show ?thesis
    by (auto simp: add_connection_def set_nonblocking_def Let_def)
qed

lemma accept_agrees:
  assumes "kq_ok (interest K)"
  shows "handle_accept epoll as (as_epoll K) st =
           rbind (handle_accept kqueue as K st) (\<lambda>(K', st'). Inr (as_epoll K', st'))"
  using assms
proof (induction as arbitrary: K st)
  case (Cons a as)
  show ?case
  proof (cases a)
    case (AcceptFd cfd x y)
    have "kq_ok (interest K')" if "add_connection kqueue x y (connection_init cfd) K = Inr K'" for K'
      using that conjunct1 [OF kq.add_law [OF Cons.prems]]
      by (auto simp: add_connection_def Let_def split: if_splits)
    with Cons.IH AcceptFd show ?thesis
      by (cases "add_connection kqueue x y (connection_init cfd) K")
        (auto simp: Let_def add_agrees [OF Cons.prems])
  qed (use Cons in auto)
qed simp

lemma readable_agrees:
  assumes "loop_ok kq_ok kq_view K"
  shows "handle_readable epoll e E an fd (as_epoll K) st =
           (case handle_readable kqueue e E an fd K st of
              None \<Rightarrow> None | Some (Inl f) \<Rightarrow> Some (Inl f) | Some (Inr (K', st')) \<Rightarrow> Some (Inr (as_epoll K', st')))"
proof (cases "map_of (connections K) fd")
  case (Some c)
  obtain w where "kq_view (interest K) fd = Some w" using kq.entry_reg [OF assms Some] .
  with update_agrees [of "K\<lparr>connections := cs\<rparr>" fd for cs] Some show ?thesis
    by (auto simp: handle_readable_def Let_def remove_agrees split: option.splits sum.splits)
qed (simp add: handle_readable_def)

lemma writable_agrees:
  assumes "loop_ok kq_ok kq_view K"
  shows "handle_writable epoll an fd (as_epoll K) = (case handle_writable kqueue an fd K of (sent, K') \<Rightarrow> (sent, as_epoll K'))"
proof (cases "map_of (connections K) fd")
  case (Some c)
  obtain w where "kq_view (interest K) fd = Some w" using kq.entry_reg [OF assms Some] .
  with update_agrees [of "K\<lparr>connections := cs\<rparr>" fd for cs] Some show ?thesis
    by (auto simp: handle_writable_def Let_def remove_agrees split: prod.splits)
qed (simp add: handle_writable_def)

text \<open>An error reported for the listening socket itself is where the platforms differ.\<close>

definition no_listener_error :: "int \<Rightarrow> kqueue_event \<Rightarrow> bool" where
  "no_listener_error lfd ev \<longleftrightarrow> \<not> (kev_error ev \<and> kev_fd ev = lfd)"

lemma event_agrees:
  assumes "loop_ok kq_ok kq_view K" and "store_ok e (st_store st)" and "mem_limit e < 2 ^ 60"
    and "no_listener_error (listen_fd K) ev"
  shows "epoll_event_handler e E (as_epoll_event ev) (as_epoll K) st =
           as_epoll_result (kqueue_event_handler e E ev K st)"
proof -
  let ?fd = "kev_fd ev" and ?an = "kev_answers ev"
  consider (err) "kev_error ev" | (acc) "\<not> kev_error ev" "?fd = listen_fd K"
    | (read) "\<not> kev_error ev" "?fd \<noteq> listen_fd K" "kev_filter ev = EVFILT_READ"
    | (wrt) "\<not> kev_error ev" "?fd \<noteq> listen_fd K" "kev_filter ev = EVFILT_WRITE"
    by (cases "kev_filter ev") auto
  then show ?thesis
  proof cases
    case err
    with assms(4) show ?thesis
      by (simp add: epoll_event_handler_def kqueue_event_handler_def as_epoll_event_def remove_agrees no_listener_error_def)
  next
    case acc
    then show ?thesis
      by (simp add: epoll_event_handler_def kqueue_event_handler_def as_epoll_event_def Let_def
          accept_agrees [OF loop_okD(1) [OF assms(1)]] rbind_def split: sum.splits prod.splits)
  next
    case read
    then show ?thesis
      by (auto simp: epoll_event_handler_def kqueue_event_handler_def as_epoll_event_def Let_def
          readable_agrees [OF assms(1)] split: option.splits sum.splits)
  next
    case wrt
    then show ?thesis
      by (simp add: epoll_event_handler_def kqueue_event_handler_def as_epoll_event_def Let_def
          writable_agrees [OF assms(1)] split: prod.splits)
  qed
qed

section \<open>The rounds agree\<close>

definition event_ok :: "int \<Rightarrow> kqueue_event \<Rightarrow> bool" where
  "event_ok lfd ev \<longleftrightarrow> accepts_ok lfd (kev_answers ev) \<and> no_listener_error lfd ev"

lemma poll_agrees:
  assumes "loop_ok kq_ok kq_view K" and "store_ok e (st_store st)" and "mem_limit e < 2 ^ 60"
    and "\<forall>ev\<in>set evs. event_ok (listen_fd K) ev"
  shows "poll_once epoll_event_handler e E (map as_epoll_event evs) (as_epoll K) st =
           as_epoll_result (poll_once kqueue_event_handler e E evs K st)"
  using assms
proof (induction evs arbitrary: K st)
  case (Cons ev evs)
  note ev = event_agrees [OF Cons.prems(1-3), of ev E]
  have "returns (server_fault e) (round_post kq_ok kq_view e K) (kqueue_event_handler e E ev K st)"
    using Cons.prems by (intro kqueue_event_ok) (auto simp: event_ok_def)
  then show ?case
  proof (cases rule: returns_cases)
    case (fails f)
    with ev Cons.prems(4) show ?thesis by (simp add: event_ok_def)
  next
    case (result x)
    obtain sent K1 st1 where x: "x = (sent, K1, st1)" by (cases x)
    with result(2) have 1: "loop_ok kq_ok kq_view K1" "listen_fd K1 = listen_fd K" "store_ok e (st_store st1)"
      by (auto simp: round_post_def loop_post_def)
    from Cons.IH [OF 1(1,3) Cons.prems(3)] Cons.prems(4) 1(2) result(1) x ev show ?thesis
      by (auto simp: event_ok_def split: option.splits sum.splits)
  qed
qed simp

lemma rounds_agree:
  assumes "loop_ok kq_ok kq_view K" and "store_ok e (st_store st)" and "mem_limit e < 2 ^ 60"
    and "\<forall>(evs, stopped)\<in>set rounds. \<forall>ev\<in>set evs. event_ok (listen_fd K) ev"
  shows "run_rounds epoll epoll_event_handler e E (map (\<lambda>(evs, stopped). (map as_epoll_event evs, stopped)) rounds)
             (as_epoll K) st =
           as_epoll_result (run_rounds kqueue kqueue_event_handler e E rounds K st)"
  using assms
proof (induction rounds arbitrary: K st)
  case (Cons r rounds)
  obtain evs stopped where r: "r = (evs, stopped)" by (cases r)
  have evs: "\<forall>ev\<in>set evs. event_ok (listen_fd K) ev" using Cons.prems(4) r by auto
  note poll = poll_agrees [OF Cons.prems(1-3) evs, of E]
  have "returns (server_fault e) (round_post kq_ok kq_view e K) (poll_once kqueue_event_handler e E evs K st)"
    by (rule kq.poll_once_ok [where good = event_ok])
      (use Cons.prems(1-3) evs in \<open>auto simp: event_ok_def intro: kqueue_event_ok\<close>)
  then show ?case
  proof (cases rule: returns_cases)
    case (fails f)
    with poll r show ?thesis by simp
  next
    case (result x)
    obtain sent K1 st1 where x: "x = (sent, K1, st1)" by (cases x)
    let ?K = "if stopped then loop_stop K1 else K1"
    from x result(2) have 1: "loop_ok kq_ok kq_view K1" "listen_fd K1 = listen_fd K" "store_ok e (st_store st1)"
      by (auto simp: round_post_def loop_post_def)
    have reap: "reap_closed kqueue K1 = K1" "reap_closed epoll (as_epoll K1) = as_epoll K1"
      using kq.reap_closed_idle [OF 1(1)] ep.reap_closed_idle [OF as_epoll_ok [OF 1(1)]] .
    have "loop_ok kq_ok kq_view ?K" "listen_fd ?K = listen_fd K" using 1 by (simp_all add: loop_stop_def)
    from Cons.IH [OF this(1) 1(3) Cons.prems(3)] this(2) Cons.prems(4)
    have "run_rounds epoll epoll_event_handler e E (map (\<lambda>(evs, stopped). (map as_epoll_event evs, stopped)) rounds)
             (as_epoll ?K) st1 = as_epoll_result (run_rounds kqueue kqueue_event_handler e E rounds ?K st1)" by auto
    moreover have "as_epoll ?K = (if stopped then loop_stop (as_epoll K1) else as_epoll K1)" by (simp add: loop_stop_def)
    ultimately show ?thesis
      using poll result(1) x r reap by (auto split: option.splits sum.splits)
  qed
qed simp

end
