(* ===== verification/Event_Loop_Properties.thy ===== *)
theory Event_Loop_Properties
  imports Event_Loop_Platforms
begin

text \<open>
  The properties of the event loop: safety of every run, the way of a request through the loop, the
  agreement of the platforms, and what \<open>stop\<close> does.
\<close>

section \<open>A request and its reply\<close>

text \<open>A send that takes everything empties the output buffer.\<close>

lemma on_writable_all:
  assumes "conn_ok c" and "readable (out_buf c) \<noteq> []" and "length (readable (out_buf c)) \<le> n"
  obtains c' where "on_writable [SendData n] c = (True, readable (out_buf c), c')" "readable (out_buf c') = []"
    "in_buf c' = in_buf c" "conn_closed c' = conn_closed c"
proof -
  let ?d = "readable (out_buf c)"
  let ?c = "c\<lparr>out_buf := consume (length ?d) (out_buf c)\<rparr>"
  have b: "buffer_ok (out_buf c)" using assms(1) by (simp add: conn_ok_def)
  have m: "min (max (Suc 0) n) (length ?d) = length ?d" using assms(2,3) by (cases ?d) auto
  have p: "buffer_ok (consume (length ?d) (out_buf c))" "readable (consume (length ?d) (out_buf c)) = []"
    using bq.pop_law [OF b, of "length ?d"] by simp_all
  then have "send_loop [] ?d ?c = (True, ?d, ?c)" by (simp add: send_loop_Nil)
  then have "on_writable [SendData n] c = (True, ?d, ?c)"
    using assms(2) b by (simp add: on_writable_def send_loop_Cons buffer_empty_iff Let_def m)
  with p that [of ?c] show ?thesis by simp
qed

definition in_event :: "int \<Rightarrow> answers \<Rightarrow> epoll_event" where
  "in_event fd an = \<lparr>ev_fd = fd, ev_err = False, ev_in = True, ev_out = False, ev_answers = an\<rparr>"

definition out_event :: "int \<Rightarrow> answers \<Rightarrow> epoll_event" where
  "out_event fd an = \<lparr>ev_fd = fd, ev_err = False, ev_in = False, ev_out = True, ev_answers = an\<rparr>"

lemma in_event_step:
  assumes "map_of (connections L) fd = Some c" and "fd \<noteq> listen_fd L"
    and "on_readable e E (an_times an) (an_recvs an) (an_pending an) c st = Some (Inr (True, rest, c', st'))"
    and "\<not> conn_closed c'" and "has_pending_write c'"
  shows "epoll_event_handler e E (in_event fd an) L st =
           Some (Inr ([], update_write_interest epoll fd True (L\<lparr>connections := AList.update fd c' (connections L)\<rparr>), st'))"
  using assms by (simp add: epoll_event_handler_def in_event_def handle_readable_def Let_def)

lemma out_event_step:
  assumes "map_of (connections L) fd = Some c" and "fd \<noteq> listen_fd L"
    and "on_writable (an_sends an) c = (True, sent, c')" and "\<not> conn_closed c'" and "\<not> has_pending_write c'"
  shows "epoll_event_handler e E (out_event fd an) L st =
           Some (Inr ([(fd, sent)], update_write_interest epoll fd False (L\<lparr>connections := AList.update fd c' (connections L)\<rparr>), st))"
  using assms by (simp add: epoll_event_handler_def out_event_def handle_writable_def Let_def)

section \<open>Properties\<close>



section \<open>A small run\<close>

definition no_answers :: answers where
  "no_answers = \<lparr>an_accepts = [], an_recvs = [], an_pending = [], an_times = sample_times, an_sends = []\<rparr>"

definition accept_event :: epoll_event where
  "accept_event = \<lparr>ev_fd = 3, ev_err = False, ev_in = True, ev_out = False,
     ev_answers = no_answers\<lparr>an_accepts := [AcceptFd 7 True True]\<rparr>\<rparr>"

definition ping_loop :: "epoll_set event_loop" where
  "ping_loop = \<lparr>listen_fd = 3, running = True, connections = [(7, connection_init 7)], interest = [3 \<mapsto> False, 7 \<mapsto> False]\<rparr>"

lemma idle_init: "\<not> has_pending_write (connection_init fd)" "\<not> conn_closed (connection_init fd)" "conn_fd (connection_init fd) = fd"
  by (simp_all add: connection_init_def has_pending_write_def buffer_empty_def buffer_init_def)

lemma ping_loop_ok: "epoll_ok ping_loop"
  by (auto simp: loop_ok_def ping_loop_def conn_entry_ok_def idle_init split: if_splits)



text \<open>
  C24: The platforms agree. A run of the loop on kqueue and the run on epoll with the corresponding
  ready events send the same bytes to the same descriptors, leave the same connections and the same
  store, and fail alike, unless the kernel reports an error on the listening socket itself.
\<close>

theorem platforms_agree:
  assumes "loop_ok kq_ok kq_view K" and "store_ok e (st_store st)" and "mem_limit e < 2 ^ 60"
    and "\<forall>(evs, stopped)\<in>set rounds. \<forall>ev\<in>set evs. event_ok (listen_fd K) ev"
  shows "loop_run epoll epoll_event_handler e E (map (\<lambda>(evs, stopped). (map as_epoll_event evs, stopped)) rounds)
             (as_epoll K) st =
           as_epoll_result (loop_run kqueue kqueue_event_handler e E rounds K st)"
  using rounds_agree [of "K\<lparr>running := True\<rparr>" e st rounds E] assms by (simp add: loop_run_def)

definition kqueue_accept :: kqueue_event where
  "kqueue_accept = \<lparr>kev_fd = 3, kev_error = False, kev_filter = EVFILT_READ,
     kev_answers = no_answers\<lparr>an_accepts := [AcceptFd 7 True True]\<rparr>\<rparr>"

theorem platforms_agree_witness:
  "loop_run epoll epoll_event_handler sample_externals sample_float [([as_epoll_event kqueue_accept], True)]
       (as_epoll ((event_loop_init {})\<lparr>listen_fd := 3\<rparr>)) sample_state =
     as_epoll_result (loop_run kqueue kqueue_event_handler sample_externals sample_float [([kqueue_accept], True)]
       ((event_loop_init {})\<lparr>listen_fd := 3\<rparr>) sample_state)"
proof -
  have "loop_ok kq_ok kq_view ((event_loop_init {})\<lparr>listen_fd := 3\<rparr>)"
    by (simp add: loop_ok_def event_loop_init_def kq_ok_def kq_view_def)
  moreover have "store_ok sample_externals (st_store sample_state)" by (simp add: sample_state_def store_ok_init)
  moreover have "mem_limit sample_externals < 2 ^ 60" by (simp add: sample_externals_def)
  moreover have "event_ok 3 kqueue_accept"
    by (simp add: event_ok_def kqueue_accept_def accepts_ok_def no_listener_error_def no_answers_def)
  ultimately show ?thesis
    using platforms_agree [of "(event_loop_init {})\<lparr>listen_fd := 3\<rparr>" sample_externals sample_state
        "[([kqueue_accept], True)]" sample_float] by (simp add: event_loop_init_def)
qed

section \<open>Stopping\<close>

text \<open>Once \<open>stop\<close> is called, the round in progress is the last one.\<close>

lemma stop_ends_rounds:
  "run_rounds P handle e E ((evs, True) # rounds) L st = run_rounds P handle e E [(evs, True)] L st"
  by (cases rounds) (auto simp: loop_stop_def Let_def split: option.splits sum.splits)

text \<open>A \<open>stop\<close> that comes before \<open>run\<close> is lost: \<open>run\<close> sets the flag again.\<close>

lemma stop_before_run_lost: "loop_run P handle e E rounds (loop_stop L) st = loop_run P handle e E rounds L st"
  by (simp add: loop_run_def loop_stop_def)

end
