(* ===== verification/Config.thy ===== *)
theory Config
  imports Charconv
begin

text \<open>
  The configuration (\<open>src/src/server/Config.hpp\<close>, \<open>Config.cpp\<close>) and the command line handling of
  \<open>src/src/main.cpp\<close>: the defaults, the INI-style file, the \<open>--key value\<close> overrides, and the exceptions
  of \<open>std::stoi\<close> and \<open>std::stoull\<close>.
\<close>

section \<open>Numbers in text\<close>

definition is_space :: "char \<Rightarrow> bool" where
  "is_space c \<longleftrightarrow> c \<in> {CHR '' '', CHR 0x09, CHR 0x0A, CHR 0x0B, CHR 0x0C, CHR 0x0D}"

text \<open>
  What \<open>strtol\<close> and \<open>strtoull\<close> share: white space, an optional sign, the longest run of digits; \<open>None\<close>
  if there is no digit. The text after the digits is ignored.
\<close>

definition strto :: "string \<Rightarrow> (bool \<times> nat) option" where
  "strto s =
     (let t = dropWhile is_space s;
          neg = (t \<noteq> [] \<and> hd t = CHR ''-'');
          u = (if t \<noteq> [] \<and> (hd t = CHR ''-'' \<or> hd t = CHR ''+'') then tl t else t);
          ds = takeWhile is_digit u
      in if ds = [] then None else Some (neg, digits_val ds))"

definition stoi :: "string \<Rightarrow> int result" where
  "stoi s =
     (case strto s of
        None \<Rightarrow> Inl InvalidArgument
      | Some (neg, n) \<Rightarrow>
          let v = (if neg then - int n else int n) in
          if - (2 ^ 31) \<le> v \<and> v < 2 ^ 31 then Inr v else Inl OutOfRange)"

text \<open>A minus sign negates in unsigned arithmetic: it is not an error.\<close>

definition stoull :: "string \<Rightarrow> 64 word result" where
  "stoull s =
     (case strto s of
        None \<Rightarrow> Inl InvalidArgument
      | Some (neg, n) \<Rightarrow>
          if n < 2 ^ 64 then Inr (if neg then - of_nat n else of_nat n) else Inl OutOfRange)"

section \<open>The configuration\<close>

record config =
  cfg_host :: string
  cfg_port :: "16 word"
  cfg_backlog :: int
  cfg_worker_threads :: "64 word"
  cfg_max_keys :: "64 word"
  cfg_rdb_enabled :: bool
  cfg_rdb_path :: string
  cfg_rdb_interval_secs :: int
  cfg_aof_enabled :: bool
  cfg_aof_path :: string
  cfg_metrics_enabled :: bool
  cfg_metrics_port :: "16 word"
  cfg_log_level :: string
  cfg_log_file :: string
  cfg_sweep_interval_ms :: int

definition config_default :: config where
  "config_default = \<lparr>cfg_host = ''0.0.0.0'', cfg_port = 6399, cfg_backlog = 1024, cfg_worker_threads = 4,
     cfg_max_keys = 1000000, cfg_rdb_enabled = True, cfg_rdb_path = ''dump.rdb'', cfg_rdb_interval_secs = 300,
     cfg_aof_enabled = False, cfg_aof_path = ''appendonly.aof'', cfg_metrics_enabled = True,
     cfg_metrics_port = 9999, cfg_log_level = ''info'', cfg_log_file = '''', cfg_sweep_interval_ms = 1000\<rparr>"

section \<open>Reading the file\<close>

definition blanks :: string where
  "blanks = [CHR '' '', CHR 0x09, CHR 0x0D, CHR 0x0A]"

definition find_first_not_of :: "string \<Rightarrow> string \<Rightarrow> nat option" where
  "find_first_not_of cs s =
     (let n = length (takeWhile (\<lambda>c. c \<in> set cs) s) in if n = length s then None else Some n)"

definition find_last_not_of :: "string \<Rightarrow> string \<Rightarrow> nat option" where
  "find_last_not_of cs s = map_option (\<lambda>n. length s - 1 - n) (find_first_not_of cs (rev s))"

definition substr :: "string \<Rightarrow> nat \<Rightarrow> nat \<Rightarrow> string" where
  "substr s start n = take n (drop start s)"

definition trim :: "string \<Rightarrow> string" where
  "trim s =
     (case (find_first_not_of blanks s, find_last_not_of blanks s) of
        (Some start, Some last_pos) \<Rightarrow> substr s start (last_pos - start + 1)
      | _ \<Rightarrow> [])"

definition flag_value :: "string \<Rightarrow> bool" where
  "flag_value v \<longleftrightarrow> v = ''true'' \<or> v = ''1''"

text \<open>One recognised key; an unknown one is reported and skipped.\<close>

definition config_set :: "string \<Rightarrow> string \<Rightarrow> config \<Rightarrow> config result" where
  "config_set key val cfg =
     (if key = ''host'' then Inr (cfg\<lparr>cfg_host := val\<rparr>)
      else if key = ''port'' then rbind (stoi val) (\<lambda>n. Inr (cfg\<lparr>cfg_port := word_of_int n\<rparr>))
      else if key = ''backlog'' then rbind (stoi val) (\<lambda>n. Inr (cfg\<lparr>cfg_backlog := n\<rparr>))
      else if key = ''worker_threads'' then rbind (stoi val) (\<lambda>n. Inr (cfg\<lparr>cfg_worker_threads := word_of_int n\<rparr>))
      else if key = ''max_keys'' then rbind (stoull val) (\<lambda>n. Inr (cfg\<lparr>cfg_max_keys := n\<rparr>))
      else if key = ''rdb_enabled'' then Inr (cfg\<lparr>cfg_rdb_enabled := flag_value val\<rparr>)
      else if key = ''rdb_path'' then Inr (cfg\<lparr>cfg_rdb_path := val\<rparr>)
      else if key = ''rdb_interval_secs'' then rbind (stoi val) (\<lambda>n. Inr (cfg\<lparr>cfg_rdb_interval_secs := n\<rparr>))
      else if key = ''aof_enabled'' then Inr (cfg\<lparr>cfg_aof_enabled := flag_value val\<rparr>)
      else if key = ''aof_path'' then Inr (cfg\<lparr>cfg_aof_path := val\<rparr>)
      else if key = ''metrics_enabled'' then Inr (cfg\<lparr>cfg_metrics_enabled := flag_value val\<rparr>)
      else if key = ''metrics_port'' then rbind (stoi val) (\<lambda>n. Inr (cfg\<lparr>cfg_metrics_port := word_of_int n\<rparr>))
      else if key = ''log_level'' then Inr (cfg\<lparr>cfg_log_level := val\<rparr>)
      else if key = ''log_file'' then Inr (cfg\<lparr>cfg_log_file := val\<rparr>)
      else if key = ''sweep_interval_ms'' then rbind (stoi val) (\<lambda>n. Inr (cfg\<lparr>cfg_sweep_interval_ms := n\<rparr>))
      else Inr cfg)"

definition find_char :: "char \<Rightarrow> string \<Rightarrow> nat option" where
  "find_char c s = (let n = length (takeWhile (\<lambda>d. d \<noteq> c) s) in if n = length s then None else Some n)"

definition config_line :: "string \<Rightarrow> config \<Rightarrow> config result" where
  "config_line line0 cfg =
     (let line = trim (case find_char (CHR ''#'') line0 of None \<Rightarrow> line0 | Some hash \<Rightarrow> take hash line0) in
      if line = [] then Inr cfg
      else case find_char (CHR ''='') line of
             None \<Rightarrow> Inr cfg
           | Some eq \<Rightarrow> config_set (trim (take eq line)) (trim (drop (eq + 1) line)) cfg)"

text \<open>\<open>std::getline\<close>: the text before the next line feed, or the rest of the file if it is not empty.\<close>

definition getline :: "string \<Rightarrow> (string \<times> string) option" where
  "getline s =
     (if s = [] then None
      else Some (takeWhile (\<lambda>c. c \<noteq> CHR 0x0A) s, drop 1 (dropWhile (\<lambda>c. c \<noteq> CHR 0x0A) s)))"

lemma getline_shrinks: "getline s = Some (line, rest) \<Longrightarrow> length rest < length s"
proof -
  assume g: "getline s = Some (line, rest)"
  then obtain c s' where s: "s = c # s'" by (cases s) (auto simp: getline_def)
  have "length (dropWhile (\<lambda>c. c \<noteq> CHR 0x0A) s) \<le> length s" by (rule length_dropWhile_le)
  with g s show ?thesis by (auto simp: getline_def)
qed

function config_loop :: "string \<Rightarrow> config \<Rightarrow> config result" where
  "config_loop f cfg =
     (case getline f of
        None \<Rightarrow> Inr cfg
      | Some (line, f') \<Rightarrow> rbind (config_line line cfg) (\<lambda>cfg'. config_loop f' cfg'))"
  by pat_completeness auto
termination
  by (relation "measure (\<lambda>(f, cfg). length f)") (auto dest: getline_shrinks)

declare config_loop.simps [simp del]

text \<open>The contents of the file, or \<open>None\<close> if it cannot be opened.\<close>

definition from_file :: "string option \<Rightarrow> config result" where
  "from_file content = (case content of None \<Rightarrow> Inr config_default | Some f \<Rightarrow> config_loop f config_default)"

section \<open>Command line\<close>

definition config_arg :: "string \<Rightarrow> string \<Rightarrow> config \<Rightarrow> config result" where
  "config_arg key val cfg =
     (if key = ''--port'' then rbind (stoi val) (\<lambda>n. Inr (cfg\<lparr>cfg_port := word_of_int n\<rparr>))
      else if key = ''--host'' then Inr (cfg\<lparr>cfg_host := val\<rparr>)
      else if key = ''--workers'' then rbind (stoi val) (\<lambda>n. Inr (cfg\<lparr>cfg_worker_threads := word_of_int n\<rparr>))
      else if key = ''--log-level'' then Inr (cfg\<lparr>cfg_log_level := val\<rparr>)
      else if key = ''--max-keys'' then rbind (stoull val) (\<lambda>n. Inr (cfg\<lparr>cfg_max_keys := n\<rparr>))
      else Inr cfg)"

fun apply_args_loop :: "string list \<Rightarrow> config \<Rightarrow> config result" where
  "apply_args_loop (key # val # rest) cfg = rbind (config_arg key val cfg) (\<lambda>cfg'. apply_args_loop rest cfg')"
| "apply_args_loop _ cfg = Inr cfg"

definition apply_args :: "string list \<Rightarrow> config \<Rightarrow> config result" where
  "apply_args argv cfg = apply_args_loop (drop 1 argv) cfg"

text \<open>The search of \<open>main\<close> for \<open>--config\<close> looks at every position, not only at those of keys.\<close>

fun config_path_loop :: "string list \<Rightarrow> string" where
  "config_path_loop (arg # next_arg # rest) =
     (if arg = ''--config'' then next_arg else config_path_loop (next_arg # rest))"
| "config_path_loop _ = []"

definition main_config :: "(string \<rightharpoonup> string) \<Rightarrow> string list \<Rightarrow> config result" where
  "main_config fs argv =
     (let config_path = config_path_loop (drop 1 argv) in
      rbind (if config_path = [] then Inr config_default else from_file (fs config_path)) (apply_args argv))"

end
