(* ===== verification/Tcp_Listener.thy ===== *)
theory Tcp_Listener
  imports Cache_Prelude
begin

text \<open>
  Creating the listening socket (\<open>src/src/network/TcpListener.cpp\<close>). The kernel's sockets are a record:
  which descriptors are open, to which address they are bound, and which listen. The answers of the
  system calls are arguments.
\<close>

section \<open>Sockets of the process\<close>

datatype bind_address = AnyAddress | HostAddress string

record sockets =
  open_fds :: "int set"
  bound :: "int \<rightharpoonup> bind_address \<times> 16 word"
  listening :: "int \<rightharpoonup> int"

definition sock_open :: "int \<Rightarrow> sockets \<Rightarrow> sockets" where
  "sock_open fd N = N\<lparr>open_fds := insert fd (open_fds N)\<rparr>"

definition sock_close :: "int \<Rightarrow> sockets \<Rightarrow> sockets" where
  "sock_close fd N = N\<lparr>open_fds := open_fds N - {fd}, bound := (bound N)(fd := None), listening := (listening N)(fd := None)\<rparr>"

definition sock_bind :: "int \<Rightarrow> bind_address \<Rightarrow> 16 word \<Rightarrow> sockets \<Rightarrow> sockets" where
  "sock_bind fd addr port N = N\<lparr>bound := (bound N)(fd \<mapsto> (addr, port))\<rparr>"

definition sock_listen :: "int \<Rightarrow> int \<Rightarrow> sockets \<Rightarrow> sockets" where
  "sock_listen fd backlog N = N\<lparr>listening := (listening N)(fd \<mapsto> backlog)\<rparr>"

definition sockets_ok :: "sockets \<Rightarrow> bool" where
  "sockets_ok N \<longleftrightarrow> dom (bound N) \<subseteq> open_fds N \<and> dom (listening N) \<subseteq> open_fds N"

section \<open>The listener\<close>

text \<open>
  \<open>socket_fd\<close> is the answer of \<open>socket\<close>, \<open>pton_ok\<close> says that \<open>inet_pton\<close> accepts the host, and \<open>why\<close> is the
  text of \<open>strerror\<close>.
\<close>

record listen_answers =
  socket_fd :: int
  pton_ok :: bool
  bind_ok :: bool
  listen_ok :: bool
  why :: string

definition create_tcp_listener ::
  "listen_answers \<Rightarrow> string \<Rightarrow> 16 word \<Rightarrow> int \<Rightarrow> sockets \<Rightarrow> int result \<times> sockets" where
  "create_tcp_listener an host port backlog N =
     (let fd = socket_fd an in
      if fd < 0 then (Inl (RuntimeError (''socket() failed: '' @ why an)), N)
      else
        let N1 = sock_open fd N;
            any_host = (host = ''0.0.0.0'' \<or> host = []);
            addr = (if any_host then AnyAddress else HostAddress host)
        in if \<not> any_host \<and> \<not> pton_ok an
           then (Inl (RuntimeError (''Invalid bind address: '' @ host)), sock_close fd N1)
           else if \<not> bind_ok an
           then (Inl (RuntimeError (''bind() failed: '' @ why an)), sock_close fd N1)
           else
             let N2 = sock_bind fd addr port N1 in
             if \<not> listen_ok an
             then (Inl (RuntimeError (''listen() failed: '' @ why an)), sock_close fd N2)
             else (Inr fd, sock_listen fd backlog N2))"

lemma close_fresh:
  assumes "sockets_ok N" and "fd \<notin> open_fds N"
  shows "sock_close fd (sock_open fd N) = N" "sock_close fd (sock_bind fd a p (sock_open fd N)) = N"
proof -
  have "bound N fd = None" "listening N fd = None" using assms by (auto simp: sockets_ok_def)
  with assms(2) show "sock_close fd (sock_open fd N) = N" "sock_close fd (sock_bind fd a p (sock_open fd N)) = N"
    by (simp_all add: sock_close_def sock_open_def sock_bind_def fun_upd_idem)
qed

section \<open>Property\<close>

text \<open>
  No descriptor leaks. If any step of the set-up fails, an exception is thrown and the sockets of the
  process are exactly what they were; otherwise one new descriptor is open, bound to the configured
  address and port (every interface for an empty host or 0.0.0.0), and listens with the given backlog.
\<close>

theorem listener_no_leak:
  assumes "sockets_ok N" and "socket_fd an \<notin> open_fds N"
  shows "case create_tcp_listener an host port backlog N of
           (Inl f, N') \<Rightarrow> (\<exists>msg. f = RuntimeError msg) \<and> N' = N
         | (Inr fd, N') \<Rightarrow> 0 \<le> fd \<and> sockets_ok N' \<and> open_fds N' = insert fd (open_fds N) \<and>
             bound N' = (bound N)(fd \<mapsto> (if host = [] \<or> host = ''0.0.0.0'' then AnyAddress else HostAddress host, port)) \<and>
             listening N' = (listening N)(fd \<mapsto> backlog)"
  using assms close_fresh [OF assms]
  by (auto simp: create_tcp_listener_def Let_def sockets_ok_def sock_open_def sock_bind_def sock_listen_def)

theorem listener_no_leak_witness:
  "case create_tcp_listener \<lparr>socket_fd = 3, pton_ok = True, bind_ok = False, listen_ok = True, why = ''in use''\<rparr> [] 6399 1024
          \<lparr>open_fds = {0, 1, 2}, bound = Map.empty, listening = Map.empty\<rparr> of
     (Inl f, N') \<Rightarrow> f = RuntimeError (''bind() failed: in use'') \<and> open_fds N' = {0, 1, 2}
   | (Inr fd, N') \<Rightarrow> False"
  using listener_no_leak [of "\<lparr>open_fds = {0, 1, 2}, bound = Map.empty, listening = Map.empty\<rparr>"
      "\<lparr>socket_fd = 3, pton_ok = True, bind_ok = False, listen_ok = True, why = ''in use''\<rparr>" "[]" 6399 1024]
  by (simp add: sockets_ok_def create_tcp_listener_def Let_def)

end
