(* ===== verification/Http_Server.thy ===== *)
theory Http_Server
  imports Metrics Config Tcp_Listener
begin

text \<open>
  The metrics HTTP server (\<open>src/src/metrics/HttpServer.cpp\<close>): starting and stopping, the accept loop of
  its thread, the request line, the routes and the response. Floating-point formatting and the integer
  formatting of the fmt library are parameters, as in the metrics.
\<close>

section \<open>Requests and responses\<close>

text \<open>\<open>operator>>\<close> of a string stream: skip white space, take the next word.\<close>

definition next_word :: "string \<Rightarrow> string \<times> string" where
  "next_word s =
     (let t = dropWhile is_space s in (takeWhile (\<lambda>c. \<not> is_space c) t, dropWhile (\<lambda>c. \<not> is_space c) t))"

definition stats_json :: "externals \<Rightarrow> float_env \<Rightarrow> snapshot \<Rightarrow> string" where
  "stats_json e E s =
     ''{\"total_commands\":'' @ fmt_int e (snap_total_commands s) @
     '',\"total_hits\":'' @ fmt_int e (snap_total_hits s) @
     '',\"total_misses\":'' @ fmt_int e (snap_total_misses s) @
     '',\"active_connections\":'' @ fmt_int e (snap_active_connections s) @
     '',\"key_count\":'' @ fmt_int e (snap_key_count s) @
     '',\"memory_bytes\":'' @ fmt_int e (snap_memory_bytes s) @
     '',\"avg_latency_us\":'' @ fmt_fixed E 2 (avg_latency_us s) @
     '',\"hit_rate\":'' @ fmt_fixed E 4 (hit_rate s) @
     '',\"commands_per_sec\":'' @ fmt_int e (snap_commands_per_sec s) @ ''}''"

definition route :: "externals \<Rightarrow> float_env \<Rightarrow> int \<Rightarrow> string \<Rightarrow> string \<Rightarrow> metrics \<Rightarrow> (string \<times> metrics) result" where
  "route e E now meth path m =
     (if path = ''/metrics'' then prometheus_text e E now m
      else if path = ''/health'' then Inr (''{\"status\":\"ok\"}'', m)
      else if path = ''/stats'' then rbind (metrics_snapshot E now m) (\<lambda>(s, m'). Inr (stats_json e E s, m'))
      else Inr (''{\"error\":\"not found\"}'', m))"

definition http_response :: "externals \<Rightarrow> string \<Rightarrow> string \<Rightarrow> string" where
  "http_response e content_type body =
     ''HTTP/1.1 200 OK'' @ crlf @ ''Content-Type: '' @ content_type @ crlf @
     ''Content-Length: '' @ fmt_int e (int (length body)) @ crlf @
     ''Access-Control-Allow-Origin: *'' @ crlf @ ''Connection: close'' @ crlf @ crlf @ body"

text \<open>What \<open>recv\<close> delivers of the request (nothing on an error or at the end), at most 2047 bytes.\<close>

definition handle_client ::
  "externals \<Rightarrow> float_env \<Rightarrow> int \<Rightarrow> string \<Rightarrow> metrics \<Rightarrow> (string option \<times> metrics) result" where
  "handle_client e E now received m =
     (let req = take 2047 received in
      if req = [] then Inr (None, m)
      else
        case next_word req of (meth, rest) \<Rightarrow>
        case next_word rest of (path, _) \<Rightarrow>
          rbind (route e E now meth path m) (\<lambda>(body, m').
            let content_type = (if path = ''/metrics'' then ''text/plain; version=0.0.4; charset=utf-8''
                                else ''application/json'')
            in Inr (Some (http_response e content_type body), m')))"

section \<open>The server thread\<close>

datatype http_accept = HttpClient string int | HttpAcceptError

text \<open>
  Each turn of \<open>serve_loop\<close> comes with the value of the running flag it sees and the answer of \<open>accept\<close>;
  the result collects the responses.
\<close>

fun serve_loop ::
  "externals \<Rightarrow> float_env \<Rightarrow> (bool \<times> http_accept) list \<Rightarrow> metrics \<Rightarrow> (string option list \<times> metrics) result" where
  "serve_loop e E [] m = Inr ([], m)"
| "serve_loop e E ((is_running, answer) # rest) m =
     (if \<not> is_running then Inr ([], m)
      else case answer of
             HttpAcceptError \<Rightarrow> Inr ([], m)
           | HttpClient received now \<Rightarrow>
               rbind (handle_client e E now received m) (\<lambda>(resp, m1).
               rbind (serve_loop e E rest m1) (\<lambda>(resps, m2). Inr (resp # resps, m2))))"

record http_server =
  http_port :: "16 word"
  http_fd :: int
  http_running :: bool
  http_thread :: bool

definition http_server_init :: "16 word \<Rightarrow> http_server" where
  "http_server_init port = \<lparr>http_port = port, http_fd = -1, http_running = False, http_thread = False\<rparr>"

text \<open>A failure to start is logged and otherwise ignored; so is the result of \<open>listen\<close>.\<close>

definition http_start :: "listen_answers \<Rightarrow> http_server \<Rightarrow> sockets \<Rightarrow> http_server \<times> sockets" where
  "http_start an h N =
     (let fd = socket_fd an in
      if fd < 0 then (h\<lparr>http_fd := fd\<rparr>, N)
      else
        let N1 = sock_open fd N in
        if \<not> bind_ok an then (h\<lparr>http_fd := -1\<rparr>, sock_close fd N1)
        else
          let N2 = sock_bind fd AnyAddress (http_port h) N1;
              N3 = (if listen_ok an then sock_listen fd 8 N2 else N2)
          in (h\<lparr>http_fd := fd, http_running := True, http_thread := True\<rparr>, N3))"

definition http_stop :: "http_server \<Rightarrow> sockets \<Rightarrow> http_server \<times> sockets" where
  "http_stop h N =
     (let h1 = h\<lparr>http_running := False\<rparr> in
      if http_fd h1 \<ge> 0 then (h1\<lparr>http_fd := -1, http_thread := False\<rparr>, sock_close (http_fd h1) N)
      else (h1\<lparr>http_thread := False\<rparr>, N))"

section \<open>Facts\<close>

lemma route_fault: "route e E now meth path m = Inl f \<Longrightarrow> f = SignedOverflow"
  by (auto simp: route_def rbind_eq_Inl dest: prometheus_text_fault metrics_snapshot_fault split: if_splits)

lemma handle_client_fault: "handle_client e E now received m = Inl f \<Longrightarrow> f = SignedOverflow"
  by (auto simp: handle_client_def Let_def rbind_eq_Inl dest: route_fault split: if_splits prod.splits)

lemma serve_loop_fault: "serve_loop e E turns m = Inl f \<Longrightarrow> f = SignedOverflow"
  by (induction e E turns m rule: serve_loop.induct)
    (auto simp: rbind_eq_Inl dest: handle_client_fault split: if_splits http_accept.splits)

text \<open>The status line does not depend on the route: a path that does not exist is answered with 200.\<close>

lemma not_found_is_200:
  "\<exists>resp. handle_client e E now ''GET /nowhere HTTP/1.1'' m = Inr (Some (''HTTP/1.1 200 OK'' @ resp), m)"
  by (simp add: handle_client_def next_word_def is_space_def route_def http_response_def)

text \<open>Stopping after a start closes the socket again.\<close>

lemma http_stop_after_start:
  assumes "sockets_ok N" and "socket_fd an \<notin> open_fds N" and "http_start an h N = (h', N')"
  shows "open_fds (snd (http_stop h' N')) = open_fds N"
  using assms close_fresh(1) [OF assms(1,2)]
  by (auto simp: http_start_def http_stop_def Let_def sock_close_def sock_open_def sock_bind_def sock_listen_def
      split: if_splits)

end
