(* ===== verification/Step_Systems.thy ===== *)
theory Step_Systems
  imports Main
begin

text \<open>
  Invariants and simulations of step relations, stated once: an inductive invariant holds in every
  reachable state, and a forward simulation carries every run of a system over to its specification.
  The locales are interpreted for the interleaved store and for the thread pool.
\<close>

locale step_invariant =
  fixes step :: "'s \<Rightarrow> 's \<Rightarrow> bool"
    and inv :: "'s \<Rightarrow> bool"
  assumes inv_step: "step s s' \<Longrightarrow> inv s \<Longrightarrow> inv s'"
begin

lemma inv_reachable: "step\<^sup>*\<^sup>* s s' \<Longrightarrow> inv s \<Longrightarrow> inv s'"
  by (induction rule: rtranclp_induct) (auto intro: inv_step)

end

text \<open>Each step of the system corresponds to any number of steps of the specification.\<close>

locale forward_simulation =
  fixes step :: "'s \<Rightarrow> 's \<Rightarrow> bool"
    and spec :: "'a \<Rightarrow> 'a \<Rightarrow> bool"
    and rel :: "'s \<Rightarrow> 'a \<Rightarrow> bool"
  assumes sim_step: "step s s' \<Longrightarrow> rel s a \<Longrightarrow> \<exists>a'. spec\<^sup>*\<^sup>* a a' \<and> rel s' a'"
begin

lemma sim_reachable: "step\<^sup>*\<^sup>* s s' \<Longrightarrow> rel s a \<Longrightarrow> \<exists>a'. spec\<^sup>*\<^sup>* a a' \<and> rel s' a'"
proof (induction rule: rtranclp_induct)
  case (step s' s'')
  then obtain a' where "spec\<^sup>*\<^sup>* a a'" "rel s' a'" by blast
  with sim_step [OF step.hyps(2)] show ?case by (meson rtranclp_trans)
qed blast

end

lemma list_all_update:
  "list_all P xs \<Longrightarrow> P y \<Longrightarrow> list_all P (xs[i := y])"
  by (auto simp: list_all_iff dest!: set_update_subset_insert [THEN subsetD])

end
