(* ===== verification/Thread_Pool.thy ===== *)
theory Thread_Pool
  imports Cache_Prelude Step_Systems "HOL-Library.Multiset"
begin

text \<open>
  The thread pool (\<open>src/src/concurrency/ThreadPool.cpp\<close> and \<open>.hpp\<close>): the task queue, the critical
  sections of \<open>enqueue\<close>, \<open>worker_loop\<close> and \<open>shutdown\<close>, and their interleaving. The condition variable
  appears as the guard of a worker's critical section. A task is a value; running it is one step, in
  which it ends: \<open>packaged_task\<close> keeps an exception of the callable away from the worker.
\<close>

section \<open>State\<close>

datatype 'a worker = Waiting | Running 'a | Exited

record 'a thread_pool =
  tasks :: "'a list"
  stop_flag :: bool
  workers :: "'a worker list"

definition thread_pool_init :: "nat \<Rightarrow> 'a thread_pool" where
  "thread_pool_init num_threads = \<lparr>tasks = [], stop_flag = False, workers = replicate num_threads Waiting\<rparr>"

definition thread_count :: "'a thread_pool \<Rightarrow> nat" where
  "thread_count p = length (workers p)"

definition queue_depth :: "'a thread_pool \<Rightarrow> nat" where
  "queue_depth p = length (tasks p)"

section \<open>Critical sections\<close>

definition enqueue :: "'a \<Rightarrow> 'a thread_pool \<Rightarrow> 'a thread_pool result" where
  "enqueue t p =
     (if stop_flag p then Inl (RuntimeError ''enqueue on stopped ThreadPool'')
      else Inr (p\<lparr>tasks := tasks p @ [t]\<rparr>))"

text \<open>\<open>None\<close>: the worker waits on the condition variable.\<close>

definition worker_section :: "'a thread_pool \<Rightarrow> ('a worker \<times> 'a thread_pool) option" where
  "worker_section p =
     (if \<not> (stop_flag p \<or> tasks p \<noteq> []) then None
      else if stop_flag p \<and> tasks p = [] then Some (Exited, p)
      else Some (Running (hd (tasks p)), p\<lparr>tasks := tl (tasks p)\<rparr>))"

definition request_stop :: "'a thread_pool \<Rightarrow> 'a thread_pool" where
  "request_stop p = p\<lparr>stop_flag := True\<rparr>"

text \<open>\<open>shutdown\<close> returns once every worker can be joined, and clears the vector of threads.\<close>

definition join_workers :: "'a thread_pool \<Rightarrow> 'a thread_pool option" where
  "join_workers p = (if list_all (\<lambda>w. w = Exited) (workers p) then Some (p\<lparr>workers := []\<rparr>) else None)"

section \<open>Interleaving\<close>

text \<open>A run of the pool with its history: the tasks accepted, started and finished so far, in order.\<close>

record 'a pool_run =
  pool :: "'a thread_pool"
  accepted :: "'a list"
  started :: "'a list"
  completed :: "'a list"

definition pool_start :: "nat \<Rightarrow> 'a pool_run" where
  "pool_start n = \<lparr>pool = thread_pool_init n, accepted = [], started = [], completed = []\<rparr>"

definition put_worker :: "nat \<Rightarrow> 'a worker \<Rightarrow> 'a thread_pool \<Rightarrow> 'a thread_pool" where
  "put_worker i w p = p\<lparr>workers := (workers p)[i := w]\<rparr>"

inductive pool_step :: "'a pool_run \<Rightarrow> 'a pool_run \<Rightarrow> bool" where
  submit: "enqueue t (pool s) = Inr p \<Longrightarrow> pool_step s (s\<lparr>pool := p, accepted := accepted s @ [t]\<rparr>)"
| take: "i < thread_count (pool s) \<Longrightarrow> workers (pool s) ! i = Waiting \<Longrightarrow>
    worker_section (pool s) = Some (Running t, p) \<Longrightarrow>
    pool_step s (s\<lparr>pool := put_worker i (Running t) p, started := started s @ [t]\<rparr>)"
| exit: "i < thread_count (pool s) \<Longrightarrow> workers (pool s) ! i = Waiting \<Longrightarrow>
    worker_section (pool s) = Some (Exited, p) \<Longrightarrow> pool_step s (s\<lparr>pool := put_worker i Exited p\<rparr>)"
| finish: "i < thread_count (pool s) \<Longrightarrow> workers (pool s) ! i = Running t \<Longrightarrow>
    pool_step s (s\<lparr>pool := put_worker i Waiting (pool s), completed := completed s @ [t]\<rparr>)"
| stop: "\<not> stop_flag (pool s) \<Longrightarrow> pool_step s (s\<lparr>pool := request_stop (pool s)\<rparr>)"

section \<open>Invariant\<close>

fun in_hand :: "'a worker \<Rightarrow> 'a list" where
  "in_hand (Running t) = [t]"
| "in_hand _ = []"

definition in_progress :: "'a thread_pool \<Rightarrow> 'a multiset" where
  "in_progress p = mset (concat (map in_hand (workers p)))"

lemma in_progress_put:
  assumes "i < thread_count p"
  shows "in_progress (put_worker i w p) + mset (in_hand (workers p ! i)) = in_progress p + mset (in_hand w)"
proof -
  have i: "i < length (workers p)" using assms by (simp add: thread_count_def)
  have "mset (concat (map in_hand (xs[i := w]))) + mset (in_hand (xs ! i)) = mset (concat (map in_hand xs)) + mset (in_hand w)"
    if "i < length xs" for xs :: "'a worker list"
    using that by (induction xs arbitrary: i) (auto split: nat.splits)
  from this [OF i] show ?thesis by (simp add: in_progress_def put_worker_def)
qed

text \<open>
  Tasks are started in the order of their submission, each once; those started are finished or in the
  hands of a worker; and no worker leaves before the pool is stopped and the queue is empty.
\<close>

definition pool_inv :: "'a pool_run \<Rightarrow> bool" where
  "pool_inv s \<longleftrightarrow>
     accepted s = started s @ tasks (pool s) \<and>
     mset (started s) = mset (completed s) + in_progress (pool s) \<and>
     (Exited \<in> set (workers (pool s)) \<longrightarrow> stop_flag (pool s) \<and> tasks (pool s) = [])"

lemma worker_section_cases:
  assumes "worker_section p = Some (w, p')"
  obtains (work) t ts where "tasks p = t # ts" "w = Running t" "p' = p\<lparr>tasks := ts\<rparr>"
    | (leave) "stop_flag p" "tasks p = []" "w = Exited" "p' = p"
  using assms by (cases "tasks p") (auto simp: worker_section_def split: if_splits)

lemma pool_inv_start: "pool_inv (pool_start n)"
  by (simp add: pool_inv_def pool_start_def thread_pool_init_def in_progress_def map_replicate_const concat_replicate_trivial)

lemma put_worker_sel [simp]:
  "tasks (put_worker i w p) = tasks p" "stop_flag (put_worker i w p) = stop_flag p"
  "workers (put_worker i w p) = (workers p)[i := w]" "put_worker i w (p\<lparr>tasks := ts\<rparr>) = (put_worker i w p)\<lparr>tasks := ts\<rparr>"
  "in_progress (p\<lparr>tasks := ts\<rparr>) = in_progress p" "in_progress (request_stop p) = in_progress p"
  by (simp_all add: put_worker_def in_progress_def request_stop_def)

lemma exited_put: "Exited \<in> set (ws[i := w]) \<Longrightarrow> w \<noteq> Exited \<Longrightarrow> Exited \<in> set ws"
  by (auto dest!: set_update_subset_insert [THEN subsetD])

lemma pool_inv_step:
  assumes "pool_step s s'" and "pool_inv s"
  shows "pool_inv s'"
  using assms
proof (cases rule: pool_step.cases)
  case (submit t p)
  then show ?thesis using assms(2) by (auto simp: pool_inv_def enqueue_def split: if_splits)
next
  case (take i t p)
  from take(4) obtain ts where ts: "tasks (pool s) = t # ts" "p = pool s\<lparr>tasks := ts\<rparr>"
    by (cases rule: worker_section_cases) auto
  from in_progress_put [OF take(2), of "Running t"] take(3) have "in_progress (put_worker i (Running t) (pool s)) = add_mset t (in_progress (pool s))"
    by simp
  with assms(2) ts take(1) show ?thesis by (auto simp: pool_inv_def dest: exited_put)
next
  case (exit i p)
  from exit(4) have leave: "stop_flag (pool s)" "tasks (pool s) = []" "p = pool s"
    by (cases rule: worker_section_cases; simp)+
  from in_progress_put [OF exit(2), of Exited] exit(3) have "in_progress (put_worker i Exited (pool s)) = in_progress (pool s)"
    by simp
  with assms(2) leave exit(1) show ?thesis by (auto simp: pool_inv_def)
next
  case (finish i t)
  from in_progress_put [OF finish(2), of Waiting] finish(3) have "add_mset t (in_progress (put_worker i Waiting (pool s))) = in_progress (pool s)"
    by simp
  with assms(2) finish(1) show ?thesis by (auto simp: pool_inv_def dest: exited_put)
next
  case stop
  with assms(2) show ?thesis by (auto simp: pool_inv_def) (auto simp: request_stop_def)
qed

interpretation pool: step_invariant pool_step pool_inv
  by unfold_locales (rule pool_inv_step)

section \<open>Shutdown\<close>

text \<open>After the stop request every step brings the pool closer to its end.\<close>

fun weight :: "'a worker \<Rightarrow> nat" where
  "weight Waiting = 1" | "weight (Running t) = 2" | "weight Exited = 0"

definition work_left :: "'a pool_run \<Rightarrow> nat" where
  "work_left s = 3 * length (tasks (pool s)) + sum_list (map weight (workers (pool s)))"

lemma sum_list_put:
  assumes "i < thread_count p"
  shows "sum_list (map weight ((workers p)[i := w])) + weight (workers p ! i) = sum_list (map weight (workers p)) + weight w"
proof -
  have "sum_list (map weight (xs[i := w])) + weight (xs ! i) = sum_list (map weight xs) + weight w"
    if "i < length xs" for xs :: "'a worker list"
    using that by (induction xs arbitrary: i) (auto split: nat.splits)
  with assms show ?thesis by (simp add: thread_count_def)
qed

lemma stopped_step:
  assumes "pool_step s s'" and "stop_flag (pool s)"
  shows "stop_flag (pool s') \<and> work_left s' < work_left s \<and> accepted s' = accepted s \<and>
         thread_count (pool s') = thread_count (pool s)"
  using assms
proof (cases rule: pool_step.cases)
  case (take i t p)
  from take(4) obtain ts where ts: "tasks (pool s) = t # ts" "p = pool s\<lparr>tasks := ts\<rparr>"
    by (cases rule: worker_section_cases) auto
  from sum_list_put [OF take(2), of "Running t"] take(3) ts take(1) assms(2) show ?thesis
    by (simp add: work_left_def thread_count_def)
next
  case (exit i p)
  from exit(4) have "p = pool s" by (cases rule: worker_section_cases; simp)
  with sum_list_put [OF exit(2), of Exited] exit(1,3) assms(2) show ?thesis
    by (simp add: work_left_def thread_count_def)
next
  case (finish i t)
  from sum_list_put [OF finish(2), of Waiting] finish(1,3) assms(2) show ?thesis
    by (simp add: work_left_def thread_count_def)
qed (auto simp: enqueue_def)

text \<open>A stopped pool that is not yet drained has a step.\<close>

lemma stopped_progress:
  assumes "stop_flag (pool s)" and "i < thread_count (pool s)" and "workers (pool s) ! i \<noteq> Exited"
  obtains s' where "pool_step s s'"
proof (cases "workers (pool s) ! i")
  case Waiting
  show ?thesis
  proof (cases "tasks (pool s)")
    case Nil
    with assms(1) have "worker_section (pool s) = Some (Exited, pool s)" by (simp add: worker_section_def)
    from that [OF pool_step.exit [OF assms(2) Waiting this]] show ?thesis .
  next
    case (Cons t ts)
    then have "worker_section (pool s) = Some (Running t, (pool s)\<lparr>tasks := ts\<rparr>)" by (simp add: worker_section_def)
    from that [OF pool_step.take [OF assms(2) Waiting this]] show ?thesis .
  qed
next
  case (Running t)
  from that [OF pool_step.finish [OF assms(2) this]] show ?thesis .
qed (use assms(3) in simp)

lemma drained:
  assumes "pool_inv s" and "0 < thread_count (pool s)" and "list_all (\<lambda>w. w = Exited) (workers (pool s))"
  shows "tasks (pool s) = [] \<and> mset (completed s) = mset (accepted s)"
proof -
  have "Exited \<in> set (workers (pool s))" using assms(2,3) by (cases "workers (pool s)") (auto simp: thread_count_def)
  moreover have "in_progress (pool s) = {#}" using assms(3) by (auto simp: in_progress_def list_all_iff)
  ultimately show ?thesis using assms(1) by (simp add: pool_inv_def)
qed

lemma step_thread_count: "pool_step s s' \<Longrightarrow> thread_count (pool s') = thread_count (pool s)"
  by (cases rule: pool_step.cases)
    (auto simp: enqueue_def request_stop_def thread_count_def elim!: worker_section_cases split: if_splits)

lemma reachable_thread_count: "pool_step\<^sup>*\<^sup>* s s' \<Longrightarrow> thread_count (pool s') = thread_count (pool s)"
  by (induction rule: rtranclp_induct) (simp_all add: step_thread_count)

lemma stopped_reachable:
  assumes "pool_step\<^sup>*\<^sup>* s s'" and "stop_flag (pool s)"
  shows "stop_flag (pool s') \<and> accepted s' = accepted s"
  using assms by (induction rule: rtranclp_induct) (auto dest: stopped_step)

lemma stopped_bounded:
  assumes "(pool_step ^^ k) s s'" and "stop_flag (pool s)"
  shows "k + work_left s' \<le> work_left s"
  using assms
proof (induction k arbitrary: s')
  case (Suc k)
  then obtain s1 where s1: "(pool_step ^^ k) s s1" "pool_step s1 s'" by auto
  have "stop_flag (pool s1)" using stopped_reachable [of s s1] s1(1) Suc.prems(2) by (auto dest: relpowp_imp_rtranclp)
  from Suc.IH [OF s1(1) Suc.prems(2)] stopped_step [OF s1(2) this] show ?case by simp
qed simp

lemma stuck_is_drained:
  assumes "pool_inv s" and "0 < thread_count (pool s)" and "stop_flag (pool s)" and "\<nexists>s'. pool_step s s'"
  shows "join_workers (pool s) \<noteq> None \<and> mset (completed s) = mset (accepted s)"
proof -
  have "list_all (\<lambda>w. w = Exited) (workers (pool s))"
    using stopped_progress [OF assms(3)] assms(4) by (auto simp: list_all_length thread_count_def)
  with drained [OF assms(1,2)] show ?thesis by (simp add: join_workers_def)
qed

section \<open>Properties\<close>

text \<open>
  C22: Tasks are executed in order and exactly once. In every state the pool can reach, the tasks that
  workers have taken are exactly the first ones that were accepted, in the order of acceptance; those
  taken are finished or in the hands of a worker, none lost and none duplicated.
\<close>

theorem tasks_fifo_exactly_once:
  assumes "pool_step\<^sup>*\<^sup>* (pool_start n) s"
  shows "accepted s = started s @ tasks (pool s) \<and>
         mset (started s) = mset (completed s) + in_progress (pool s)"
  using pool.inv_reachable [OF assms pool_inv_start] by (simp add: pool_inv_def)


text \<open>Two workers, one task accepted, then the stop request.\<close>

lemma example_run:
  "\<exists>s. pool_step\<^sup>*\<^sup>* (pool_start 2) s \<and> stop_flag (pool s) \<and> accepted s = [''job''] \<and> work_left s = 5"
proof -
  let ?s0 = "pool_start 2 :: string pool_run"
  let ?s1 = "?s0\<lparr>pool := (pool ?s0)\<lparr>tasks := [''job'']\<rparr>, accepted := [''job'']\<rparr>"
  let ?s2 = "?s1\<lparr>pool := request_stop (pool ?s1)\<rparr>"
  have "pool_step ?s0 ?s1"
    using pool_step.submit [of "''job''" ?s0] by (simp add: pool_start_def thread_pool_init_def enqueue_def)
  moreover have "pool_step ?s1 ?s2"
    by (rule pool_step.stop) (simp add: pool_start_def thread_pool_init_def)
  ultimately have "pool_step\<^sup>*\<^sup>* ?s0 ?s2" by simp
  moreover have "stop_flag (pool ?s2)" "accepted ?s2 = [''job'']" "work_left ?s2 = 5"
    by (simp_all add: request_stop_def work_left_def pool_start_def thread_pool_init_def numeral_2_eq_2)
  ultimately show ?thesis by blast
qed

theorem tasks_fifo_exactly_once_witness:
  "\<exists>s :: string pool_run. accepted s = [''job''] \<and> [''job''] = started s @ tasks (pool s) \<and> stop_flag (pool s)"
proof -
  obtain s where s: "pool_step\<^sup>*\<^sup>* (pool_start 2) s" "accepted s = [''job'']" "stop_flag (pool s)"
    using example_run by blast
  show ?thesis using tasks_fifo_exactly_once [OF s(1)] s(2,3) by (intro exI [of _ s]) simp
qed


end
