(* ===== verification/Logger.thy ===== *)
theory Logger
  imports Cache_Prelude
begin

text \<open>
  Setting up the log (\<open>src/src/util/Logger.hpp\<close>): which sinks are created with which patterns and limits,
  the level and the level from which lines are flushed. Writing lines is the business of spdlog. Its
  conversion of a level name is a parameter, and so is whether the log file can be opened: the
  constructor of a file sink throws an exception if it cannot.
\<close>

datatype log_level = LogTrace | LogDebug | LogInfo | LogWarn | LogErr | LogCritical | LogOff

datatype sink =
    ConsoleSink (sink_pattern: string)
  | RotatingFileSink (sink_file: string) (max_size: nat) (max_files: nat) (sink_pattern: string)

record logger =
  logger_name :: string
  logger_sinks :: "sink list"
  logger_level :: log_level
  logger_flush_on :: log_level

definition init_logger :: "(string \<Rightarrow> log_level) \<Rightarrow> bool \<Rightarrow> string \<Rightarrow> string \<Rightarrow> logger result" where
  "init_logger from_str can_open log_level log_file =
     (let console_sink = ConsoleSink ''[%Y-%m-%d %H:%M:%S.%e] [%^%l%$] [%t] %v'';
          configured = (\<lambda>sinks. \<lparr>logger_name = ''cache'', logger_sinks = sinks, logger_level = from_str log_level,
                                 logger_flush_on = LogWarn\<rparr>)
      in if log_file = [] then Inr (configured [console_sink])
         else if \<not> can_open then Inl (RuntimeError ''spdlog_ex'')
         else Inr (configured [console_sink,
                RotatingFileSink log_file (10 * 1024 * 1024) 3 ''[%Y-%m-%d %H:%M:%S.%e] [%l] [%t] %v'']))"

text \<open>Only a log file can make the setup fail, and the console is always among the sinks.\<close>

lemma init_logger_fault:
  "init_logger from_str can_open level file = Inl f \<longleftrightarrow> file \<noteq> [] \<and> \<not> can_open \<and> f = RuntimeError ''spdlog_ex''"
  by (auto simp: init_logger_def Let_def)

lemma init_logger_sinks:
  assumes "init_logger from_str can_open level file = Inr lg"
  shows "sink_pattern (hd (logger_sinks lg)) = ''[%Y-%m-%d %H:%M:%S.%e] [%^%l%$] [%t] %v''"
    and "sink_file ` set (tl (logger_sinks lg)) = (if file = [] then {} else {file})"
    and "logger_level lg = from_str level"
  using assms by (auto simp: init_logger_def Let_def split: if_splits)

end
