(* ===== verification/Server.thy ===== *)
theory Server
  imports Aof Event_Loop_Properties Http_Server Thread_Pool Logger
begin

text \<open>
  The server as a whole (\<open>src/src/server/Server.cpp\<close>): construction from the configuration, the start-up
  sequence of \<open>run\<close>, the rounds of the event loop and of the maintenance thread, and the shutdown
  sequence. Everything the environment decides (files, answers of the kernel, clock readings) is an
  argument. Rounds of the maintenance thread are placed between rounds of the event loop; the finer
  interleavings of the store operations they consist of are treated in \<open>Store_Concurrency\<close>.
\<close>

section \<open>State\<close>

record server =
  srv_cfg :: config
  srv_state :: server_state
  srv_loop :: "epoll_set event_loop"
  srv_http :: http_server
  srv_aof :: aof
  srv_pool :: "unit thread_pool"
  srv_listen_fd :: int
  srv_running :: bool
  srv_last_save :: int

definition server_init :: "config \<Rightarrow> server" where
  "server_init cfg =
     \<lparr>srv_cfg = cfg,
      srv_state = \<lparr>st_store = store_init (unat (cfg_max_keys cfg)), st_metrics = metrics_init\<rparr>,
      srv_loop = event_loop_init Map.empty,
      srv_http = http_server_init (cfg_metrics_port cfg),
      srv_aof = aof_init (cfg_aof_path cfg),
      srv_pool = thread_pool_init (unat (cfg_worker_threads cfg)),
      srv_listen_fd = -1, srv_running = False, srv_last_save = 0\<rparr>"

text \<open>
  The constructor: the event loop is a member and created before the body runs, the body sets up the log.
  Only then does the static pointer \<open>instance\<close> name the server.
\<close>

definition server_construct :: "(string \<Rightarrow> log_level) \<Rightarrow> bool \<Rightarrow> int \<Rightarrow> config \<Rightarrow> server result" where
  "server_construct from_str can_open_log epoll_fd cfg =
     rbind (epoll_loop_create epoll_fd) (\<lambda>L.
     rbind (init_logger from_str can_open_log (cfg_log_level cfg) (cfg_log_file cfg)) (\<lambda>lg.
       Inr ((server_init cfg)\<lparr>srv_loop := L\<rparr>)))"

text \<open>What lies outside the process.\<close>

record world =
  w_fs :: file_system
  w_net :: sockets

section \<open>Starting\<close>

record start_input =
  in_load_clk :: "nat \<Rightarrow> int"
  in_load_now :: int
  in_can_open :: bool
  in_replay_clk :: "nat \<Rightarrow> nat \<Rightarrow> int"
  in_http :: listen_answers
  in_listen :: listen_answers
  in_fcntl_get :: bool
  in_fcntl_set :: bool
  in_epoll_add :: bool
  in_start_time :: int

text \<open>Loading the persisted data: the snapshot, then the log on top of it.\<close>

definition load_snapshot_phase :: "externals \<Rightarrow> start_input \<Rightarrow> file_system \<Rightarrow> server \<Rightarrow> server result" where
  "load_snapshot_phase e si fs S =
     (if cfg_rdb_enabled (srv_cfg S) then
        rbind (rdb_load e (in_load_clk si) (in_load_now si) (cfg_rdb_path (srv_cfg S)) fs (st_store (srv_state S)))
          (\<lambda>(loaded, s). Inr (S\<lparr>srv_state := (srv_state S)\<lparr>st_store := s\<rparr>\<rparr>))
      else Inr S)"

definition load_log_phase :: "externals \<Rightarrow> start_input \<Rightarrow> world \<Rightarrow> server \<Rightarrow> (server \<times> world) result option" where
  "load_log_phase e si W S =
     (if cfg_aof_enabled (srv_cfg S) then
        (case aof_open (in_can_open si) (srv_aof S) (w_fs W) of (opened, a, fs) \<Rightarrow>
           (case aof_replay e (dispatch_executor e (in_replay_clk si)) (aof_path a) fs (st_store (srv_state S)) of
              None \<Rightarrow> None
            | Some (Inl f) \<Rightarrow> Some (Inl f)
            | Some (Inr (n, s)) \<Rightarrow>
                Some (Inr (S\<lparr>srv_aof := a, srv_state := (srv_state S)\<lparr>st_store := s\<rparr>\<rparr>, W\<lparr>w_fs := fs\<rparr>))))
      else Some (Inr (S, W)))"

text \<open>The metrics server, the listening socket and its registration with the event loop.\<close>

definition network_phase :: "start_input \<Rightarrow> world \<Rightarrow> server \<Rightarrow> (server \<times> world) result" where
  "network_phase si W S =
     (let cfg = srv_cfg S;
          (h, N1) = (if cfg_metrics_enabled cfg then http_start (in_http si) (srv_http S) (w_net W)
                     else (srv_http S, w_net W));
          (r, N2) = create_tcp_listener (in_listen si) (cfg_host cfg) (cfg_port cfg) (cfg_backlog cfg) N1
      in rbind r (\<lambda>fd.
         rbind (epoll_add_listener (in_fcntl_get si) (in_fcntl_set si) (in_epoll_add si) fd (srv_loop S)) (\<lambda>L.
           Inr (S\<lparr>srv_http := h, srv_listen_fd := fd, srv_loop := L, srv_running := True,
                  srv_last_save := in_start_time si\<rparr>, W\<lparr>w_net := N2\<rparr>))))"

definition server_start :: "externals \<Rightarrow> start_input \<Rightarrow> world \<Rightarrow> server \<Rightarrow> (server \<times> world) result option" where
  "server_start e si W S =
     (case load_snapshot_phase e si (w_fs W) S of
        Inl f \<Rightarrow> Some (Inl f)
      | Inr S1 \<Rightarrow>
          (case load_log_phase e si W S1 of
             None \<Rightarrow> None
           | Some (Inl f) \<Rightarrow> Some (Inl f)
           | Some (Inr (S2, W2)) \<Rightarrow>
               (case network_phase si W2 S2 of
                  Inl f \<Rightarrow> Some (Inl f)
                | Inr (S3, W3) \<Rightarrow> Some (Inr (S3\<lparr>srv_loop := (srv_loop S3)\<lparr>running := True\<rparr>\<rparr>, W3)))))"

section \<open>Maintenance\<close>

record tick_input =
  in_sweep_now :: int
  in_now :: int
  in_save_now :: int
  in_save_io :: save_io

definition maintenance_round :: "tick_input \<Rightarrow> server \<Rightarrow> file_system \<Rightarrow> (server \<times> file_system) result" where
  "maintenance_round ti S fs =
     rbind (store_sweep_expired (st_store (srv_state S)) (in_sweep_now ti)) (\<lambda>(removed, s).
     let m = set_key_count (wrap64 (int (store_size s))) (st_metrics (srv_state S));
         S1 = S\<lparr>srv_state := \<lparr>st_store = s, st_metrics = m\<rparr>\<rparr>;
         rdb_interval_ms = cfg_rdb_interval_secs (srv_cfg S) * 1000
     in if \<not> cfg_rdb_enabled (srv_cfg S) then Inr (S1, fs)
        else rbind (sub64 (in_now ti) (srv_last_save S)) (\<lambda>elapsed.
          if elapsed \<ge> rdb_interval_ms then
            (case rdb_save (cfg_rdb_path (srv_cfg S)) (in_save_io ti) s (in_save_now ti) fs of
               (saved, fs') \<Rightarrow> Inr (S1\<lparr>srv_last_save := in_now ti\<rparr>, fs'))
          else Inr (S1, fs)))"

section \<open>Serving\<close>

text \<open>A tick is a round of the event loop (with the flag for a \<open>stop\<close> during it) or of the maintenance thread.\<close>

datatype tick = LoopTick "epoll_event list" bool | MaintenanceTick tick_input

definition server_stop :: "server \<Rightarrow> server" where
  "server_stop S = S\<lparr>srv_loop := loop_stop (srv_loop S), srv_running := False\<rparr>"

text \<open>The handler of \<open>SIGINT\<close> and \<open>SIGTERM\<close>; the argument is what \<open>instance\<close> points to.\<close>

definition signal_handler :: "server option \<Rightarrow> server option" where
  "signal_handler inst = (case inst of None \<Rightarrow> None | Some S \<Rightarrow> Some (server_stop S))"

definition server_tick ::
  "externals \<Rightarrow> float_env \<Rightarrow> tick \<Rightarrow> server \<Rightarrow> world \<Rightarrow> ((int \<times> string) list \<times> server \<times> world) result option" where
  "server_tick e E t S W =
     (case t of
        LoopTick evs stopped \<Rightarrow>
          (case run_rounds epoll epoll_event_handler e E [(evs, False)] (srv_loop S) (srv_state S) of
             None \<Rightarrow> None
           | Some (Inl f) \<Rightarrow> Some (Inl f)
           | Some (Inr (sent, L, st)) \<Rightarrow>
               let S1 = S\<lparr>srv_loop := L, srv_state := st\<rparr> in
               Some (Inr (sent, if stopped then server_stop S1 else S1, W)))
      | MaintenanceTick ti \<Rightarrow>
          if \<not> srv_running S then Some (Inr ([], S, W))
          else case maintenance_round ti S (w_fs W) of
                 Inl f \<Rightarrow> Some (Inl f)
               | Inr (S1, fs) \<Rightarrow> Some (Inr ([], S1, W\<lparr>w_fs := fs\<rparr>)))"

fun server_ticks ::
  "externals \<Rightarrow> float_env \<Rightarrow> tick list \<Rightarrow> server \<Rightarrow> world \<Rightarrow> ((int \<times> string) list \<times> server \<times> world) result option" where
  "server_ticks e E [] S W = Some (Inr ([], S, W))"
| "server_ticks e E (t # ts) S W =
     (case server_tick e E t S W of
        None \<Rightarrow> None
      | Some (Inl f) \<Rightarrow> Some (Inl f)
      | Some (Inr (sent, S1, W1)) \<Rightarrow>
          (case server_ticks e E ts S1 W1 of
             None \<Rightarrow> None
           | Some (Inl f) \<Rightarrow> Some (Inl f)
           | Some (Inr (sent', r)) \<Rightarrow> Some (Inr (sent @ sent', r))))"

section \<open>Stopping\<close>

definition server_shutdown :: "save_io \<Rightarrow> int \<Rightarrow> server \<Rightarrow> world \<Rightarrow> server \<times> world" where
  "server_shutdown io now S W =
     (let cfg = srv_cfg S;
          fs = (if cfg_rdb_enabled cfg
                then snd (rdb_save (cfg_rdb_path cfg) io (st_store (srv_state S)) now (w_fs W)) else w_fs W);
          a = (if cfg_aof_enabled cfg then aof_close (srv_aof S) else srv_aof S);
          (h, N1) = (if cfg_metrics_enabled cfg then http_stop (srv_http S) (w_net W) else (srv_http S, w_net W));
          N2 = (if srv_listen_fd S \<ge> 0 then sock_close (srv_listen_fd S) N1 else N1)
      in (S\<lparr>srv_running := False, srv_aof := a, srv_http := h, srv_listen_fd := -1\<rparr>, \<lparr>w_fs = fs, w_net = N2\<rparr>))"

definition server_run ::
  "externals \<Rightarrow> float_env \<Rightarrow> start_input \<Rightarrow> tick list \<Rightarrow> save_io \<Rightarrow> int \<Rightarrow> server \<Rightarrow> world \<Rightarrow>
   ((int \<times> string) list \<times> server \<times> world) result option" where
  "server_run e E si ticks io now S W =
     (case server_start e si W S of
        None \<Rightarrow> None
      | Some (Inl f) \<Rightarrow> Some (Inl f)
      | Some (Inr (S1, W1)) \<Rightarrow>
          (case server_ticks e E ticks S1 W1 of
             None \<Rightarrow> None
           | Some (Inl f) \<Rightarrow> Some (Inl f)
           | Some (Inr (sent, S2, W2)) \<Rightarrow> Some (Inr (sent, server_shutdown io now S2 W2))))"

section \<open>The program\<close>

text \<open>
  How the process ends. An exception out of the configuration is outside the \<open>try\<close> block of \<open>main\<close>. One
  that is thrown while the server is constructed or starts reaches the handler. One that is thrown while serving does
  not: the maintenance thread exists by then, and destroying a thread object that was not joined
  terminates the process. A fault that is no exception is undefined behaviour.
\<close>

datatype exit_status = ExitSuccess | ExitFailure | Terminated | Undefined

definition is_exception :: "fault \<Rightarrow> bool" where
  "is_exception f \<longleftrightarrow>
     (case f of LengthError \<Rightarrow> True | BadAlloc \<Rightarrow> True | RuntimeError msg \<Rightarrow> True
      | InvalidArgument \<Rightarrow> True | OutOfRange \<Rightarrow> True | _ \<Rightarrow> False)"

definition server_main ::
  "externals \<Rightarrow> float_env \<Rightarrow> (string \<Rightarrow> log_level) \<Rightarrow> bool \<Rightarrow> int \<Rightarrow> string list \<Rightarrow> start_input \<Rightarrow> tick list \<Rightarrow> save_io \<Rightarrow> int \<Rightarrow>
   world \<Rightarrow> exit_status option" where
  "server_main e E from_str can_open_log epoll_fd argv si ticks io now W =
     (case main_config (w_fs W) argv of
        Inl f \<Rightarrow> Some Terminated
      | Inr cfg \<Rightarrow>
          (case server_construct from_str can_open_log epoll_fd cfg of
             Inl f \<Rightarrow> Some ExitFailure
           | Inr S \<Rightarrow>
               (case server_start e si W S of
                  None \<Rightarrow> None
                | Some (Inl f) \<Rightarrow> Some (if is_exception f then ExitFailure else Undefined)
                | Some (Inr (S1, W1)) \<Rightarrow>
                    (case server_ticks e E ticks S1 W1 of
                       None \<Rightarrow> None
                     | Some (Inl f) \<Rightarrow> Some (if is_exception f then Terminated else Undefined)
                     | Some (Inr r) \<Rightarrow> Some ExitSuccess))))"

end
