(* ===== verification/Server_Correct.thy ===== *)
theory Server_Correct
  imports Server
begin

text \<open>
  Properties of the whole server: safety of every run from start to shutdown, what a maintenance round
  does, and that data survives a graceful restart.
\<close>

section \<open>Loading\<close>

definition load_fault :: "fault \<Rightarrow> bool" where
  "load_fault f \<longleftrightarrow> f = UninitialisedRead \<or> f = SignedOverflow"

lemma next_record_fault: "next_record f = Inl flt \<Longrightarrow> flt = UninitialisedRead"
  by (auto simp: next_record_def rbind_eq_Inl read_u32_def read_i64_def Let_def split: if_splits prod.splits)

lemma load_loop_outcome:
  assumes "store_ok e s"
  shows "outcome load_fault (\<lambda>(n, s'). store_ok e s') (load_loop e clk now f s n)"
  using assms
proof (induction "length (remaining f)" arbitrary: f s n rule: less_induct)
  case less
  note unfold = load_loop.simps [of e clk now f s n]
  have set_ok: "outcome load_fault (store_ok e) (store_set e s k v ttl (clk n))" for k v ttl
    using outcome_set [OF less.prems, of k v ttl "clk n"] by (rule outcome_mono) (auto simp: load_fault_def)
  have sub_ok: "outcome load_fault (\<lambda>_. True) (if 0 < x then sub64 x now else Inr (- 1))" for x
    by (auto simp: sub64_def load_fault_def)
  consider "\<not> good_bit f" | flt where "good_bit f" "next_record f = Inl flt"
    | f' where "good_bit f" "next_record f = Inr (None, f')"
    | k v x f' where "good_bit f" "next_record f = Inr (Some (k, v, x), f')"
    by (cases "next_record f") (auto, metis option.exhaust surj_pair)
  then show ?case
  proof cases
    case 2
    then show ?thesis by (auto simp: unfold load_fault_def dest: next_record_fault)
  next
    case 4
    note ih = less.hyps [OF next_record_shrinks [OF 4(2)]]
    have "outcome load_fault (\<lambda>(n, s'). store_ok e s')
        (rbind (if 0 < x then sub64 x now else Inr (- 1)) (\<lambda>ttl_ms.
           rbind (store_set e s k v ttl_ms (clk n)) (\<lambda>s'. load_loop e clk now f' s' (n + 1))))"
      by (rule outcome_rbind [OF sub_ok], rule outcome_rbind [OF set_ok]) (rule ih)
    with 4 ih [OF less.prems] show ?thesis by (simp add: unfold)
  qed (use less.prems in \<open>simp_all add: unfold\<close>)
qed

lemma rdb_load_outcome:
  assumes "store_ok e s"
  shows "outcome load_fault (\<lambda>(n, s'). store_ok e s') (rdb_load e clk now path fs s)"
  using assms load_loop_outcome [OF assms]
  by (auto simp: rdb_load_def load_fault_def Let_def split: option.splits prod.splits)

lemma replay_loop_safe:
  assumes "store_ok e s" and "length view < 2 ^ 63"
  shows "returns (server_fault e) (\<lambda>(n, s'). store_ok e s') (replay_loop e (dispatch_executor e clks) view s n)"
  using assms
proof (induction "length view" arbitrary: view s n rule: less_induct)
  case less
  note unfold = replay_loop.simps [of e "dispatch_executor e clks" view s n]
  show ?case
  proof (cases "view = []")
    case True
    with less.prems show ?thesis by (simp add: replay_loop.simps [of _ _ "[]"])
  next
    case False
    show ?thesis
    proof (cases "parse e view")
      case (Inl f)
      with False show ?thesis by (auto simp: unfold dest: parse_fault_all(1))
    next
      case (Inr res)
      have ih: "returns (server_fault e) (\<lambda>(n, s'). store_ok e s')
          (replay_loop e (dispatch_executor e clks) (drop (consumed res) view) s' (n + 1))"
        if "status res = Ok" "store_ok e s'" for s'
        using parse_progress_all(1) [OF Inr that(1) less.prems(2)] less.prems(2) that(2) by (intro less.hyps) auto
      show ?thesis
        using dispatch_outcome [OF less.prems(1), of "res_value res" "clks n"] ih less.prems(1) False Inr
        by (auto simp: unfold dispatch_executor_def rbind_def outcome_def split: sum.splits)
    qed
  qed
qed

section \<open>Safety of a run\<close>

definition server_ok :: "externals \<Rightarrow> server \<Rightarrow> bool" where
  "server_ok e S \<longleftrightarrow> epoll_ok (srv_loop S) \<and> store_ok e (st_store (srv_state S))"

text \<open>Besides the faults of serving, loading a damaged snapshot can read uninitialised bytes.\<close>

definition run_fault :: "externals \<Rightarrow> fault \<Rightarrow> bool" where
  "run_fault e f \<longleftrightarrow> server_fault e f \<or> f = UninitialisedRead"

lemma run_faultI [simp]: "server_fault e f \<Longrightarrow> run_fault e f" "load_fault f \<Longrightarrow> run_fault e f"
  by (auto simp: run_fault_def load_fault_def)

definition fresh_server :: "externals \<Rightarrow> config \<Rightarrow> aof \<Rightarrow> server \<Rightarrow> bool" where
  "fresh_server e cfg a S \<longleftrightarrow>
     srv_cfg S = cfg \<and> srv_aof S = a \<and> srv_loop S = event_loop_init Map.empty \<and> store_ok e (st_store (srv_state S))"

lemma fresh_server_init: "fresh_server e cfg (aof_init (cfg_aof_path cfg)) (server_init cfg)"
  by (simp add: fresh_server_def server_init_def store_ok_init)

lemma load_snapshot_phase_outcome:
  assumes "fresh_server e cfg a S"
  shows "outcome (run_fault e) (fresh_server e cfg a) (load_snapshot_phase e si fs S)"
proof -
  have "store_ok e (st_store (srv_state S))" using assms by (simp add: fresh_server_def)
  from rdb_load_outcome [OF this, of "in_load_clk si" "in_load_now si" "cfg_rdb_path (srv_cfg S)" fs] assms show ?thesis
    by (auto simp: load_snapshot_phase_def fresh_server_def outcome_def rbind_def split: sum.splits)
qed

lemma load_log_phase_safe:
  assumes "fresh_server e cfg a S" and "\<forall>content. w_fs W (aof_path a) = Some content \<longrightarrow> length content < 2 ^ 63"
  shows "returns (run_fault e) (\<lambda>(S', W'). \<exists>a'. fresh_server e cfg a' S') (load_log_phase e si W S)"
proof (cases "cfg_aof_enabled cfg")
  case True
  obtain opened a' fs where o: "aof_open (in_can_open si) a (w_fs W) = (opened, a', fs)" by (cases "aof_open (in_can_open si) a (w_fs W)")
  have path: "aof_path a' = aof_path a" using o by (auto simp: aof_open_def split: if_splits)
  have len: "length content < 2 ^ 63" if "fs (aof_path a') = Some content" for content
    using that o assms(2) path by (auto simp: aof_open_def split: if_splits option.splits)
  have ok: "store_ok e (st_store (srv_state S))" using assms(1) by (simp add: fresh_server_def)
  have "returns (server_fault e) (\<lambda>(n, s'). store_ok e s')
      (aof_replay e (dispatch_executor e (in_replay_clk si)) (aof_path a') fs (st_store (srv_state S)))"
    using replay_loop_safe [OF ok] len ok by (auto simp: aof_replay_def split: option.splits)
  then show ?thesis
    by (cases rule: returns_cases) (use True o assms(1) in \<open>auto simp: load_log_phase_def fresh_server_def\<close>)
qed (use assms(1) in \<open>auto simp: load_log_phase_def fresh_server_def\<close>)

lemma epoll_add_listener_outcome:
  "outcome (run_fault e) (\<lambda>L. epoll_ok L \<and> listen_fd L = fd)
     (epoll_add_listener x y z fd (event_loop_init Map.empty))"
  by (auto simp: epoll_add_listener_def set_nonblocking_def loop_ok_def event_loop_init_def epoll_def)

lemma create_tcp_listener_outcome:
  "create_tcp_listener an host port backlog N = (r, N') \<Longrightarrow>
   outcome (run_fault e) (\<lambda>fd. fd = socket_fd an \<and> 0 \<le> fd) r"
  by (auto simp: create_tcp_listener_def Let_def split: if_splits)

lemma network_phase_outcome:
  assumes "fresh_server e cfg a S"
  shows "outcome (run_fault e)
           (\<lambda>(S', W'). server_ok e S' \<and> listen_fd (srv_loop S') = socket_fd (in_listen si) \<and> srv_cfg S' = cfg \<and>
              srv_state S' = srv_state S)
           (network_phase si W S)"
proof -
  obtain h N1 where h: "(if cfg_metrics_enabled cfg then http_start (in_http si) (srv_http S) (w_net W)
      else (srv_http S, w_net W)) = (h, N1)" by (metis surj_pair)
  obtain r N2 where r: "create_tcp_listener (in_listen si) (cfg_host cfg) (cfg_port cfg) (cfg_backlog cfg) N1 = (r, N2)"
    by (metis surj_pair)
  from create_tcp_listener_outcome [OF r, of e] h r assms show ?thesis
    unfolding network_phase_def fresh_server_def
    by (auto simp: Let_def server_ok_def intro!: outcome_rbind [OF create_tcp_listener_outcome [OF r]] outcome_rbind [OF epoll_add_listener_outcome])
qed

lemma server_start_safe:
  assumes "\<forall>content. w_fs W (cfg_aof_path cfg) = Some content \<longrightarrow> length content < 2 ^ 63"
  shows "returns (run_fault e) (\<lambda>(S', W'). server_ok e S' \<and> listen_fd (srv_loop S') = socket_fd (in_listen si))
           (server_start e si W (server_init cfg))"
proof -
  note f0 = fresh_server_init [of e cfg]
  show ?thesis
  proof (cases "load_snapshot_phase e si (w_fs W) (server_init cfg)")
    case (Inl f)
    with load_snapshot_phase_outcome [OF f0, of si "w_fs W"] show ?thesis by (simp add: server_start_def)
  next
    case (Inr S1)
    with load_snapshot_phase_outcome [OF f0, of si "w_fs W"] have f1: "fresh_server e cfg (aof_init (cfg_aof_path cfg)) S1" by simp
    have "returns (run_fault e) (\<lambda>(S', W'). \<exists>a'. fresh_server e cfg a' S') (load_log_phase e si W S1)"
      using f1 by (rule load_log_phase_safe) (use assms in \<open>simp add: aof_init_def\<close>)
    then show ?thesis
    proof (cases rule: returns_cases)
      case (fails f)
      with Inr show ?thesis by (simp add: server_start_def)
    next
      case (result x)
      then obtain S2 W2 a2 where x: "x = (S2, W2)" "fresh_server e cfg a2 S2" by auto
      from network_phase_outcome [OF x(2), of si W2] result(1) Inr x(1) show ?thesis
        by (auto simp: server_start_def outcome_def server_ok_def split: sum.splits)
    qed
  qed
qed

lemma maintenance_round_outcome:
  assumes "server_ok e S"
  shows "outcome (run_fault e) (\<lambda>(S', fs'). server_ok e S' \<and> srv_loop S' = srv_loop S) (maintenance_round ti S fs)"
proof -
  have "store_ok e (st_store (srv_state S))" "epoll_ok (srv_loop S)" using assms by (simp_all add: server_ok_def)
  then obtain s' where "store_sweep_expired (st_store (srv_state S)) (in_sweep_now ti) =
      Inr (store_size (st_store (srv_state S)) - store_size s', s')" "store_ok e s'"
    using store_sweep_ok by metis
  with \<open>epoll_ok (srv_loop S)\<close> show ?thesis
    by (auto simp: maintenance_round_def Let_def server_ok_def sub64_def split: prod.splits)
qed

definition tick_ok :: "int \<Rightarrow> tick \<Rightarrow> bool" where
  "tick_ok lfd t \<longleftrightarrow>
     (case t of LoopTick evs stopped \<Rightarrow> \<forall>ev\<in>set evs. accepts_ok lfd (ev_answers ev) | MaintenanceTick ti \<Rightarrow> True)"

definition tick_post :: "externals \<Rightarrow> server \<Rightarrow> (int \<times> string) list \<times> server \<times> world \<Rightarrow> bool" where
  "tick_post e S = (\<lambda>(sent, S', W'). server_ok e S' \<and> listen_fd (srv_loop S') = listen_fd (srv_loop S))"

lemma server_tick_safe:
  assumes "server_ok e S" and "mem_limit e < 2 ^ 60" and "tick_ok (listen_fd (srv_loop S)) t"
  shows "returns (run_fault e) (tick_post e S) (server_tick e E t S W)"
proof (cases t)
  case (LoopTick evs stopped)
  have "returns (server_fault e) (round_post (\<lambda>_. True) (\<lambda>p. p) e (srv_loop S))
      (run_rounds epoll epoll_event_handler e E [(evs, False)] (srv_loop S) (srv_state S))"
    by (rule ep.run_rounds_ok [where good = "\<lambda>lfd ev. accepts_ok lfd (ev_answers ev)"])
      (use assms LoopTick in \<open>auto simp: server_ok_def tick_ok_def intro: epoll_event_ok\<close>)
  then show ?thesis
    by (cases rule: returns_cases)
      (use LoopTick in \<open>auto simp: server_tick_def round_post_def loop_post_def tick_post_def server_ok_def
         server_stop_def loop_stop_def Let_def simp del: run_rounds.simps\<close>)
next
  case (MaintenanceTick ti)
  with maintenance_round_outcome [OF assms(1), of ti "w_fs W"] assms(1) show ?thesis
    by (auto simp: server_tick_def tick_post_def outcome_def split: sum.splits)
qed

lemma server_ticks_safe:
  assumes "server_ok e S" and "mem_limit e < 2 ^ 60" and "\<forall>t\<in>set ts. tick_ok (listen_fd (srv_loop S)) t"
  shows "returns (run_fault e) (tick_post e S) (server_ticks e E ts S W)"
  using assms
proof (induction ts arbitrary: S W)
  case (Cons t ts)
  have "returns (run_fault e) (tick_post e S) (server_tick e E t S W)"
    using Cons.prems by (intro server_tick_safe) auto
  then show ?case
  proof (cases rule: returns_cases)
    case (result x)
    obtain sent S1 W1 where x: "x = (sent, S1, W1)" by (cases x)
    have "returns (run_fault e) (tick_post e S1) (server_ticks e E ts S1 W1)"
      using result(2) x Cons.prems by (intro Cons.IH) (auto simp: tick_post_def)
    then show ?thesis by (cases rule: returns_cases) (use result x in \<open>auto simp: tick_post_def\<close>)
  qed simp
qed (simp add: tick_post_def)

text \<open>When the maintenance thread takes a snapshot.\<close>

definition snapshot_due :: "tick_input \<Rightarrow> server \<Rightarrow> bool" where
  "snapshot_due ti S \<longleftrightarrow>
     cfg_rdb_enabled (srv_cfg S) \<and> cfg_rdb_interval_secs (srv_cfg S) * 1000 \<le> in_now ti - srv_last_save S"

text \<open>Inputs for the examples.\<close>

definition good_io :: save_io where
  "good_io = \<lparr>open_ok = True, write_fails_at = None, rename_ok = True\<rparr>"

definition good_listen :: "int \<Rightarrow> listen_answers" where
  "good_listen fd = \<lparr>socket_fd = fd, pton_ok = True, bind_ok = True, listen_ok = True, why = []\<rparr>"

definition good_start :: start_input where
  "good_start = \<lparr>in_load_clk = (\<lambda>_. 105), in_load_now = 100, in_can_open = True, in_replay_clk = (\<lambda>_ _. 105),
     in_http = good_listen 4, in_listen = good_listen 3, in_fcntl_get = True, in_fcntl_set = True,
     in_epoll_add = True, in_start_time = 100\<rparr>"

definition good_tick :: tick_input where
  "good_tick = \<lparr>in_sweep_now = 1050, in_now = 300100, in_save_now = 1050, in_save_io = good_io\<rparr>"

definition good_world :: world where
  "good_world = \<lparr>w_fs = Map.empty, w_net = \<lparr>open_fds = {0, 1, 2}, bound = Map.empty, listening = Map.empty\<rparr>\<rparr>"

definition full_server :: server where
  "full_server = (server_init config_default)\<lparr>srv_state := \<lparr>st_store = full_store, st_metrics = metrics_init\<rparr>\<rparr>"

section \<open>Properties\<close>



text \<open>
  C28: What a maintenance round does. It removes the entries expired at the time of the sweep, which no
  later reading can tell, sets the gauge of keys to the number of keys that are live at that time, and
  if snapshots are enabled and the interval has passed since the last one, writes a complete snapshot
  of the swept store; otherwise the disk is not touched.
\<close>

theorem maintenance_round_effect:
  assumes "store_ok e (st_store (srv_state S))" and "store_size (st_store (srv_state S)) < 2 ^ 63"
    and "in_int64 (in_now ti - srv_last_save S)"
  shows "\<exists>S' fs'. maintenance_round ti S fs = Inr (S', fs') \<and> store_ok e (st_store (srv_state S')) \<and>
           (\<forall>k t. in_sweep_now ti \<le> t \<longrightarrow>
              live (store_map e (st_store (srv_state S'))) t k = live (store_map e (st_store (srv_state S))) t k) \<and>
           key_count (st_metrics (srv_state S')) =
             int (card {k. live (store_map e (st_store (srv_state S))) (in_sweep_now ti) k \<noteq> None}) \<and>
           (if snapshot_due ti S then fs' = snd (rdb_save (cfg_rdb_path (srv_cfg S)) (in_save_io ti) (st_store (srv_state S')) (in_save_now ti) fs)
                        \<and> srv_last_save S' = in_now ti
            else fs' = fs \<and> srv_last_save S' = srv_last_save S)"
proof -
  let ?s = "st_store (srv_state S)" and ?t = "in_sweep_now ti"
  obtain s' where s': "store_sweep_expired ?s ?t = Inr (store_size ?s - store_size s', s')" "store_ok e s'"
    "store_size s' \<le> store_size ?s" "store_map e s' = swept ?t (store_map e ?s)"
    using assms(1) by (rule store_sweep_ok)
  have lv: "live (store_map e s') t k = live (store_map e ?s) t k" if "?t \<le> t" for t k
    using that by (auto simp: s'(4) swept_def live_def expired_at_def split: option.splits)
  have "dom (store_map e s') = {k. live (store_map e ?s) ?t k \<noteq> None}"
    by (auto simp: s'(4) swept_def live_def split: option.splits if_splits)
  then have gauge: "wrap64 (int (store_size s')) = int (card {k. live (store_map e ?s) ?t k \<noteq> None})"
    using assms(2) s'(3) store_size_card [OF s'(2)] by (simp add: in_int64_def)
  show ?thesis
    using s'(1,2) lv gauge assms(3)
    by (auto simp: maintenance_round_def Let_def snapshot_due_def sub64_def set_key_count_def split: prod.splits)
qed

theorem maintenance_round_effect_witness:
  "\<exists>S' fs'. maintenance_round good_tick full_server Map.empty = Inr (S', fs') \<and> srv_last_save S' = 300100 \<and>
     live (store_map sample_externals (st_store (srv_state S'))) 2000 ''a'' = Some ''1''"
proof -
  have ok: "store_ok sample_externals (st_store (srv_state full_server))" by (simp add: full_server_def store_ok_full)
  have small: "store_size (st_store (srv_state full_server)) < 2 ^ 63" by (simp add: full_server_def full_store_eval)
  have time: "in_int64 (in_now good_tick - srv_last_save full_server)"
    by (simp add: good_tick_def full_server_def server_init_def in_int64_def)
  have due: "snapshot_due good_tick full_server"
    by (simp add: snapshot_due_def good_tick_def full_server_def server_init_def config_default_def)
  have "live (store_map sample_externals (st_store (srv_state full_server))) 2000 ''a'' = Some ''1''"
    by (simp add: full_server_def live_def full_store_eval expired_at_def)
  with maintenance_round_effect [OF ok small time, of Map.empty] due show ?thesis
    by (auto simp: good_tick_def)
qed



text \<open>
  C39: Five bytes stop the server. If what a client has sent starts with an array header with a negative
  count other than -1, the round of the event loop that reads it throws \<open>length_error\<close>, and no later
  round is served.
\<close>

theorem bad_header_stops_server:
  assumes "server_ok e S" and "running (srv_loop S)" and "map_of (connections (srv_loop S)) fd = Some c"
    and "recv_loop (an_recvs an) (an_pending an) c = Some (Inr (True, [], c1))"
    and "readable (in_buf c) @ an_pending an = ''*'' @ to_string n @ crlf @ rest"
    and "in_int64 n" and "n < -1" and "vec_max e < 2 ^ 63"
  shows "server_ticks e E (LoopTick (in_event fd an # evs) stopped # ticks) S W = Some (Inl LengthError)"
proof -
  have c: "conn_ok c" "fd \<noteq> listen_fd (srv_loop S)"
    using loop_okD(3) [OF _ assms(3), of "\<lambda>_. True" "\<lambda>p. p"] assms(1) by (auto simp: server_ok_def conn_entry_ok_def)
  from recv_loop_conserves [OF assms(4) c(1)] assms(5)
  have buf: "readable (in_buf c1) = ''*'' @ to_string n @ crlf @ rest" by simp
  then have "process_loop e E (an_times an) c1 (srv_state S) [] 0 = Some (Inl LengthError)"
    using negative_array_count_throws [OF assms(6-8), of rest] by (subst process_loop.simps) simp
  then have "on_readable e E (an_times an) (an_recvs an) (an_pending an) c (srv_state S) = Some (Inl LengthError)"
    by (simp add: on_readable_def assms(4) process_commands_def)
  with c(2) assms(2,3) show ?thesis
    by (simp add: server_tick_def epoll_event_handler_def in_event_def handle_readable_def)
qed

theorem bad_header_stops_server_witness:
  "\<exists>an. server_ticks sample_externals sample_float [LoopTick [in_event 7 an] False, MaintenanceTick good_tick]
          ((server_init config_default)\<lparr>srv_loop := ping_loop\<rparr>) good_world = Some (Inl LengthError)"
proof -
  let ?S = "(server_init config_default)\<lparr>srv_loop := ping_loop\<rparr>" and ?p = "''*'' @ to_string (-2) @ crlf @ []"
  let ?an = "no_answers\<lparr>an_recvs := [RecvIntr, RecvData (length ?p)], an_pending := ?p\<rparr>"
  have "length ?p = 5" by code_simp
  then have p: "?p \<noteq> []" "length ?p \<le> 4096" by auto
  have init: "readable (in_buf (connection_init 7)) = []" by (simp add: connection_init_def)
  from recv_all [OF conn_ok_init p, of 7] obtain c1 where
    r: "recv_loop (an_recvs ?an) (an_pending ?an) (connection_init 7) = Some (Inr (True, [], c1))"
    by (auto simp: init MAX_CAP_def)
  have "server_ok sample_externals ?S"
    using ping_loop_ok by (simp add: server_ok_def server_init_def store_ok_init)
  then have "server_ticks sample_externals sample_float [LoopTick [in_event 7 ?an] False, MaintenanceTick good_tick] ?S good_world =
      Some (Inl LengthError)"
    by (rule bad_header_stops_server [OF _ _ _ r, where n = "-2" and rest = "[]"])
      (simp_all add: ping_loop_def init in_int64_def sample_externals_def)
  then show ?thesis by blast
qed

text \<open>Such an exception ends the process abnormally: it does not reach the handler in \<open>main\<close>.\<close>

lemma server_construct_ok:
  "server_construct from_str can_open epoll_fd cfg = Inr S \<Longrightarrow> S = server_init cfg"
  by (auto simp: server_construct_def epoll_loop_create_def server_init_def split: if_splits)

lemma server_construct_fault:
  "server_construct from_str can_open epoll_fd cfg = Inl f \<Longrightarrow> epoll_fd < 0 \<or> cfg_log_file cfg \<noteq> [] \<and> \<not> can_open"
  by (auto simp: server_construct_def epoll_loop_create_def rbind_eq_Inl init_logger_fault split: if_splits)

lemma exception_while_serving:
  assumes "main_config (w_fs W) argv = Inr cfg" and "server_construct from_str can_open epoll_fd cfg = Inr S0"
    and "server_start e si W S0 = Some (Inr (S, W1))"
    and "server_ticks e E ticks S W1 = Some (Inl f)" and "is_exception f"
  shows "server_main e E from_str can_open epoll_fd argv si ticks io now W = Some Terminated"
  using assms by (simp add: server_main_def)

text \<open>A signal that arrives before the server is constructed is ignored; a later one stops its loop.\<close>

lemma signal_handler_effect:
  "signal_handler None = None"
  "\<exists>S'. signal_handler (Some S) = Some S' \<and> \<not> running (srv_loop S') \<and> \<not> srv_running S' \<and> srv_state S' = srv_state S"
  by (simp_all add: signal_handler_def server_stop_def loop_stop_def)

text \<open>The faults that are undefined behaviour, as far as the server can have them.\<close>

definition undefined_fault :: "externals \<Rightarrow> fault \<Rightarrow> bool" where
  "undefined_fault e f \<longleftrightarrow>
     f \<in> {SignedOverflow, BadConversion, UninitialisedRead} \<or> (f = InvalidRange \<and> \<not> left_to_right e)"

lemma run_fault_cases: "run_fault e f \<Longrightarrow> \<not> is_exception f \<Longrightarrow> undefined_fault e f"
  by (auto simp: run_fault_def server_fault_def is_exception_def undefined_fault_def)



end
