(* ===== verification/Connection_Stream.thy ===== *)
theory Connection_Stream
  imports Connection
begin

text \<open>
  One connection over its whole life. The reactor calls \<open>on_readable\<close> and \<open>on_writable\<close> in any order;
  between two calls other connections and threads may change the store and the counters, so the shared
  state is an input of every read. Along every such sequence of calls the bytes sent to the peer,
  followed by those still queued, are the replies to the commands received so far, in their order.
\<close>

section \<open>Sequences of calls\<close>

text \<open>
  A call of \<open>on_readable\<close> with the clock readings, the kernel's answers, the bytes pending in the socket and
  the shared state it finds, or a call of \<open>on_writable\<close> with the kernel's answers.
\<close>

datatype io_event =
    Readable "nat \<Rightarrow> command_times" "recv_answer list" string server_state
  | Writable "send_answer list"

text \<open>
  The calls one after the other while they keep the connection: the bytes taken from the socket, the
  bytes given to it, and the connection they leave. The value \<open>None\<close> inside the result says that a call
  asked for the connection to be closed.
\<close>

fun io_calls ::
  "externals \<Rightarrow> float_env \<Rightarrow> io_event list \<Rightarrow> connection \<Rightarrow> (string \<times> string \<times> connection) option result option" where
  "io_calls e E [] c = Some (Inr (Some ([], [], c)))"
| "io_calls e E (Readable tms answers pending st # evs) c =
     (case on_readable e E tms answers pending c st of
        None \<Rightarrow> None
      | Some (Inl f) \<Rightarrow> Some (Inl f)
      | Some (Inr (go_on, pending', c', st')) \<Rightarrow>
          if \<not> go_on then Some (Inr None)
          else (case io_calls e E evs c' of
             Some (Inr (Some (received, sent, c''))) \<Rightarrow>
               Some (Inr (Some (take (length pending - length pending') pending @ received, sent, c'')))
           | r \<Rightarrow> r))"
| "io_calls e E (Writable answers # evs) c =
     (case on_writable answers c of
        (go_on, out, c') \<Rightarrow>
          if \<not> go_on then Some (Inr None)
          else (case io_calls e E evs c' of
             Some (Inr (Some (received, sent, c''))) \<Rightarrow> Some (Inr (Some (received, out @ sent, c'')))
           | r \<Rightarrow> r))"

text \<open>The specification: each read serves its batch of commands against the state it finds.\<close>

fun replies ::
  "externals \<Rightarrow> float_env \<Rightarrow> io_event list \<Rightarrow> string list list list \<Rightarrow> string result" where
  "replies e E [] batches = Inr []"
| "replies e E (Readable tms answers pending st # evs) batches =
     rbind (serve e E tms (map request (hd batches)) st 0) (\<lambda>(out, st').
     rbind (replies e E evs (tl batches)) (\<lambda>outs. Inr (out @ outs)))"
| "replies e E (Writable answers # evs) batches = replies e E evs batches"

text \<open>The buffered input is less than the next command.\<close>

definition awaiting :: "externals \<Rightarrow> string list list \<Rightarrow> string \<Rightarrow> bool" where
  "awaiting e cmds buf \<longleftrightarrow> buf = [] \<or> cmds \<noteq> [] \<and> length buf < length (array e (hd cmds))"

section \<open>One read\<close>

text \<open>If the drain loop succeeds on a number of commands and an incomplete rest, it served those commands.\<close>

lemma process_loop_served:
  assumes "buffer_ok (in_buf c)" and "decimal_fmt e" and "\<forall>as\<in>set ass. length as \<le> vec_max e"
    and "readable (in_buf c) = concat (map (array e) ass) @ rest"
    and "rest = [] \<or> (\<exists>r. parse e rest = Inr r \<and> status r = Incomplete)"
    and "process_loop e E tms c st batch i = Some (Inr (ret, c', st', batch'))"
    and "length batch \<le> mem_limit e"
  shows "\<exists>out b. \<not> ret \<and> serve e E tms (map request ass) st i = Inr (out, st') \<and> batch' = batch @ out \<and>
           length batch' \<le> mem_limit e \<and> c' = c\<lparr>in_buf := b\<rparr> \<and> buffer_ok b \<and> readable b = rest"
  using assms(1,3,4,6,7)
proof (induction ass arbitrary: c st batch i)
  case Nil
  then have "process_loop e E tms c st batch i = Some (Inr (False, c, st, batch))"
    using assms(5) by (subst process_loop.simps) auto
  with Nil show ?case by (intro exI [of _ "[]"] exI [of _ "in_buf c"]) simp
next
  case (Cons as ass)
  let ?rest = "concat (map (array e) ass) @ rest"
  have as: "readable (in_buf c) = array e as @ ?rest" "length as \<le> vec_max e" using Cons.prems by simp_all
  obtain b where b: "buffer_ok b" "readable b = ?rest"
    "process_loop e E tms c st batch i =
       (case dispatch e (t_cmd (tms i)) (request as) (st_store st) of
          Inl f \<Rightarrow> Some (Inl f)
        | Inr (reply, s') \<Rightarrow>
            if mem_limit e < length (batch @ reply) then Some (Inl BadAlloc)
            else (case record_latency E (tms i) (st_metrics st) of
               Inl f \<Rightarrow> Some (Inl f)
             | Inr m' \<Rightarrow> process_loop e E tms (c\<lparr>in_buf := b\<rparr>) (st\<lparr>st_store := s', st_metrics := m'\<rparr>)
                           (batch @ reply) (i + 1)))"
    by (rule process_loop_step [OF Cons.prems(1) assms(2) as(2,1), of E tms st batch i])
  from Cons.prems(4) [unfolded b(3)] obtain reply s1 m1 where
    r: "dispatch e (t_cmd (tms i)) (request as) (st_store st) = Inr (reply, s1)"
       "length (batch @ reply) \<le> mem_limit e" "record_latency E (tms i) (st_metrics st) = Inr m1"
       "process_loop e E tms (c\<lparr>in_buf := b\<rparr>) (st\<lparr>st_store := s1, st_metrics := m1\<rparr>) (batch @ reply) (i + 1) =
          Some (Inr (ret, c', st', batch'))"
    by (auto split: sum.splits prod.splits if_splits)
  from Cons.IH [OF _ _ _ r(4,2)] b(1,2) Cons.prems(2) obtain out b' where
    "\<not> ret" "serve e E tms (map request ass) (st\<lparr>st_store := s1, st_metrics := m1\<rparr>) (i + 1) = Inr (out, st')"
    "batch' = (batch @ reply) @ out" "length batch' \<le> mem_limit e" "c' = c\<lparr>in_buf := b'\<rparr>" "buffer_ok b'" "readable b' = rest"
    by auto
  with r(1,3) show ?case by (intro exI [of _ "reply @ out"] exI [of _ b']) simp
qed

lemma write_response_appends:
  assumes "conn_ok c" and "length r < 2 ^ 60" and "write_response r c = Some (Inr c')"
  shows "conn_ok c' \<and> in_buf c' = in_buf c \<and> conn_closed c' = conn_closed c \<and>
         readable (out_buf c') = readable (out_buf c) @ r"
  using append_cases [of "out_buf c" r] assms
  by (auto simp: write_response_def conn_ok_def split: option.splits sum.splits)

lemma process_commands_served:
  assumes "conn_ok c" and "decimal_fmt e" and "mem_limit e < 2 ^ 60" and "\<forall>as\<in>set ass. length as \<le> vec_max e"
    and "readable (in_buf c) = concat (map (array e) ass) @ rest"
    and "rest = [] \<or> (\<exists>r. parse e rest = Inr r \<and> status r = Incomplete)"
    and "process_commands e E tms c st = Some (Inr (c', st'))"
  shows "\<exists>out. serve e E tms (map request ass) st 0 = Inr (out, st') \<and> conn_ok c' \<and> readable (in_buf c') = rest \<and>
           readable (out_buf c') = readable (out_buf c) @ out"
proof -
  from assms(7) obtain ret c1 st1 batch where loop: "process_loop e E tms c st [] 0 = Some (Inr (ret, c1, st1, batch))"
    by (auto simp: process_commands_def split: option.splits sum.splits)
  from assms(1) have "buffer_ok (in_buf c)" by (simp add: conn_ok_def)
  from process_loop_served [OF this assms(2,4-6) loop] obtain b where
    b: "\<not> ret" "serve e E tms (map request ass) st 0 = Inr (batch, st1)" "length batch \<le> mem_limit e"
      "c1 = c\<lparr>in_buf := b\<rparr>" "buffer_ok b" "readable b = rest" by auto
  have ok: "conn_ok c1" using assms(1) b(4,5) by (simp add: conn_ok_def)
  show ?thesis
  proof (cases "batch = []")
    case True
    with assms(7) loop have "c' = c1" "st' = st1" by (simp_all add: process_commands_def)
    with True b ok show ?thesis by simp
  next
    case False
    with assms(7) loop b(1) have w: "write_response batch c1 = Some (Inr c')" "st' = st1"
      by (auto simp: process_commands_def split: option.splits sum.splits)
    from write_response_appends [OF ok _ w(1)] b assms(3) w(2) show ?thesis by simp
  qed
qed

text \<open>The bytes a read takes from the socket are the front of those pending.\<close>

lemma recv_loop_takes:
  "recv_loop answers pending c = Some (Inr (go_on, pending', c')) \<Longrightarrow> \<exists>d. pending = d @ pending'"
proof (induction answers arbitrary: pending c)
  case Nil
  then show ?case by (auto simp: recv_loop_Nil split: option.splits sum.splits)
next
  case (Cons a rest)
  have drop: "\<exists>d. pending = d @ pending'" if "drop n pending = d' @ pending'" for n d'
    using that append_take_drop_id [of n pending] by (metis append_assoc)
  from Cons.prems obtain b where b: "ensure_writable 4096 (in_buf c) = Some (Inr b)"
    by (auto simp: recv_loop_Cons split: option.splits sum.splits)
  show ?case
  proof (cases a)
    case (RecvData k)
    with Cons b drop show ?thesis by (auto simp: recv_loop_Cons Let_def split: if_splits) blast
  qed (use Cons b in \<open>auto simp: recv_loop_Cons\<close>)
qed

lemma on_readable_served:
  assumes "conn_ok c" and "decimal_fmt e" and "mem_limit e < 2 ^ 60" and "\<forall>as\<in>set ass. length as \<le> vec_max e"
    and "on_readable e E tms answers pending c st = Some (Inr (True, pending', c', st'))"
    and "readable (in_buf c) @ take (length pending - length pending') pending = concat (map (array e) ass) @ rest"
    and "rest = [] \<or> (\<exists>r. parse e rest = Inr r \<and> status r = Incomplete)"
  shows "\<exists>out. serve e E tms (map request ass) st 0 = Inr (out, st') \<and> conn_ok c' \<and> readable (in_buf c') = rest \<and>
           readable (out_buf c') = readable (out_buf c) @ out"
proof -
  from assms(5) obtain c1 where r: "recv_loop answers pending c = Some (Inr (True, pending', c1))"
    "process_commands e E tms c1 st = Some (Inr (c', st'))"
    by (auto simp: on_readable_def split: option.splits sum.splits if_splits)
  from recv_loop_takes [OF r(1)] obtain d where d: "pending = d @ pending'" by blast
  from recv_loop_conserves [OF r(1) assms(1)] d
  have c1: "conn_ok c1" "readable (in_buf c1) = readable (in_buf c) @ d" "out_buf c1 = out_buf c" by simp_all
  with assms(6) d have "readable (in_buf c1) = concat (map (array e) ass) @ rest" by simp
  from process_commands_served [OF c1(1) assms(2-4) this assms(7) r(2)] c1(3) show ?thesis by simp
qed

section \<open>All calls\<close>

text \<open>What has arrived of a stream of commands is whole commands and an incomplete rest.\<close>

lemma arrived_commands:
  assumes "decimal_fmt e" and "\<forall>as\<in>set cmds. length as \<le> vec_max e \<and> length (array e as) < 2 ^ 63"
    and "d @ later = concat (map (array e) cmds)"
  obtains k rest where "k \<le> length cmds" "d = concat (map (array e) (take k cmds)) @ rest"
    "rest = [] \<or> (\<exists>r. parse e rest = Inr r \<and> status r = Incomplete)"
    "rest @ later = concat (map (array e) (drop k cmds))"
    "awaiting e (drop k cmds) rest"
proof -
  have "take (length d) (concat (map (array e) cmds)) = d" using assms(3) by (metis append_eq_conv_conj)
  with cut_frames [of cmds "length d" "array e"] obtain k rest where
    k: "k \<le> length cmds" "d = concat (map (array e) (take k cmds)) @ rest"
      "rest = [] \<or> k < length cmds \<and> (\<exists>i < length (array e (cmds ! k)). rest = take i (array e (cmds ! k)))" by auto
  have "concat (map (array e) cmds) = concat (map (array e) (take k cmds)) @ concat (map (array e) (drop k cmds))"
    by (metis append_take_drop_id concat_append map_append)
  with k(2) assms(3) have "rest @ later = concat (map (array e) (drop k cmds))" by simp
  moreover have "rest = [] \<or> (\<exists>r. parse e rest = Inr r \<and> status r = Incomplete)"
    using k(3) parse_array_cut [OF assms(1)] assms(2) nth_mem by fastforce
  moreover have "awaiting e (drop k cmds) rest"
    using k(3) by (auto simp: awaiting_def hd_drop_conv_nth)
  ultimately show ?thesis using that k(1,2) by blast
qed

lemma io_calls_Readable:
  assumes "io_calls e E (Readable tms answers pending st # evs) c = Some (Inr (Some (received, sent, c')))"
  obtains pending' c1 st' received' where
    "on_readable e E tms answers pending c st = Some (Inr (True, pending', c1, st'))"
    "io_calls e E evs c1 = Some (Inr (Some (received', sent, c')))"
    "received = take (length pending - length pending') pending @ received'"
  using assms by (auto split: option.splits sum.splits prod.splits if_splits)

lemma io_calls_Writable:
  assumes "io_calls e E (Writable answers # evs) c = Some (Inr (Some (received, sent, c')))"
  obtains out c1 sent' where "on_writable answers c = (True, out, c1)"
    "io_calls e E evs c1 = Some (Inr (Some (received, sent', c')))" "sent = out @ sent'"
  using assms by (auto split: option.splits sum.splits prod.splits if_splits)

lemma io_calls_read_write:
  "on_readable e E tms ras pending c st = Some (Inr (True, [], c1, st')) \<Longrightarrow> on_writable was c1 = (True, out, c2) \<Longrightarrow>
   io_calls e E [Readable tms ras pending st, Writable was] c = Some (Inr (Some (pending, out, c2)))"
  by simp

lemma io_calls_stream:
  assumes "decimal_fmt e" and "mem_limit e < 2 ^ 60" and "conn_ok c"
    and "io_calls e E evs c = Some (Inr (Some (received, sent, c')))"
    and "\<forall>as\<in>set cmds. length as \<le> vec_max e \<and> length (array e as) < 2 ^ 63"
    and "readable (in_buf c) @ received @ later = concat (map (array e) cmds)" and "awaiting e cmds (readable (in_buf c))"
  shows "\<exists>batches out rest. cmds = concat batches @ rest \<and> awaiting e rest (readable (in_buf c')) \<and>
           replies e E evs batches = Inr out \<and>
           sent @ readable (out_buf c') = readable (out_buf c) @ out \<and>
           readable (in_buf c) @ received = concat (map (array e) (concat batches)) @ readable (in_buf c')"
  using assms(3-7)
proof (induction evs arbitrary: c received sent cmds)
  case Nil
  then show ?case by (intro exI [of _ "[]"] exI [of _ cmds]) simp
next
  case (Cons ev evs)
  show ?case
  proof (cases ev)
    case (Readable tms answers pending st)
    from Cons.prems(2) [unfolded Readable] obtain pending' c1 st' received' where
      r: "on_readable e E tms answers pending c st = Some (Inr (True, pending', c1, st'))"
        "io_calls e E evs c1 = Some (Inr (Some (received', sent, c')))"
        "received = take (length pending - length pending') pending @ received'" (is "_ = ?d @ _")
      by (rule io_calls_Readable)
    have "(readable (in_buf c) @ ?d) @ received' @ later = concat (map (array e) cmds)" using Cons.prems(4) r(3) by simp
    from arrived_commands [OF assms(1) Cons.prems(3) this] obtain k rest where
      k: "k \<le> length cmds" "readable (in_buf c) @ ?d = concat (map (array e) (take k cmds)) @ rest"
        "rest = [] \<or> (\<exists>r. parse e rest = Inr r \<and> status r = Incomplete)"
        "rest @ received' @ later = concat (map (array e) (drop k cmds))" "awaiting e (drop k cmds) rest" by blast
    have "\<forall>as\<in>set (take k cmds). length as \<le> vec_max e" using Cons.prems(3) by (meson in_set_takeD)
    from on_readable_served [OF Cons.prems(1) assms(1,2) this r(1) k(2,3)] obtain out1 where
      out1: "serve e E tms (map request (take k cmds)) st 0 = Inr (out1, st')" "conn_ok c1" "readable (in_buf c1) = rest"
        "readable (out_buf c1) = readable (out_buf c) @ out1" by blast
    have "\<forall>as\<in>set (drop k cmds). length as \<le> vec_max e \<and> length (array e as) < 2 ^ 63"
      using Cons.prems(3) by (meson in_set_dropD)
    from Cons.IH [OF out1(2) r(2) this] k(4,5) out1(3) obtain batches out more where
      b: "drop k cmds = concat batches @ more" "replies e E evs batches = Inr out"
        "sent @ readable (out_buf c') = readable (out_buf c1) @ out"
        "rest @ received' = concat (map (array e) (concat batches)) @ readable (in_buf c')"
        "awaiting e more (readable (in_buf c'))" by auto
    have "cmds = concat (take k cmds # batches) @ more" using b(1) append_take_drop_id [of k cmds] by simp
    moreover have "readable (in_buf c) @ received =
        concat (map (array e) (take k cmds @ concat batches)) @ readable (in_buf c')"
      using r(3) k(2) b(4) by (metis append_assoc concat_append map_append)
    ultimately show ?thesis
      using b(2,3,5) out1(1,4) Readable
      by (intro exI [of _ "take k cmds # batches"] exI [of _ "out1 @ out"] exI [of _ more]) simp
  next
    case (Writable answers)
    from Cons.prems(2) [unfolded Writable] obtain o1 c1 sent' where
      w: "on_writable answers c = (True, o1, c1)" "io_calls e E evs c1 = Some (Inr (Some (received, sent', c')))"
        "sent = o1 @ sent'" by (rule io_calls_Writable)
    from send_loop_conserves [OF w(1) [unfolded on_writable_def] Cons.prems(1)]
    have c1: "conn_ok c1" "o1 @ readable (out_buf c1) = readable (out_buf c)" "in_buf c1 = in_buf c" by simp_all
    from Cons.IH [OF c1(1) w(2) Cons.prems(3)] Cons.prems(4,5) c1(3) obtain batches out more where
      "cmds = concat batches @ more" "awaiting e more (readable (in_buf c'))" "replies e E evs batches = Inr out"
      "sent' @ readable (out_buf c') = readable (out_buf c1) @ out"
      "readable (in_buf c) @ received = concat (map (array e) (concat batches)) @ readable (in_buf c')" by auto
    moreover from this(4) have "sent @ readable (out_buf c') = readable (out_buf c) @ out"
      using c1(2) w(3) by (metis append_assoc)
    ultimately show ?thesis using Writable by (intro exI [of _ batches] exI [of _ out] exI [of _ more]) simp
  qed
qed

section \<open>Property\<close>

text \<open>
  C3: The reply stream of a connection. A client sends a stream of commands to a fresh connection. After
  any sequence of \<open>on_readable\<close> and \<open>on_writable\<close> calls that kept the connection, however the kernel cut the
  stream into pieces in both directions and whatever other clients did to the store in between, the
  commands executed are exactly those that have arrived completely, each once and in order, and the
  bytes sent to the client followed by those still queued are their replies in that order. What is
  left in the input buffer is the beginning of the next command.
\<close>

theorem connection_stream:
  assumes "decimal_fmt e" and "mem_limit e < 2 ^ 60"
    and "io_calls e E evs (connection_init fd) = Some (Inr (Some (received, sent, c')))"
    and "\<forall>as\<in>set cmds. length as \<le> vec_max e \<and> length (array e as) < 2 ^ 63"
    and "received @ later = concat (map (array e) cmds)"
  shows "\<exists>batches rest. cmds = concat batches @ rest \<and>
           received = concat (map (array e) (concat batches)) @ readable (in_buf c') \<and>
           awaiting e rest (readable (in_buf c')) \<and>
           replies e E evs batches = Inr (sent @ readable (out_buf c'))"
proof -
  have "readable (in_buf (connection_init fd)) = []" "readable (out_buf (connection_init fd)) = []"
    by (simp_all add: connection_init_def)
  with io_calls_stream [OF assms(1,2) conn_ok_init assms(3,4), of later] assms(5) show ?thesis
    by (auto simp: awaiting_def)
qed

theorem connection_stream_witness:
  "\<exists>evs c' batches rest. io_calls sample_externals sample_float evs (connection_init 7) =
       Some (Inr (Some (array sample_externals [''ping''] @ ''*2'' @ crlf, ''+PO'', c'))) \<and>
     [[''ping''], [''get'', ''k'']] = concat batches @ rest \<and>
     replies sample_externals sample_float evs batches = Inr (''+PO'' @ readable (out_buf c'))"
proof -
  let ?p = "array sample_externals [''ping''] @ ''*2'' @ crlf" and ?cmds = "[[''ping''], [''get'', ''k'']]"
  have len: "length ?p = 18" by code_simp
  then have "?p \<noteq> []" by auto
  have init: "\<not> conn_closed (connection_init 7)" "readable (in_buf (connection_init 7)) = []"
    "readable (out_buf (connection_init 7)) = []" by (simp_all add: connection_init_def)
  with recv_all [OF conn_ok_init \<open>?p \<noteq> []\<close>, of 7] len obtain c1 where
    c1: "recv_loop [RecvIntr, RecvData 18] ?p (connection_init 7) = Some (Inr (True, [], c1))" by (auto simp: MAX_CAP_def)
  have inc: "parse sample_externals (''*2'' @ crlf) = Inr incomplete" by code_simp
  obtain st' where sv: "serve sample_externals sample_float sample_times (map request [[''ping'']]) sample_state 0 =
      Inr (simple ''PONG'', st')" using serve_ping by blast
  have pong: "simple ''PONG'' = ''+PO'' @ ''NG'' @ crlf" "length (simple ''PONG'') = 7" by (simp_all add: simple_def crlf_def)
  obtain c2 where c2: "on_readable sample_externals sample_float sample_times [RecvIntr, RecvData 18] ?p (connection_init 7)
      sample_state = Some (Inr (True, [], c2, st'))" "conn_ok c2" "readable (out_buf c2) = simple ''PONG''"
    using on_readable_serves [OF conn_ok_init init(1) decimal_fmt_sample _ c1 _ _ sv, of "''*2'' @ crlf"] init(2,3) inc pong(2)
    by (auto simp: sample_externals_def MAX_CAP_def)
  let ?c = "c2\<lparr>out_buf := consume 3 (out_buf c2)\<rparr>"
  have w: "on_writable [SendData 3, SendAgain] c2 = (True, ''+PO'', ?c)"
    using c2(2,3) pong by (simp add: on_writable_def send_loop_Cons buffer_empty_iff conn_ok_def Let_def)
  note run = io_calls_read_write [OF c2(1) w]
  have "map (\<lambda>as. length (array sample_externals as)) ?cmds = [14, 20]" by code_simp
  then have cmds: "\<forall>as\<in>set ?cmds. length as \<le> vec_max sample_externals \<and> length (array sample_externals as) < 2 ^ 63"
    by (simp add: sample_externals_def)
  have later: "?p @ drop 4 (array sample_externals [''get'', ''k'']) = concat (map (array sample_externals) ?cmds)"
    by code_simp
  have "mem_limit sample_externals < 2 ^ 60" by (simp add: sample_externals_def)
  from connection_stream [OF decimal_fmt_sample this run cmds later] run show ?thesis by meson
qed

end
