(* ===== verification/Config_Correct.thy ===== *)
theory Config_Correct
  imports Config
begin

text \<open>
  Correctness of the configuration: every key sets its own field, numbers are read back as written,
  and the only exceptions are those of the number conversions.
\<close>

section \<open>Numbers and trimming\<close>

declare takeWhile_eq_all_conv [simp del]

lemma digit_not_space: "is_digit c \<Longrightarrow> \<not> is_space c"
  by (auto simp: is_digit_def is_space_def)

lemma digit_not_sign: "is_digit c \<Longrightarrow> c \<noteq> CHR ''+'' \<and> c \<noteq> CHR ''-''"
  by (auto simp: is_digit_def)

lemma strto_to_string: "strto (to_string i) = Some (i < 0, nat \<bar>i\<bar>)"
proof (cases "i < 0")
  case True
  with takeWhile_nat_digits(1) [of "[]" "nat (- i)"] show ?thesis
    by (simp add: strto_def to_string_def Let_def is_space_def)
next
  case False
  obtain c ds where n: "nat_digits (nat i) = c # ds" by (cases "nat_digits (nat i)") auto
  then have "is_digit c" using hd_nat_digits [of "nat i"] by simp
  with n False takeWhile_nat_digits(1) [of "[]" "nat i"] digits_val_nat_digits [of "nat i"] show ?thesis
    by (auto simp: strto_def to_string_def Let_def dest: digit_not_space digit_not_sign)
qed

lemma stoi_to_string: "- (2 ^ 31) \<le> i \<Longrightarrow> i < 2 ^ 31 \<Longrightarrow> stoi (to_string i) = Inr i"
  by (auto simp: stoi_def strto_to_string Let_def)

lemma stoull_to_string: "stoull (to_string (uint w)) = Inr w"
proof -
  have "unat w < 2 ^ LENGTH(64)" by (rule unsigned_less)
  then have "unat w < 2 ^ 64" by simp
  then show ?thesis by (simp add: stoull_def strto_to_string)
qed

definition number_fault :: "fault \<Rightarrow> bool" where
  "number_fault f \<longleftrightarrow> f = InvalidArgument \<or> f = OutOfRange"

lemma number_faults: "stoi s = Inl f \<Longrightarrow> number_fault f" "stoull s = Inl f \<Longrightarrow> number_fault f"
  by (auto simp: stoi_def stoull_def number_fault_def Let_def split: option.splits prod.splits if_splits)

text \<open>\<open>trim\<close> removes the blanks at both ends.\<close>

abbreviation blank :: "char \<Rightarrow> bool" where
  "blank c \<equiv> c \<in> set blanks"

definition neat :: "string \<Rightarrow> bool" where
  "neat s \<longleftrightarrow> s = [] \<or> \<not> blank (hd s) \<and> \<not> blank (last s)"

lemma takeWhile_pad: "\<forall>c\<in>set l. P c \<Longrightarrow> s \<noteq> [] \<Longrightarrow> \<not> P (hd s) \<Longrightarrow> takeWhile P (l @ s @ r) = l"
  by (cases s) (simp_all add: takeWhile_append)

lemma trim_pad:
  assumes "\<forall>c\<in>set l. blank c" and "\<forall>c\<in>set r. blank c" and "neat s"
  shows "trim (l @ s @ r) = s"
proof (cases "s = []")
  case True
  have "takeWhile blank (l @ r) = l @ r" using assms(1,2) by (subst takeWhile_eq_all_conv) auto
  with True show ?thesis by (simp add: trim_def find_first_not_of_def)
next
  case False
  then have "takeWhile blank (l @ s @ r) = l" "takeWhile blank (rev r @ rev s @ rev l) = rev r"
    using assms takeWhile_pad [of l blank s r] takeWhile_pad [of "rev r" blank "rev s" "rev l"]
    by (simp_all add: neat_def hd_rev)
  with False show ?thesis
    by (simp add: trim_def find_first_not_of_def find_last_not_of_def substr_def)
qed

lemma trim_neat [simp]: "neat s \<Longrightarrow> trim s = s"
  using trim_pad [of "[]" "[]" s] by simp

section \<open>Lines\<close>

text \<open>How an entry may be laid out: blanks around the key and the value, and a comment at the end.\<close>

record layout =
  before_key :: string
  after_key :: string
  before_value :: string
  after_value :: string
  comment_text :: "string option"

definition layout_ok :: "layout \<Rightarrow> bool" where
  "layout_ok y \<longleftrightarrow>
     (\<forall>c\<in>set (before_key y @ after_key y @ before_value y @ after_value y). blank c \<and> c \<noteq> CHR 0x0A) \<and>
     (case comment_text y of None \<Rightarrow> True | Some s \<Rightarrow> CHR 0x0A \<notin> set s)"

definition entry_line :: "layout \<Rightarrow> string \<Rightarrow> string \<Rightarrow> string" where
  "entry_line y k v =
     before_key y @ k @ after_key y @ ''='' @ before_value y @ v @ after_value y @
     (case comment_text y of None \<Rightarrow> [] | Some s \<Rightarrow> CHR ''#'' # s)"

definition plain :: "string \<Rightarrow> bool" where
  "plain s \<longleftrightarrow> neat s \<and> CHR ''#'' \<notin> set s \<and> CHR 0x0A \<notin> set s"

lemma find_char_skip: "c \<notin> set a \<Longrightarrow> find_char c (a @ c # b) = Some (length a)"
proof -
  assume "c \<notin> set a"
  then have "takeWhile (\<lambda>d. d \<noteq> c) (a @ c # b) = a" by (induction a) auto
  then show ?thesis by (simp add: find_char_def)
qed

lemma find_char_None: "c \<notin> set a \<Longrightarrow> find_char c a = None"
proof -
  assume "c \<notin> set a"
  then have "takeWhile (\<lambda>d. d \<noteq> c) a = a" by (induction a) auto
  then show ?thesis by (simp add: find_char_def)
qed

lemma blank_not: "blank c \<Longrightarrow> c \<noteq> CHR ''#'' \<and> c \<noteq> CHR ''=''"
  by (auto simp: blanks_def)

lemma config_line_entry:
  assumes "layout_ok y" and "plain k" and "k \<noteq> []" and "CHR ''='' \<notin> set k" and "plain v"
  shows "config_line (entry_line y k v) cfg = config_set k v cfg"
proof -
  let ?b = "before_key y @ k @ after_key y @ ''='' @ before_value y @ v @ after_value y"
  let ?line = "k @ after_key y @ ''='' @ (if v = [] then [] else before_value y @ v)"
  note pads = assms(1) [unfolded layout_ok_def, THEN conjunct1]
  have no: "CHR ''#'' \<notin> set ?b" "CHR ''='' \<notin> set (k @ after_key y)"
    using assms(2,4,5) pads blank_not by (auto simp: plain_def)
  have strip: "(case find_char (CHR ''#'') (entry_line y k v) of None \<Rightarrow> entry_line y k v
      | Some hash \<Rightarrow> take hash (entry_line y k v)) = ?b"
  proof (cases "comment_text y")
    case None
    with no(1) show ?thesis by (simp add: entry_line_def find_char_None)
  next
    case (Some s)
    with find_char_skip [OF no(1), of s] show ?thesis by (simp add: entry_line_def)
  qed
  have "neat ?line" using assms(2,3,5) by (auto simp: neat_def plain_def blanks_def)
  then have "trim (before_key y @ ?line @ (if v = [] then before_value y @ after_value y else after_value y)) = ?line"
    using pads by (intro trim_pad) (auto split: if_splits)
  then have trim: "trim ?b = ?line" by (simp split: if_splits)
  have eq: "find_char (CHR ''='') ?line = Some (length (k @ after_key y))"
    using find_char_skip [OF no(2), of "if v = [] then [] else before_value y @ v"] by simp
  have key: "trim (k @ after_key y) = k"
    using trim_pad [of "[]" "after_key y" k] pads assms(2) by (auto simp: plain_def)
  have val: "trim (if v = [] then [] else before_value y @ v) = v"
    using trim_pad [of "before_value y" "[]" v] pads assms(5) by (auto simp: plain_def neat_def)
  from strip trim eq key val assms(3) show ?thesis by (simp add: config_line_def Let_def)
qed

lemma entry_line_no_LF:
  assumes "layout_ok y" and "plain k" and "plain v"
  shows "CHR 0x0A \<notin> set (entry_line y k v)"
  using assms by (auto simp: entry_line_def layout_ok_def plain_def split: option.splits)

lemma getline_line: "CHR 0x0A \<notin> set l \<Longrightarrow> getline (l @ CHR 0x0A # rest) = Some (l, rest)"
proof -
  assume "CHR 0x0A \<notin> set l"
  then have "takeWhile (\<lambda>c. c \<noteq> CHR 0x0A) (l @ CHR 0x0A # rest) = l" "dropWhile (\<lambda>c. c \<noteq> CHR 0x0A) (l @ CHR 0x0A # rest) = CHR 0x0A # rest"
    by (induction l) auto
  then show ?thesis by (simp add: getline_def)
qed

text \<open>A file made of such lines sets its keys one after the other.\<close>

fun set_all :: "(string \<times> string) list \<Rightarrow> config \<Rightarrow> config result" where
  "set_all [] cfg = Inr cfg"
| "set_all ((k, v) # rest) cfg = rbind (config_set k v cfg) (\<lambda>cfg'. set_all rest cfg')"

definition config_text :: "(layout \<times> string \<times> string) list \<Rightarrow> string" where
  "config_text es = concat (map (\<lambda>(y, k, v). entry_line y k v @ [CHR 0x0A]) es)"

definition entry_ok :: "layout \<times> string \<times> string \<Rightarrow> bool" where
  "entry_ok = (\<lambda>(y, k, v). layout_ok y \<and> plain k \<and> k \<noteq> [] \<and> CHR ''='' \<notin> set k \<and> plain v)"

lemma config_loop_text:
  assumes "\<forall>x\<in>set es. entry_ok x"
  shows "config_loop (config_text es) cfg = set_all (map snd es) cfg"
  using assms
proof (induction es arbitrary: cfg)
  case Nil
  then show ?case by (simp add: config_text_def config_loop.simps [of "[]"] getline_def)
next
  case (Cons x es)
  obtain y k v where x: "x = (y, k, v)" by (cases x)
  let ?l = "entry_line y k v"
  have ok: "layout_ok y" "plain k" "k \<noteq> []" "CHR ''='' \<notin> set k" "plain v" using Cons.prems x by (auto simp: entry_ok_def)
  have "config_text (x # es) = ?l @ CHR 0x0A # config_text es" by (simp add: config_text_def x)
  with getline_line [OF entry_line_no_LF [OF ok(1,2,5)], of "config_text es"]
  have "config_loop (config_text (x # es)) cfg = rbind (config_line ?l cfg) (\<lambda>cfg'. config_loop (config_text es) cfg')"
    by (subst config_loop.simps) simp
  with config_line_entry [OF ok] Cons x show ?case
    by (cases "config_set k v cfg") auto
qed

section \<open>Writing a configuration\<close>

definition flag_text :: "bool \<Rightarrow> string" where
  "flag_text b = (if b then ''true'' else ''false'')"

text \<open>The entries of a file that describes a configuration completely.\<close>

definition config_entries :: "config \<Rightarrow> (string \<times> string) list" where
  "config_entries c =
     [(''host'', cfg_host c), (''port'', to_string (uint (cfg_port c))), (''backlog'', to_string (cfg_backlog c)),
      (''worker_threads'', to_string (uint (cfg_worker_threads c))), (''max_keys'', to_string (uint (cfg_max_keys c))),
      (''rdb_enabled'', flag_text (cfg_rdb_enabled c)), (''rdb_path'', cfg_rdb_path c),
      (''rdb_interval_secs'', to_string (cfg_rdb_interval_secs c)), (''aof_enabled'', flag_text (cfg_aof_enabled c)),
      (''aof_path'', cfg_aof_path c), (''metrics_enabled'', flag_text (cfg_metrics_enabled c)),
      (''metrics_port'', to_string (uint (cfg_metrics_port c))), (''log_level'', cfg_log_level c),
      (''log_file'', cfg_log_file c), (''sweep_interval_ms'', to_string (cfg_sweep_interval_ms c))]"

definition in_int32 :: "int \<Rightarrow> bool" where
  "in_int32 i \<longleftrightarrow> - (2 ^ 31) \<le> i \<and> i < 2 ^ 31"

definition config_ok :: "config \<Rightarrow> bool" where
  "config_ok c \<longleftrightarrow>
     plain (cfg_host c) \<and> plain (cfg_rdb_path c) \<and> plain (cfg_aof_path c) \<and> plain (cfg_log_level c) \<and> plain (cfg_log_file c) \<and>
     in_int32 (cfg_backlog c) \<and> in_int32 (cfg_rdb_interval_secs c) \<and> in_int32 (cfg_sweep_interval_ms c) \<and>
     uint (cfg_worker_threads c) < 2 ^ 31"

lemma flag_value_text [simp]: "flag_value (flag_text b) = b"
  by (simp add: flag_value_def flag_text_def)

lemma plain_flag [simp]: "plain (flag_text b)"
  by (simp add: plain_def neat_def flag_text_def blanks_def)

lemma plain_to_string [simp]: "plain (to_string i)"
proof -
  have "c \<notin> set blanks \<and> c \<noteq> CHR ''#'' \<and> c \<noteq> CHR 0x0A" if "c \<in> set (to_string i)" for c
    using to_string_chars [OF that] by (auto simp: blanks_def is_digit_def)
  then show ?thesis by (auto simp: plain_def neat_def)
qed

lemma stoi_int32: "in_int32 i \<Longrightarrow> stoi (to_string i) = Inr i"
  by (simp add: in_int32_def stoi_to_string)

lemma stoi_port: "stoi (to_string (uint (w :: 16 word))) = Inr (uint w)"
proof -
  have "uint w < 2 ^ LENGTH(16)" by (rule uint_lt2p)
  then show ?thesis
    using order_trans [of "- (2 ^ 31)" 0 "uint w"] by (intro stoi_to_string) simp_all
qed

lemma set_all_entries:
  assumes "config_ok c"
  shows "set_all (config_entries c) cfg = Inr c"
proof -
  have "stoi (to_string (uint (cfg_worker_threads c))) = Inr (uint (cfg_worker_threads c))"
    using assms order_trans [of "- (2 ^ 31)" 0 "uint (cfg_worker_threads c)"]
    by (intro stoi_to_string) (simp_all add: config_ok_def)
  with assms show ?thesis
    by (simp add: config_entries_def config_set_def config_ok_def stoi_int32 stoi_port stoull_to_string)
qed

lemma plain_keys: "\<forall>(k, v)\<in>set (config_entries c). plain k \<and> k \<noteq> [] \<and> CHR ''='' \<notin> set k"
  by (simp add: config_entries_def plain_def neat_def blanks_def)

lemma plain_values: "config_ok c \<Longrightarrow> \<forall>(k, v)\<in>set (config_entries c). plain v"
  by (simp add: config_entries_def config_ok_def)

section \<open>Properties\<close>

text \<open>
  C29: The configuration file means what it says. Write any configuration as a file, one key per line,
  with any blanks around keys and values and with or without comments: reading the file yields exactly
  that configuration, so every key sets its own field and no other, and every value is read back.
\<close>

theorem config_file_read_back:
  assumes "config_ok c" and "map snd es = config_entries c" and "\<forall>(y, kv)\<in>set es. layout_ok y"
  shows "from_file (Some (config_text es)) = Inr c"
proof -
  have "entry_ok x" if x: "x \<in> set es" for x
  proof -
    have "snd x \<in> set (config_entries c)" using x assms(2) by (metis in_set_conv_decomp list.set_map imageI)
    with plain_keys [of c] plain_values [OF assms(1)] assms(3) x show ?thesis by (fastforce simp: entry_ok_def)
  qed
  then show ?thesis by (simp add: from_file_def config_loop_text assms(2) set_all_entries [OF assms(1)])
qed

definition plain_layout :: layout where
  "plain_layout = \<lparr>before_key = '' '', after_key = '' '', before_value = '' '', after_value = [], comment_text = Some ''x''\<rparr>"

theorem config_file_read_back_witness:
  "from_file (Some (config_text (map (Pair plain_layout) (config_entries (config_default\<lparr>cfg_port := 7000\<rparr>))))) =
     Inr (config_default\<lparr>cfg_port := 7000\<rparr>)"
proof (rule config_file_read_back)
  show "config_ok (config_default\<lparr>cfg_port := 7000\<rparr>)"
    by (simp add: config_ok_def config_default_def plain_def neat_def blanks_def in_int32_def)
qed (auto simp: comp_def plain_layout_def layout_ok_def blanks_def)

lemma config_set_faults: "config_set k v cfg = Inl f \<Longrightarrow> number_fault f"
  by (auto simp: config_set_def rbind_eq_Inl dest: number_faults split: if_splits)

lemma config_loop_faults: "config_loop f cfg = Inl flt \<Longrightarrow> number_fault flt"
proof (induction f cfg rule: config_loop.induct)
  case (1 f cfg)
  show ?case
  proof (cases "getline f")
    case (Some lr)
    obtain line f' where lr: "lr = (line, f')" by (cases lr)
    from "1.prems" Some lr show ?thesis
      using "1.IH" [OF Some lr [symmetric]]
      by (subst (asm) config_loop.simps)
        (auto simp: rbind_eq_Inl config_line_def Let_def dest: config_set_faults split: if_splits option.splits)
  qed (use "1.prems" in \<open>simp add: config_loop.simps [of f]\<close>)
qed

lemma config_arg_faults: "config_arg k v cfg = Inl f \<Longrightarrow> number_fault f"
  by (auto simp: config_arg_def rbind_eq_Inl dest: number_faults split: if_splits)

lemma apply_args_loop_faults: "apply_args_loop as cfg = Inl f \<Longrightarrow> number_fault f"
  by (induction as cfg rule: apply_args_loop.induct) (auto simp: rbind_eq_Inl dest: config_arg_faults)

text \<open>
  Errors of the configuration. Reading a file and applying the command line either yields a
  configuration or throws one of the two exceptions of the number conversions; an unknown key, a
  missing file or a line without an equals sign is never an error.
\<close>

theorem main_config_faults:
  assumes "main_config fs argv = Inl f"
  shows "f = InvalidArgument \<or> f = OutOfRange"
proof -
  have "number_fault f"
    using assms
    by (auto simp: main_config_def Let_def rbind_eq_Inl from_file_def apply_args_def
        dest: config_loop_faults apply_args_loop_faults split: if_splits option.splits)
  then show ?thesis by (simp add: number_fault_def)
qed

theorem main_config_faults_witness:
  "main_config Map.empty [''cacheserver'', ''--port'', ''http''] = Inl InvalidArgument \<and>
   (InvalidArgument = InvalidArgument \<or> InvalidArgument = OutOfRange)"
proof -
  have "main_config Map.empty [''cacheserver'', ''--port'', ''http''] = Inl InvalidArgument"
    by (simp add: main_config_def apply_args_def config_arg_def stoi_def strto_def is_digit_def is_space_def)
  with main_config_faults [OF this] show ?thesis by simp
qed

section \<open>Silent conversions\<close>

text \<open>A port above 65535 is reduced modulo 65536 instead of being refused.\<close>

lemma port_wraps: "config_set ''port'' ''70000'' cfg = Inr (cfg\<lparr>cfg_port := 4464\<rparr>)"
  by (simp add: config_set_def stoi_def strto_def digits_val_def digit_val_def is_digit_def is_space_def)

text \<open>A negative number of workers becomes a huge one.\<close>

lemma negative_workers: "config_arg ''--workers'' ''-1'' cfg = Inr (cfg\<lparr>cfg_worker_threads := - 1\<rparr>)"
  by (simp add: config_arg_def stoi_def strto_def digits_val_def digit_val_def is_digit_def is_space_def)

end
