(* ===== verification/Store_Concurrency.thy ===== *)
theory Store_Concurrency
  imports Store_Outcomes Step_Systems
begin

text \<open>
  The store under concurrent use. Every operation of \<open>src/src/storage/Store.cpp\<close> is a sequence of
  critical sections, each under the lock of one shard; between two sections of one thread any other
  thread may run its own. A thread is the rest of its operation; one step executes the next critical
  section of some thread. The locks make a section atomic, so steps are the unit of interleaving.
\<close>

section \<open>Threads\<close>

datatype reply =
    RUnit
  | RBool bool
  | RInt int
  | RIntOpt "int option"
  | RStr "string option"
  | RSize nat
  | RKeys "string list"
  | REntries "(string \<times> string \<times> int) list"

text \<open>
  \<open>SetSize\<close>, \<open>SetScan\<close>, \<open>SetEvict\<close> and \<open>SetWrite\<close> are the stages of \<open>set\<close>: the sum of the sizes, the search
  for the fullest shard, the eviction and the write. The number is the shard the next section locks.
\<close>

datatype thread =
    SetSize string string int int nat nat
  | SetScan string string int int nat nat nat
  | SetEvict string string int int nat
  | SetWrite string string int int
  | Get string int int
  | GetAgain string int
  | Del string
  | Exists string int
  | Ttl string int
  | Expire string int int int
  | Incr string int
  | Size nat nat
  | Keys string int nat "string list"
  | Flush nat
  | Sweep int nat nat
  | ForEach int nat "(string \<times> string \<times> int) list"
  | Done reply
  | Faulted fault

definition start_set :: "string \<Rightarrow> string \<Rightarrow> int \<Rightarrow> int \<Rightarrow> thread" where
  "start_set k v ttl now = SetSize k v ttl now 0 0"

definition finished :: "thread \<Rightarrow> bool" where
  "finished t \<longleftrightarrow> (case t of Done r \<Rightarrow> True | Faulted f \<Rightarrow> True | _ \<Rightarrow> False)"

definition in_shard :: "store \<Rightarrow> nat \<Rightarrow> (shard \<Rightarrow> ('a \<times> shard) result) \<Rightarrow> ('a \<Rightarrow> thread) \<Rightarrow> store \<times> thread" where
  "in_shard s i f next =
     (case f (shards s ! i) of Inl flt \<Rightarrow> (s, Faulted flt) | Inr (x, sh) \<Rightarrow> (put_shard s i sh, next x))"

text \<open>The next critical section of a thread.\<close>

fun crit :: "externals \<Rightarrow> store \<Rightarrow> thread \<Rightarrow> store \<times> thread" where
  "crit e s (SetSize k v ttl now i tot) =
     (if i < SHARD_COUNT then (s, SetSize k v ttl now (Suc i) (tot + length (smap (shards s ! i))))
      else if tot < max_keys s then (s, SetWrite k v ttl now)
      else (s, SetScan k v ttl now 0 0 0))"
| "crit e s (SetScan k v ttl now i max_sz max_idx) =
     (if i < SHARD_COUNT then
        (if length (smap (shards s ! i)) > max_sz
         then (s, SetScan k v ttl now (Suc i) (length (smap (shards s ! i))) i)
         else (s, SetScan k v ttl now (Suc i) max_sz max_idx))
      else (s, SetEvict k v ttl now max_idx))"
| "crit e s (SetEvict k v ttl now max_idx) =
     in_shard s max_idx evict_locked (\<lambda>evicted. SetWrite k v ttl now)"
| "crit e s (SetWrite k v ttl now) =
     (case (if ttl > 0 then add64 now ttl else Inr (-1)) of
        Inl f \<Rightarrow> (s, Faulted f)
      | Inr expires_at \<Rightarrow>
          in_shard s (shard_for e k) (\<lambda>sh. rbind (set_locked sh k v expires_at) (\<lambda>sh'. Inr (RUnit, sh'))) Done)"
| "crit e s (Get k now1 now2) =
     (case get_shared (shards s ! shard_for e k) k now1 of
        GetReturn v \<Rightarrow> (s, Done (RStr v))
      | GetUpgrade \<Rightarrow> (s, GetAgain k now2))"
| "crit e s (GetAgain k now) =
     in_shard s (shard_for e k) (\<lambda>sh. get_exclusive sh k now) (\<lambda>v. Done (RStr v))"
| "crit e s (Del k) = in_shard s (shard_for e k) (\<lambda>sh. del_locked sh k) (\<lambda>b. Done (RBool b))"
| "crit e s (Exists k now) = (s, Done (RBool (exists_shared (shards s ! shard_for e k) k now)))"
| "crit e s (Ttl k now) =
     (case ttl_shared (shards s ! shard_for e k) k now of
        Inl f \<Rightarrow> (s, Faulted f) | Inr ms \<Rightarrow> (s, Done (RInt ms)))"
| "crit e s (Expire k ttl now1 now2) =
     in_shard s (shard_for e k) (\<lambda>sh. expire_locked sh k ttl now1 now2) (\<lambda>b. Done (RBool b))"
| "crit e s (Incr k now) =
     in_shard s (shard_for e k) (\<lambda>sh. incr_locked sh k now) (\<lambda>r. Done (RIntOpt r))"
| "crit e s (Size i tot) =
     (if i < SHARD_COUNT then (s, Size (Suc i) (tot + length (smap (shards s ! i)))) else (s, Done (RSize tot)))"
| "crit e s (Keys p now i acc) =
     (if i < SHARD_COUNT then (s, Keys p now (Suc i) (acc @ keys_shared e (shards s ! i) p now))
      else (s, Done (RKeys acc)))"
| "crit e s (Flush i) =
     (if i < SHARD_COUNT
      then in_shard s i (\<lambda>sh. rbind (flush_locked sh) (\<lambda>sh'. Inr (RUnit, sh'))) (\<lambda>_. Flush (Suc i))
      else (s, Done RUnit))"
| "crit e s (Sweep now i removed) =
     (if i < SHARD_COUNT then in_shard s i (\<lambda>sh. sweep_locked now sh removed) (Sweep now (Suc i))
      else (s, Done (RSize removed)))"
| "crit e s (ForEach now i acc) =
     (if i < SHARD_COUNT then (s, ForEach now (Suc i) (acc @ for_each_shared (shards s ! i) now))
      else (s, Done (REntries acc)))"
| "crit e s t = (s, t)"

section \<open>Interleaving\<close>

inductive cstep :: "externals \<Rightarrow> store \<times> thread list \<Rightarrow> store \<times> thread list \<Rightarrow> bool" for e where
  run: "i < length ts \<Longrightarrow> \<not> finished (ts ! i) \<Longrightarrow> crit e s (ts ! i) = (s', t') \<Longrightarrow>
        cstep e (s, ts) (s', ts[i := t'])"

inductive_cases cstepE: "cstep e st st'"

text \<open>A thread whose scan results name existing shards and that has not failed but by an overflow.\<close>

fun thread_ok :: "thread \<Rightarrow> bool" where
  "thread_ok (SetScan k v ttl now i max_sz max_idx) \<longleftrightarrow> max_idx < SHARD_COUNT"
| "thread_ok (SetEvict k v ttl now max_idx) \<longleftrightarrow> max_idx < SHARD_COUNT"
| "thread_ok (Faulted f) \<longleftrightarrow> f = SignedOverflow"
| "thread_ok _ \<longleftrightarrow> True"

definition conc_ok :: "externals \<Rightarrow> store \<times> thread list \<Rightarrow> bool" where
  "conc_ok e st \<longleftrightarrow> store_ok e (fst st) \<and> list_all thread_ok (snd st)"

section \<open>Every section keeps the invariant\<close>

lemma put_shard_sub:
  assumes "store_ok e s" and "i < SHARD_COUNT" and "shard_ok sh" and "dom (contents sh) \<subseteq> dom (contents (shards s ! i))"
  shows "store_ok e (put_shard s i sh)"
  using assms unfolding store_ok_def by (auto simp: nth_list_update subset_iff)

lemma put_shard_key:
  assumes "store_ok e s" and "shard_ok sh" and "contents sh = (contents (shards s ! shard_for e k))(k := w)"
  shows "store_ok e (put_shard s (shard_for e k) sh)"
  using put_shard_upd(1) [OF assms(1) shard_for_lt refl assms(2,3)] .

lemma in_shard_store:
  "in_shard s i f next =
     (case rbind (f (shards s ! i)) (\<lambda>(x, sh). Inr (x, put_shard s i sh)) of
        Inl flt \<Rightarrow> (s, Faulted flt) | Inr (x, s') \<Rightarrow> (s', next x))"
  by (cases "f (shards s ! i)") (auto simp: in_shard_def)

lemma SHARD_COUNT_pos [simp]: "0 < SHARD_COUNT"
  by (simp add: SHARD_COUNT_def)

lemma crit_ok:
  assumes "store_ok e s" and "thread_ok t" and "crit e s t = (s', t')"
  shows "store_ok e s' \<and> thread_ok t'"
proof (cases t)
  case (SetWrite k v ttl now)
  show ?thesis
  proof (cases "if ttl > 0 then add64 now ttl else Inr (-1)")
    case (Inl f)
    then have "f = SignedOverflow" by (auto split: if_splits)
    with Inl assms SetWrite show ?thesis by auto
  next
    case (Inr x)
    obtain sh where "set_locked (shards s ! shard_for e k) k v x = Inr sh" "shard_ok sh"
      "contents sh = (contents (shards s ! shard_for e k))(k \<mapsto> (v, x))"
      using shard_for_ok [OF assms(1)] by (rule set_locked_ok)
    with Inr assms SetWrite put_shard_key [OF assms(1), of sh k] show ?thesis by (auto simp: in_shard_def)
  qed
next
  case (SetEvict k v ttl now i)
  have i: "i < SHARD_COUNT" and sh: "shard_ok (shards s ! i)"
    using assms(1,2) SetEvict store_okD(2) by auto
  show ?thesis
  proof (cases "recency (shards s ! i) = []")
    case True
    with assms SetEvict i show ?thesis
      by (auto simp: in_shard_def evict_locked_empty put_shard_same store_okD(1))
  next
    case False
    obtain sh' where "evict_locked (shards s ! i) = Inr (Some (last (recency (shards s ! i))), sh')" "shard_ok sh'"
      "contents sh' = (contents (shards s ! i))(last (recency (shards s ! i)) := None)"
      using sh False by (rule evict_locked_ok)
    with assms SetEvict i put_shard_sub [OF assms(1) i, of sh'] show ?thesis by (auto simp: in_shard_def)
  qed
next
  case (GetAgain k now)
  obtain sh where "get_exclusive (shards s ! shard_for e k) k now = Inr (live (contents (shards s ! shard_for e k)) now k, sh)"
    "shard_ok sh" "contents sh = (if live (contents (shards s ! shard_for e k)) now k = None
       then (contents (shards s ! shard_for e k))(k := None) else contents (shards s ! shard_for e k))"
    using shard_for_ok [OF assms(1)] by (rule get_exclusive_ok)
  with assms GetAgain put_shard_sub [OF assms(1) shard_for_lt, of sh e k] show ?thesis
    by (auto simp: in_shard_def split: if_splits)
next
  case (Del k)
  with assms outcome_del [OF assms(1), of k] show ?thesis
    by (auto simp: in_shard_store store_del_def [symmetric] split: sum.splits)
next
  case (Expire k ttl now1 now2)
  with assms outcome_expire [OF assms(1), of k ttl now1 now2] show ?thesis
    by (auto simp: in_shard_store store_expire_def [symmetric] split: sum.splits)
next
  case (Incr k now)
  with assms outcome_incr [OF assms(1), of k now] show ?thesis
    by (auto simp: in_shard_store store_incr_def [symmetric] split: sum.splits)
next
  case (Ttl k now)
  with assms outcome_ttl [of e s k now] show ?thesis
    by (auto simp: store_ttl_def [symmetric] split: sum.splits)
next
  case (Flush i)
  show ?thesis
  proof (cases "i < SHARD_COUNT")
    case True
    obtain sh where "flush_locked (shards s ! i) = Inr sh" "shard_ok sh" "contents sh = Map.empty"
      using store_okD(2) [OF assms(1) True] by (rule flush_locked_ok)
    with assms Flush True put_shard_sub [OF assms(1) True, of sh] show ?thesis by (auto simp: in_shard_def)
  qed (use assms Flush in auto)
next
  case (Sweep now i removed)
  show ?thesis
  proof (cases "i < SHARD_COUNT")
    case True
    obtain sh where sh: "sweep_locked now (shards s ! i) removed = Inr (removed + length (smap (shards s ! i)) - length (smap sh), sh)"
      "shard_ok sh" "contents sh = (\<lambda>k. case contents (shards s ! i) k of None \<Rightarrow> None
         | Some (v, x) \<Rightarrow> if expired_at x now then None else Some (v, x))"
      using store_okD(2) [OF assms(1) True] by (rule sweep_locked_ok)
    have "dom (contents sh) \<subseteq> dom (contents (shards s ! i))"
      by (auto simp: sh(3) dom_def split: option.splits if_splits)
    with sh assms Sweep True put_shard_sub [OF assms(1) True, of sh] show ?thesis by (auto simp: in_shard_def)
  qed (use assms Sweep in auto)
qed (use assms in \<open>auto split: if_splits get_phase.splits\<close>)

interpretation conc: step_invariant "cstep e" "conc_ok e" for e
proof
  fix st st'
  assume step: "cstep e st st'" and ok: "conc_ok e st"
  from step obtain i ts s s' t' where "st = (s, ts)" "st' = (s', ts[i := t'])" "i < length ts" "crit e s (ts ! i) = (s', t')"
    by (rule cstepE) blast
  with ok crit_ok [of e s "ts ! i" s' t'] show "conc_ok e st'"
    by (auto simp: conc_ok_def list_all_length nth_list_update)
qed

section \<open>Running alone\<close>

text \<open>
  A thread that runs without interference computes what the sequential operation of theory \<open>Store\<close>
  computes; here for \<open>set\<close>, the operation with the most sections. Theory \<open>Store_Adequacy\<close> has the others.
\<close>

definition alone :: "externals \<Rightarrow> store \<times> thread \<Rightarrow> store \<times> thread" where
  "alone e st = crit e (fst st) (snd st)"

lemma alone_size:
  assumes "i + n = SHARD_COUNT" and "length (shards s) = SHARD_COUNT"
  shows "(alone e ^^ n) (s, SetSize k v ttl now i tot) =
           (s, SetSize k v ttl now SHARD_COUNT (foldl (\<lambda>t sh. t + length (smap sh)) tot (drop i (shards s))))"
  using assms(1)
proof (induction n arbitrary: i tot)
  case (Suc n)
  then have i: "i < length (shards s)" using assms(2) by simp
  have "(alone e ^^ Suc n) (s, SetSize k v ttl now i tot) =
      (alone e ^^ n) (s, SetSize k v ttl now (Suc i) (tot + length (smap (shards s ! i))))"
    using i assms(2) by (simp add: funpow_swap1 alone_def)
  with Suc i show ?case by (simp add: Cons_nth_drop_Suc [symmetric])
qed (use assms(2) in simp)

lemma alone_scan:
  assumes "i + n = SHARD_COUNT" and "length (shards s) = SHARD_COUNT"
  shows "\<exists>m. (alone e ^^ n) (s, SetScan k v ttl now i max_sz max_idx) =
           (s, SetScan k v ttl now SHARD_COUNT m (largest_shard (drop i (shards s)) i max_sz max_idx))"
  using assms(1)
proof (induction n arbitrary: i max_sz max_idx)
  case (Suc n)
  then have i: "i < length (shards s)" using assms(2) by simp
  let ?l = "length (smap (shards s ! i))"
  have "(alone e ^^ Suc n) (s, SetScan k v ttl now i max_sz max_idx) =
      (alone e ^^ n) (s, SetScan k v ttl now (Suc i) (if ?l > max_sz then ?l else max_sz) (if ?l > max_sz then i else max_idx))"
    using i assms(2) by (simp add: funpow_swap1 alone_def)
  with Suc i show ?case by (simp add: Cons_nth_drop_Suc [symmetric])
qed (use assms(2) in auto)

lemma alone_trans:
  "\<exists>n. (alone e ^^ n) x = y \<Longrightarrow> (alone e ^^ m) y = z \<Longrightarrow> \<exists>n. (alone e ^^ n) x = z"
  by (metis comp_apply funpow_add)

lemma alone_step: "\<exists>n. (alone e ^^ n) x = y \<Longrightarrow> alone e y = z \<Longrightarrow> \<exists>n. (alone e ^^ n) x = z"
  using alone_trans [of e x y 1 z] by simp

text \<open>The sections of \<open>maybe_evict\<close>, up to the write.\<close>

lemma alone_evict:
  assumes "store_ok e s" and "maybe_evict s = Inr s1"
  shows "\<exists>n. (alone e ^^ n) (s, start_set k v ttl now) = (s1, SetWrite k v ttl now)"
proof -
  note len = store_okD(1) [OF assms(1)]
  have "(alone e ^^ SHARD_COUNT) (s, start_set k v ttl now) = (s, SetSize k v ttl now SHARD_COUNT (store_size s))"
    using alone_size [of 0 SHARD_COUNT s e k v ttl now 0] len by (simp add: start_set_def store_size_def)
  then have sized: "\<exists>n. (alone e ^^ n) (s, start_set k v ttl now) = (s, SetSize k v ttl now SHARD_COUNT (store_size s))"
    by blast
  show ?thesis
  proof (cases "store_size s < max_keys s")
    case True
    with assms(2) have "alone e (s, SetSize k v ttl now SHARD_COUNT (store_size s)) = (s1, SetWrite k v ttl now)"
      by (simp add: alone_def maybe_evict_def)
    with sized show ?thesis by (rule alone_step)
  next
    case False
    let ?i = "largest_shard (shards s) 0 0 0"
    from alone_scan [of 0 SHARD_COUNT s e k v ttl now 0 0] len obtain m where
      scan: "(alone e ^^ SHARD_COUNT) (s, SetScan k v ttl now 0 0 0) = (s, SetScan k v ttl now SHARD_COUNT m ?i)" by auto
    from assms(2) False obtain ev sh1 where "evict_locked (shards s ! ?i) = Inr (ev, sh1)" "s1 = put_shard s ?i sh1"
      by (auto simp: maybe_evict_def Let_def)
    then have evict: "alone e (s, SetEvict k v ttl now ?i) = (s1, SetWrite k v ttl now)"
      by (simp add: alone_def in_shard_def)
    have to_scan: "alone e (s, SetSize k v ttl now SHARD_COUNT (store_size s)) = (s, SetScan k v ttl now 0 0 0)"
      and to_evict: "alone e (s, SetScan k v ttl now SHARD_COUNT m ?i) = (s, SetEvict k v ttl now ?i)"
      using False by (simp_all add: alone_def)
    show ?thesis
      using alone_step [OF alone_step [OF alone_trans [OF alone_step [OF sized to_scan] scan] to_evict] evict] .
  qed
qed

lemma alone_set:
  assumes "store_ok e s" and "store_set e s k v ttl now = Inr s'"
  shows "\<exists>n. (alone e ^^ n) (s, start_set k v ttl now) = (s', Done RUnit)"
proof -
  from assms(2) obtain s1 x sh where 1: "maybe_evict s = Inr s1"
    "(if ttl > 0 then add64 now ttl else Inr (-1)) = Inr x"
    "set_locked (shards s1 ! shard_for e k) k v x = Inr sh" "s' = put_shard s1 (shard_for e k) sh"
    by (auto simp: store_set_def simp del: add64_Inr)
  have "alone e (s1, SetWrite k v ttl now) = (s', Done RUnit)"
    using 1(2-4) by (auto simp: alone_def in_shard_def)
  with alone_evict [OF assms(1) 1(1)] show ?thesis by (rule alone_step)
qed

section \<open>Concurrent increments\<close>

text \<open>
  Threads that all increment one key. After \<open>d\<close> of them have run, the key counts \<open>n + d\<close> and the replies
  given out are exactly the numbers from \<open>n + 1\<close> to \<open>n + d\<close>.
\<close>

definition incr_inv :: "externals \<Rightarrow> string \<Rightarrow> int \<Rightarrow> store \<times> thread list \<Rightarrow> bool" where
  "incr_inv e k n st \<longleftrightarrow>
     (case st of (s, ts) \<Rightarrow>
        store_ok e s \<and> in_int64 n \<and> in_int64 (n + int (length ts)) \<and>
        (\<forall>t\<in>set ts. (\<exists>now. t = Incr k now) \<or> (\<exists>x. t = Done (RIntOpt (Some x)))) \<and>
        (\<forall>now. incr_base (live (store_map e s) now k) = Some (n + int (length (filter finished ts)))) \<and>
        {x. Done (RIntOpt (Some x)) \<in> set ts} = {n + 1..n + int (length (filter finished ts))})"

lemma filter_finished_update:
  assumes "i < length ts" and "\<not> finished (ts ! i)" and "finished t"
  shows "length (filter finished (ts[i := t])) = Suc (length (filter finished ts))"
proof -
  have "ts = take i ts @ ts ! i # drop (Suc i) ts" using assms(1) by (rule id_take_nth_drop)
  then have "filter finished ts = filter finished (take i ts) @ filter finished (drop (Suc i) ts)"
    using assms(2) by (metis filter.simps(2) filter_append)
  with assms(1,3) show ?thesis by (simp add: upd_conv_take_nth_drop)
qed

lemma done_update:
  assumes "i < length ts" and "\<not> finished (ts ! i)"
  shows "Done r \<in> set (ts[i := t]) \<longleftrightarrow> Done r = t \<or> Done r \<in> set ts"
proof -
  have "ts ! i \<noteq> Done r" using assms(2) by (auto simp: finished_def)
  with assms(1) show ?thesis by (auto simp: in_set_conv_nth nth_list_update)
qed

interpretation incr: step_invariant "cstep e" "incr_inv e k n" for e k n
proof
  fix st st'
  assume "cstep e st st'" and inv: "incr_inv e k n st"
  then show "incr_inv e k n st'"
  proof cases
    case (run i ts s s' t')
    let ?d = "int (length (filter finished ts))"
    note I = inv [unfolded incr_inv_def run(1) prod.case]
    obtain now where t: "ts ! i = Incr k now"
      using I nth_mem [OF run(3)] run(4) by (auto simp: finished_def)
    have "length (filter finished ts) < length ts"
      using length_filter_less [of "ts ! i" ts finished] run(3,4) by simp
    then have range: "in_int64 (n + ?d + 1)" using I by (auto simp: in_int64_def)
    have base: "incr_base (live (store_map e s) now k) = Some (n + ?d)" using I by blast
    obtain s1 where s1: "store_incr e s k now = Inr (Some (n + ?d + 1), s1)" "store_ok e s1"
      "store_map e s1 = (store_map e s)(k \<mapsto> (to_string (n + ?d + 1), -1))"
      using I base range by (auto intro: store_incr_ok [of e s now k "n + ?d"])
    have "s' = s1" "t' = Done (RIntOpt (Some (n + ?d + 1)))"
      using run(5) s1(1) by (auto simp: t in_shard_store store_incr_def [symmetric])
    moreover have "incr_base (live (store_map e s1) now' k) = Some (n + ?d + 1)" for now'
      using range by (simp add: s1(3) live_def expired_at_def incr_base_def)
    moreover have "finished t'" using \<open>t' = _\<close> by (simp add: finished_def)
    moreover have "{x. Done (RIntOpt (Some x)) \<in> set (ts[i := t'])} = {n + 1..n + ?d + 1}"
    proof -
      have "{x. Done (RIntOpt (Some x)) \<in> set (ts[i := t'])} =
          insert (n + ?d + 1) {x. Done (RIntOpt (Some x)) \<in> set ts}"
        using done_update [OF run(3,4), of _ t'] \<open>t' = _\<close> by auto
      also have "\<dots> = insert (n + ?d + 1) {n + 1..n + ?d}" using I by blast
      also have "\<dots> = {n + 1..n + ?d + 1}" by auto
      finally show ?thesis .
    qed
    ultimately show ?thesis
      using I s1(2) run(3,4) filter_finished_update [OF run(3,4), of t']
      by (auto simp: incr_inv_def run(2) add.assoc dest!: set_update_subset_insert [THEN subsetD])
  qed
qed

lemma cstep_length: "(cstep e)\<^sup>*\<^sup>* st st' \<Longrightarrow> length (snd st') = length (snd st)"
  by (induction rule: rtranclp_induct) (auto elim!: cstep.cases)

section \<open>Properties\<close>

text \<open>
  C13: Safety of every interleaving. Start any number of store operations on a well-formed store and
  let their critical sections run in any order: the invariant holds in every state that is reached,
  and no thread has failed except by a 64-bit overflow. In particular no interleaving of writes,
  deletions, evictions and sweeps ever follows a dangling recency node.
\<close>

theorem interleaving_safe:
  assumes "store_ok e s" and "\<forall>t\<in>set ts. thread_ok t" and "(cstep e)\<^sup>*\<^sup>* (s, ts) (s', ts')"
  shows "store_ok e s' \<and> (\<forall>f. Faulted f \<in> set ts' \<longrightarrow> f = SignedOverflow)"
proof -
  have "conc_ok e (s', ts')"
    using conc.inv_reachable [OF assms(3)] assms(1,2) by (simp add: conc_ok_def list_all_iff)
  then show ?thesis by (auto simp: conc_ok_def list_all_iff)
qed

theorem interleaving_safe_witness:
  "\<exists>s'. (cstep sample_externals)\<^sup>*\<^sup>* (full_store, [Incr ''a'' 5, Sweep 2000 0 0]) (s', [Done (RIntOpt (Some 2)), Sweep 2000 0 0]) \<and>
        store_ok sample_externals s'"
proof -
  have "rbind (store_incr sample_externals full_store ''a'' 5) (\<lambda>(r, s'). Inr r) = Inr (Some 2)" by code_simp
  then obtain s' where "store_incr sample_externals full_store ''a'' 5 = Inr (Some 2, s')" by auto
  then have "crit sample_externals full_store (Incr ''a'' 5) = (s', Done (RIntOpt (Some 2)))"
    by (simp add: in_shard_store store_incr_def [symmetric])
  then have "cstep sample_externals (full_store, [Incr ''a'' 5, Sweep 2000 0 0]) (s', [Incr ''a'' 5, Sweep 2000 0 0][0 := Done (RIntOpt (Some 2))])"
    by (intro cstep.run) (auto simp: finished_def)
  then have r: "(cstep sample_externals)\<^sup>*\<^sup>* (full_store, [Incr ''a'' 5, Sweep 2000 0 0]) (s', [Done (RIntOpt (Some 2)), Sweep 2000 0 0])"
    by simp
  have "\<forall>t\<in>set [Incr ''a'' 5, Sweep 2000 0 0]. thread_ok t" by simp
  from interleaving_safe [OF store_ok_full this r] r show ?thesis by blast
qed

text \<open>
  C19: No increment is lost. If a key holds the integer \<open>n\<close> without a deadline (or is absent and
  \<open>n = 0\<close>) and any number of threads increment it concurrently, then once all have finished the key
  holds \<open>n\<close> plus their number, and the replies are exactly the numbers in between, each given once.
\<close>

theorem concurrent_incr_exact:
  assumes "store_ok e s" and "\<forall>now. incr_base (live (store_map e s) now k) = Some n"
    and "in_int64 n" and "in_int64 (n + int (length nows))"
    and "(cstep e)\<^sup>*\<^sup>* (s, map (Incr k) nows) (s', ts)" and "\<forall>t\<in>set ts. finished t"
  shows "(\<forall>now. incr_base (live (store_map e s') now k) = Some (n + int (length nows))) \<and>
         {x. Done (RIntOpt (Some x)) \<in> set ts} = {n + 1..n + int (length nows)}"
proof -
  have "filter finished (map (Incr k) nows) = []" by (auto simp: filter_empty_conv finished_def)
  then have "incr_inv e k n (s, map (Incr k) nows)" using assms(1-4) by (auto simp: incr_inv_def)
  from incr.inv_reachable [OF assms(5) this] have "incr_inv e k n (s', ts)" .
  moreover have "filter finished ts = ts" using assms(6) by (simp add: filter_id_conv)
  moreover have "length ts = length nows" using cstep_length [OF assms(5)] by simp
  ultimately show ?thesis by (simp add: incr_inv_def)
qed

theorem concurrent_incr_exact_witness:
  "\<exists>s'. (cstep sample_externals)\<^sup>*\<^sup>* (full_store, map (Incr ''a'') [5]) (s', [Done (RIntOpt (Some 2))]) \<and>
        incr_base (live (store_map sample_externals s') 9 ''a'') = Some 2"
proof -
  have "rbind (store_incr sample_externals full_store ''a'' 5) (\<lambda>(r, s'). Inr r) = Inr (Some 2)" by code_simp
  then obtain s' where "store_incr sample_externals full_store ''a'' 5 = Inr (Some 2, s')" by auto
  then have "crit sample_externals full_store (Incr ''a'' 5) = (s', Done (RIntOpt (Some 2)))"
    by (simp add: in_shard_store store_incr_def [symmetric])
  then have "cstep sample_externals (full_store, [Incr ''a'' 5]) (s', [Incr ''a'' 5][0 := Done (RIntOpt (Some 2))])"
    by (intro cstep.run) (auto simp: finished_def)
  then have r: "(cstep sample_externals)\<^sup>*\<^sup>* (full_store, map (Incr ''a'') [5]) (s', [Done (RIntOpt (Some 2))])"
    by simp
  have "incr_base (Some ''1'') = Some 1" by code_simp
  then have base: "\<forall>now. incr_base (live (store_map sample_externals full_store) now ''a'') = Some 1"
    by (simp add: live_def full_store_eval expired_at_def)
  have "in_int64 1" "in_int64 (1 + int (length [5::int]))" "\<forall>t\<in>set [Done (RIntOpt (Some 2))]. finished t"
    by (simp_all add: in_int64_def finished_def)
  from concurrent_incr_exact [OF store_ok_full base this(1,2) r this(3)] r show ?thesis by auto
qed

end
