(* ===== verification/Store_Adequacy.thy ===== *)
theory Store_Adequacy
  imports Store_Concurrency
begin

text \<open>
  Adequacy of the interleaving model: for every operation of the store, its critical sections run
  without interference compute exactly what the sequential operation of theory \<open>Store\<close> computes.
\<close>

section \<open>Operations\<close>

datatype store_op =
    OpSet string string int int
  | OpGet string int int
  | OpDel string
  | OpExists string int
  | OpTtl string int
  | OpExpire string int int int
  | OpIncr string int
  | OpSize
  | OpKeys string int
  | OpFlush
  | OpSweep int
  | OpForEach int

fun start_op :: "store_op \<Rightarrow> thread" where
  "start_op (OpSet k v ttl now) = start_set k v ttl now"
| "start_op (OpGet k now1 now2) = Get k now1 now2"
| "start_op (OpDel k) = Del k"
| "start_op (OpExists k now) = Exists k now"
| "start_op (OpTtl k now) = Ttl k now"
| "start_op (OpExpire k ttl now1 now2) = Expire k ttl now1 now2"
| "start_op (OpIncr k now) = Incr k now"
| "start_op OpSize = Size 0 0"
| "start_op (OpKeys p now) = Keys p now 0 []"
| "start_op OpFlush = Flush 0"
| "start_op (OpSweep now) = Sweep now 0 0"
| "start_op (OpForEach now) = ForEach now 0 []"

fun sequential :: "externals \<Rightarrow> store \<Rightarrow> store_op \<Rightarrow> (reply \<times> store) result" where
  "sequential e s (OpSet k v ttl now) = rbind (store_set e s k v ttl now) (\<lambda>s'. Inr (RUnit, s'))"
| "sequential e s (OpGet k now1 now2) = rbind (store_get e s k now1 now2) (\<lambda>(v, s'). Inr (RStr v, s'))"
| "sequential e s (OpDel k) = rbind (store_del e s k) (\<lambda>(b, s'). Inr (RBool b, s'))"
| "sequential e s (OpExists k now) = Inr (RBool (store_exists e s k now), s)"
| "sequential e s (OpTtl k now) = rbind (store_ttl e s k now) (\<lambda>ms. Inr (RInt ms, s))"
| "sequential e s (OpExpire k ttl now1 now2) = rbind (store_expire e s k ttl now1 now2) (\<lambda>(b, s'). Inr (RBool b, s'))"
| "sequential e s (OpIncr k now) = rbind (store_incr e s k now) (\<lambda>(r, s'). Inr (RIntOpt r, s'))"
| "sequential e s OpSize = Inr (RSize (store_size s), s)"
| "sequential e s (OpKeys p now) = Inr (RKeys (store_keys e s p now), s)"
| "sequential e s OpFlush = rbind (store_flush s) (\<lambda>s'. Inr (RUnit, s'))"
| "sequential e s (OpSweep now) = rbind (store_sweep_expired s now) (\<lambda>(n, s'). Inr (RSize n, s'))"
| "sequential e s (OpForEach now) = Inr (REntries (store_for_each s now), s)"

text \<open>A thread that runs alone ends as the sequential operation does.\<close>

definition ends_as :: "externals \<Rightarrow> store \<times> thread \<Rightarrow> (reply \<times> store) result \<Rightarrow> bool" where
  "ends_as e st r \<longleftrightarrow>
     (case r of
        Inr (x, s') \<Rightarrow> \<exists>n. (alone e ^^ n) st = (s', Done x)
      | Inl f \<Rightarrow> \<exists>n s'. (alone e ^^ n) st = (s', Faulted f))"

lemma ends_as_here [simp]: "ends_as e (s, Done x) (Inr (x, s))" "ends_as e (s, Faulted f) (Inl f)"
  by (auto simp: ends_as_def intro: exI [of _ 0])

lemma ends_as_steps:
  assumes "(alone e ^^ n) st = st'" and "ends_as e st' r"
  shows "ends_as e st r"
proof -
  have "(alone e ^^ m) st' = (alone e ^^ (m + n)) st" for m by (simp add: funpow_add assms(1))
  with assms(2) show ?thesis unfolding ends_as_def by (auto split: sum.splits)
qed

lemma ends_as_step: "ends_as e (alone e st) r \<Longrightarrow> ends_as e st r"
  using ends_as_steps [of 1 e st] by simp

section \<open>Operations on one shard\<close>

lemma in_shard_ends:
  assumes "alone e (s, t) = in_shard s i f (\<lambda>x. Done (c x))"
  shows "ends_as e (s, t) (rbind (rbind (f (shards s ! i)) (\<lambda>(x, sh). Inr (x, put_shard s i sh))) (\<lambda>(x, s'). Inr (c x, s')))"
  by (rule ends_as_step) (auto simp: assms in_shard_def rbind_def split: sum.splits)

lemma set_ends:
  assumes "store_ok e s"
  shows "ends_as e (s, start_set k v ttl now) (rbind (store_set e s k v ttl now) (\<lambda>s'. Inr (RUnit, s')))"
proof (cases "store_set e s k v ttl now")
  case (Inr s')
  with alone_set [OF assms Inr] show ?thesis by (simp add: ends_as_def)
next
  case (Inl f)
  obtain s1 where s1: "maybe_evict s = Inr s1" "store_ok e s1" using assms by (rule maybe_evict_ok)
  have "ends_as e (s1, SetWrite k v ttl now) (Inl f)"
  proof (rule ends_as_step)
    have "set_locked (shards s1 ! shard_for e k) k v x \<noteq> Inl f" for x
      using shard_for_ok [OF s1(2), of k] by (rule set_locked_ok [where k = k and v = v and x = x]) simp
    with Inl s1(1) show "ends_as e (alone e (s1, SetWrite k v ttl now)) (Inl f)"
      by (auto simp: store_set_def rbind_eq_Inl alone_def simp del: add64_Inr add64_Inl)
  qed
  moreover obtain n where "(alone e ^^ n) (s, start_set k v ttl now) = (s1, SetWrite k v ttl now)"
    using alone_evict [OF assms s1(1)] by blast
  ultimately show ?thesis using Inl by (simp add: ends_as_steps)
qed

lemma get_ends: "ends_as e (s, Get k now1 now2) (rbind (store_get e s k now1 now2) (\<lambda>(v, s'). Inr (RStr v, s')))"
proof (rule ends_as_step, cases "get_shared (shards s ! shard_for e k) k now1")
  case GetUpgrade
  then show "ends_as e (alone e (s, Get k now1 now2)) (rbind (store_get e s k now1 now2) (\<lambda>(v, s'). Inr (RStr v, s')))"
    using in_shard_ends [of e s "GetAgain k now2" "shard_for e k" "\<lambda>sh. get_exclusive sh k now2" RStr]
    by (simp add: alone_def store_get_def)
qed (simp add: alone_def store_get_def)

section \<open>Operations on all shards\<close>

text \<open>One pass over the shards that transforms each and folds a value.\<close>

fun fold_shards :: "('a \<Rightarrow> shard \<Rightarrow> ('a \<times> shard) result) \<Rightarrow> 'a \<Rightarrow> shard list \<Rightarrow> ('a \<times> shard list) result" where
  "fold_shards f acc [] = Inr (acc, [])"
| "fold_shards f acc (sh # rest) =
     rbind (f acc sh) (\<lambda>(acc', sh'). rbind (fold_shards f acc' rest) (\<lambda>(acc'', rest'). Inr (acc'', sh' # rest')))"

text \<open>\<open>t i acc\<close> is the thread that is about to lock shard \<open>i\<close>.\<close>

lemma shard_loop:
  assumes "\<And>s i acc. i < SHARD_COUNT \<Longrightarrow> length (shards s) = SHARD_COUNT \<Longrightarrow> alone e (s, t i acc) = in_shard s i (f acc) (t (Suc i))"
    and "i + n = SHARD_COUNT" and "length (shards s) = SHARD_COUNT"
    and "fold_shards f acc (drop i (shards s)) = Inr (acc', shs)"
  shows "(alone e ^^ n) (s, t i acc) = (s\<lparr>shards := take i (shards s) @ shs\<rparr>, t SHARD_COUNT acc')"
  using assms(2-)
proof (induction n arbitrary: s i acc shs)
  case (Suc n)
  then have i: "i < SHARD_COUNT" "i < length (shards s)" by simp_all
  from Suc.prems(3) i obtain acc1 sh1 shs1 where f: "f acc (shards s ! i) = Inr (acc1, sh1)"
    "fold_shards f acc1 (drop (Suc i) (shards s)) = Inr (acc', shs1)" "shs = sh1 # shs1"
    by (auto simp: Cons_nth_drop_Suc [symmetric])
  let ?s = "put_shard s i sh1"
  have "(alone e ^^ Suc n) (s, t i acc) = (alone e ^^ n) (?s, t (Suc i) acc1)"
    using f(1) by (simp add: funpow_swap1 assms(1) [OF i(1) Suc.prems(2)] in_shard_def)
  also have "\<dots> = (?s\<lparr>shards := take (Suc i) (shards ?s) @ shs1\<rparr>, t SHARD_COUNT acc')"
    using Suc.prems(1,2) f(2) by (intro Suc.IH) simp_all
  also have "\<dots> = (s\<lparr>shards := take i (shards s) @ shs\<rparr>, t SHARD_COUNT acc')"
    using i(2) f(3) by (simp add: put_shard_def take_Suc_conv_app_nth)
  finally show ?case .
qed simp

lemma shard_loop_ends:
  assumes "\<And>s i acc. i < SHARD_COUNT \<Longrightarrow> length (shards s) = SHARD_COUNT \<Longrightarrow> alone e (s, t i acc) = in_shard s i (f acc) (t (Suc i))"
    and "length (shards s) = SHARD_COUNT" and "fold_shards f acc (shards s) = Inr (acc', shs)"
    and "\<And>s. alone e (s, t SHARD_COUNT acc') = (s, Done r)"
  shows "ends_as e (s, t 0 acc) (Inr (r, s\<lparr>shards := shs\<rparr>))"
  using shard_loop [of e t f 0 SHARD_COUNT s acc acc' shs] assms
  by (auto intro!: ends_as_steps [of "Suc SHARD_COUNT" e "(s, t 0 acc)"])

text \<open>The read-only passes leave the shards as they are.\<close>

lemma fold_shards_read: "fold_shards (\<lambda>acc sh. Inr (g acc sh, sh)) acc shs = Inr (foldl g acc shs, shs)"
  by (induction shs arbitrary: acc) auto

lemma in_shard_read:
  "i < SHARD_COUNT \<Longrightarrow> length (shards s) = SHARD_COUNT \<Longrightarrow> in_shard s i (\<lambda>sh. Inr (g sh, sh)) next = (s, next (g (shards s ! i)))"
  by (simp add: in_shard_def put_shard_same)

lemma read_loop_ends:
  assumes "\<And>s i acc. i < SHARD_COUNT \<Longrightarrow> alone e (s, t i acc) = (s, t (Suc i) (g acc (shards s ! i)))"
    and "length (shards s) = SHARD_COUNT" and "\<And>s. alone e (s, t SHARD_COUNT (foldl g acc (shards s0))) = (s, Done r)" and "s0 = s"
  shows "ends_as e (s, t 0 acc) (Inr (r, s))"
  using shard_loop_ends [of e t "\<lambda>acc sh. Inr (g acc sh, sh)" s acc "foldl g acc (shards s)" "shards s" r] assms
  by (simp add: fold_shards_read in_shard_read)

lemma foldl_concat: "foldl (\<lambda>acc sh. acc @ g sh) acc shs = acc @ concat (map g shs)"
  by (induction shs arbitrary: acc) auto

lemma flush_fold:
  "flush_shards shs = rbind (fold_shards (\<lambda>_ sh. rbind (flush_locked sh) (\<lambda>sh'. Inr (RUnit, sh'))) RUnit shs) (\<lambda>(_, shs'). Inr shs')"
  by (induction shs) (auto simp: rbind_def split: sum.splits)

lemma sweep_fold: "sweep_shards now shs n = fold_shards (\<lambda>n sh. sweep_locked now sh n) n shs"
  by (induction shs arbitrary: n) (auto intro: rbind_cong)

lemma flush_ends:
  assumes "store_ok e s"
  shows "ends_as e (s, Flush 0) (rbind (store_flush s) (\<lambda>s'. Inr (RUnit, s')))"
proof -
  let ?f = "\<lambda>_ sh. rbind (flush_locked sh) (\<lambda>sh'. Inr (RUnit, sh'))"
  from flush_shards_ok [of "shards s"] assms obtain shs where "flush_shards (shards s) = Inr shs" by (auto simp: all_shards)
  moreover from this obtain x where "fold_shards ?f RUnit (shards s) = Inr (x, shs)" by (auto simp: flush_fold)
  ultimately show ?thesis
    using shard_loop_ends [of e "\<lambda>i _. Flush i" ?f s RUnit x shs RUnit] store_okD(1) [OF assms]
    by (simp add: alone_def store_flush_def)
qed

lemma sweep_ends:
  assumes "store_ok e s"
  shows "ends_as e (s, Sweep now 0 0) (rbind (store_sweep_expired s now) (\<lambda>(n, s'). Inr (RSize n, s')))"
proof -
  from sweep_shards_ok [of "shards s" now 0] assms obtain n shs where n: "sweep_shards now (shards s) 0 = Inr (n, shs)"
    by (auto simp: all_shards)
  then show ?thesis
    using shard_loop_ends [of e "Sweep now" "\<lambda>n sh. sweep_locked now sh n" s 0 n shs "RSize n"] store_okD(1) [OF assms]
    by (simp add: alone_def store_sweep_expired_def sweep_fold [symmetric])
qed

section \<open>Property\<close>



end
