(* ===== verification/Store_Linearizable.thy ===== *)
theory Store_Linearizable
  imports Store_Adequacy
begin

text \<open>
  Linearizability of the operations on one key. Clients invoke operations of the store at any time and
  receive their replies; the history records both. The specification executes every operation in one
  step, on a map from keys to values and deadlines, at some moment between its invocation and its reply.
  A forward simulation shows that every history of the store is a history of the specification.
\<close>

section \<open>Histories\<close>

datatype event =
    Invoke nat store_op
  | Return nat "reply result"

fun outcome_of :: "thread \<Rightarrow> reply result option" where
  "outcome_of (Done r) = Some (Inr r)"
| "outcome_of (Faulted f) = Some (Inl f)"
| "outcome_of t = None"

definition response :: "nat \<Rightarrow> thread \<Rightarrow> event list" where
  "response i t = (case outcome_of t of None \<Rightarrow> [] | Some r \<Rightarrow> [Return i r])"

text \<open>The store with its clients: a new call, or the next critical section of a call that is not finished.\<close>

inductive client_step :: "externals \<Rightarrow> store \<times> thread list \<times> event list \<Rightarrow> store \<times> thread list \<times> event list \<Rightarrow> bool"
  for e where
  invoke: "client_step e (s, ts, h) (s, ts @ [start_op op], h @ [Invoke (length ts) op])"
| advance: "i < length ts \<Longrightarrow> \<not> finished (ts ! i) \<Longrightarrow> crit e s (ts ! i) = (s', t') \<Longrightarrow>
     client_step e (s, ts, h) (s', ts[i := t'], h @ response i t')"

section \<open>Specification\<close>

text \<open>
  The effect of an operation that is executed in one step. The operations that visit the shards one
  after the other are not atomic; theory \<open>Store_Scans\<close> says what their replies mean.
\<close>

type_synonym cache = "string \<rightharpoonup> string \<times> int"

fun spec :: "store_op \<Rightarrow> cache \<Rightarrow> (reply result \<times> cache) option" where
  "spec (OpSet k v ttl now) m =
     Some (if 0 < ttl \<and> \<not> in_int64 (now + ttl) then (Inl SignedOverflow, m)
           else (Inr RUnit, m(k \<mapsto> (v, deadline ttl now))))"
| "spec (OpGet k now1 now2) m = Some (Inr (RStr (live m now1 k)), m)"
| "spec (OpDel k) m = Some (Inr (RBool (k \<in> dom m)), m(k := None))"
| "spec (OpExists k now) m = Some (Inr (RBool (live m now k \<noteq> None)), m)"
| "spec (OpTtl k now) m =
     Some (case m k of
             None \<Rightarrow> Inr (RInt (-2))
           | Some (v, x) \<Rightarrow>
               if x < 0 then Inr (RInt (-1))
               else if in_int64 (x - now) then Inr (RInt (if now < x then x - now else -2)) else Inl SignedOverflow, m)"
| "spec (OpExpire k ttl now1 now2) m =
     Some (case live m now1 k of
             None \<Rightarrow> (Inr (RBool False), m)
           | Some v \<Rightarrow> if in_int64 (now2 + ttl) then (Inr (RBool True), m(k \<mapsto> (v, now2 + ttl))) else (Inl SignedOverflow, m))"
| "spec (OpIncr k now) m =
     Some (case incr_base (live m now k) of
             None \<Rightarrow> (Inr (RIntOpt None), m)
           | Some n \<Rightarrow> if in_int64 (n + 1) then (Inr (RIntOpt (Some (n + 1))), m(k \<mapsto> (to_string (n + 1), -1)))
                     else (Inl SignedOverflow, m))"
| "spec op m = None"

text \<open>The keys that an operation in progress may remove besides its effect.\<close>

fun forgets :: "store_op \<Rightarrow> cache \<Rightarrow> string set" where
  "forgets (OpGet k now1 now2) m = (if live m now1 k = None then {k} else {})"
| "forgets OpFlush m = UNIV"
| "forgets (OpSweep now) m = {k. live m now k = None}"
| "forgets op m = {}"

text \<open>
  The progress of one call. A \<open>set\<close> first evicts at most one key; a \<open>get\<close> that found the key expired may
  go on with its second reading of the clock; then the operation takes effect and has its reply.
\<close>

datatype call =
    Pending store_op
  | Writing store_op
  | Committed "reply result"
  | Returned

inductive call_step :: "cache \<times> call \<Rightarrow> cache \<times> call \<Rightarrow> bool" where
  evict: "call_step (m, Pending (OpSet k v ttl now)) (without w m, Writing (OpSet k v ttl now))"
| reread: "call_step (m, Pending (OpGet k now1 now2)) (m, Pending (OpGet k now2 now2))"
| forget: "K \<subseteq> forgets op m \<Longrightarrow> call_step (m, Pending op) (m |` (- K), Pending op)"
| commit: "c = Pending op \<or> c = Writing op \<Longrightarrow> spec op m = Some (r, m') \<Longrightarrow> call_step (m, c) (m', Committed r)"
| scanned: "spec op m = None \<Longrightarrow> call_step (m, Pending op) (m, Committed (Inr r))"

inductive spec_step :: "cache \<times> call list \<times> event list \<Rightarrow> cache \<times> call list \<times> event list \<Rightarrow> bool" where
  spec_invoke: "spec_step (m, cs, h) (m, cs @ [Pending op], h @ [Invoke (length cs) op])"
| spec_call: "i < length cs \<Longrightarrow> call_step (m, cs ! i) (m', c) \<Longrightarrow> spec_step (m, cs, h) (m', cs[i := c], h)"
| spec_return: "i < length cs \<Longrightarrow> cs ! i = Committed r \<Longrightarrow> spec_step (m, cs, h) (m, cs[i := Returned], h @ [Return i r])"

section \<open>Critical sections implement calls\<close>

text \<open>What a thread between two of its sections is in the specification.\<close>

fun call_of :: "thread \<Rightarrow> call" where
  "call_of (SetSize k v ttl now i tot) = Pending (OpSet k v ttl now)"
| "call_of (SetScan k v ttl now i max_sz max_idx) = Pending (OpSet k v ttl now)"
| "call_of (SetEvict k v ttl now max_idx) = Pending (OpSet k v ttl now)"
| "call_of (SetWrite k v ttl now) = Writing (OpSet k v ttl now)"
| "call_of (Get k now1 now2) = Pending (OpGet k now1 now2)"
| "call_of (GetAgain k now) = Pending (OpGet k now now)"
| "call_of (Del k) = Pending (OpDel k)"
| "call_of (Exists k now) = Pending (OpExists k now)"
| "call_of (Ttl k now) = Pending (OpTtl k now)"
| "call_of (Expire k ttl now1 now2) = Pending (OpExpire k ttl now1 now2)"
| "call_of (Incr k now) = Pending (OpIncr k now)"
| "call_of (Size i tot) = Pending OpSize"
| "call_of (Keys p now i acc) = Pending (OpKeys p now)"
| "call_of (Flush i) = Pending OpFlush"
| "call_of (Sweep now i removed) = Pending (OpSweep now)"
| "call_of (ForEach now i acc) = Pending (OpForEach now)"
| "call_of (Done r) = Committed (Inr r)"
| "call_of (Faulted f) = Committed (Inl f)"

lemma call_of_start [simp]: "call_of (start_op op) = Pending op"
  by (cases op) (simp_all add: start_set_def)

lemma call_of_outcome:
  "outcome_of t = Some r \<Longrightarrow> call_of t = Committed r" "finished t \<longleftrightarrow> outcome_of t \<noteq> None"
  by (cases t; simp add: finished_def)+

lemma commits: "c = Pending op \<or> c = Writing op \<Longrightarrow> spec op m = Some (r, m') \<Longrightarrow> call_step\<^sup>*\<^sup>* (m, c) (m', Committed r)"
  by (blast intro: call_step.commit)

lemma scan_commits: "spec op m = None \<Longrightarrow> call_step\<^sup>*\<^sup>* (m, Pending op) (m, Committed (Inr r))"
  by (blast intro: call_step.scanned)

lemma store_map_put:
  assumes "store_ok e s" and "i < SHARD_COUNT"
  shows "store_map e (put_shard s i sh) = (\<lambda>k. if shard_for e k = i then contents sh k else store_map e s k)"
  using assms by (auto simp: store_map_def fun_eq_iff store_okD(1))

lemma forget_shard:
  assumes "store_ok e s" and "i < SHARD_COUNT"
    and "\<And>k. shard_for e k = i \<Longrightarrow> contents sh k = (if k \<in> K then None else store_map e s k)"
  shows "store_map e (put_shard s i sh) = store_map e s |` (- {k \<in> K. shard_for e k = i})"
  using assms by (auto simp: store_map_put fun_eq_iff restrict_map_def)

text \<open>The sections that write, one lemma each.\<close>

lemma evict_refines:
  assumes "store_ok e s" and "i < SHARD_COUNT" and "crit e s (SetEvict k v ttl now i) = (s', t')"
  shows "call_step\<^sup>*\<^sup>* (store_map e s, call_of (SetEvict k v ttl now i)) (store_map e s', call_of t')"
proof (cases "recency (shards s ! i) = []")
  case True
  then have "s' = s" "t' = SetWrite k v ttl now"
    using assms by (auto simp: in_shard_def evict_locked_empty put_shard_same store_okD(1))
  with call_step.evict [of _ k v ttl now None] show ?thesis by (simp add: without_def r_into_rtranclp)
next
  case False
  note sh = store_okD(2) [OF assms(1,2)]
  let ?w = "last (recency (shards s ! i))"
  obtain sh' where sh': "evict_locked (shards s ! i) = Inr (Some ?w, sh')" "shard_ok sh'"
    "contents sh' = (contents (shards s ! i))(?w := None)"
    using sh False by (rule evict_locked_ok)
  have "?w \<in> dom (contents (shards s ! i))" using set_recency [OF sh] last_in_set [OF False] by simp
  from put_shard_upd(2) [OF assms(1,2) store_okD(3) [OF assms(1,2) this] sh'(2,3)]
  have "store_map e s' = without (Some ?w) (store_map e s)" "t' = SetWrite k v ttl now"
    using assms(3) sh'(1) by (auto simp: in_shard_def without_def)
  with call_step.evict [of "store_map e s" k v ttl now "Some ?w"] show ?thesis by (simp add: r_into_rtranclp)
qed

lemma write_refines:
  assumes "store_ok e s" and "crit e s (SetWrite k v ttl now) = (s', t')"
  shows "call_step\<^sup>*\<^sup>* (store_map e s, call_of (SetWrite k v ttl now)) (store_map e s', call_of t')"
proof (cases "0 < ttl \<and> \<not> in_int64 (now + ttl)")
  case True
  with assms(2) have "s' = s" "t' = Faulted SignedOverflow" by (auto simp: add64_def)
  with True show ?thesis by (simp add: commits)
next
  case False
  then have x: "(if ttl > 0 then add64 now ttl else Inr (-1)) = Inr (deadline ttl now)"
    by (auto simp: deadline_def add64_def)
  obtain sh where sh: "set_locked (shards s ! shard_for e k) k v (deadline ttl now) = Inr sh" "shard_ok sh"
    "contents sh = (contents (shards s ! shard_for e k))(k \<mapsto> (v, deadline ttl now))"
    using shard_for_ok [OF assms(1)] by (rule set_locked_ok)
  from put_shard_upd(2) [OF assms(1) shard_for_lt refl sh(2,3)]
  have "store_map e s' = (store_map e s)(k \<mapsto> (v, deadline ttl now))" "t' = Done RUnit"
    using assms(2) sh(1) x by (auto simp: in_shard_def)
  with False show ?thesis by (auto simp: commits)
qed

lemma get_again_refines:
  assumes "store_ok e s" and "crit e s (GetAgain k now) = (s', t')"
  shows "call_step\<^sup>*\<^sup>* (store_map e s, call_of (GetAgain k now)) (store_map e s', call_of t')"
proof -
  let ?m = "store_map e s" and ?sh = "shards s ! shard_for e k"
  obtain sh where sh: "get_exclusive ?sh k now = Inr (live ?m now k, sh)" "shard_ok sh"
    "contents sh = (if live ?m now k = None then (contents ?sh)(k := None) else contents ?sh)"
    using shard_for_ok [OF assms(1), of k] get_exclusive_ok [of ?sh k now] by (auto simp: live_store_map)
  then have t': "t' = Done (RStr (live ?m now k))" and s': "s' = put_shard s (shard_for e k) sh"
    using assms(2) by (auto simp: in_shard_def)
  show ?thesis
  proof (cases "live ?m now k")
    case None
    have "store_map e s' = ?m(k := None)"
      using put_shard_upd(2) [OF assms(1) shard_for_lt refl sh(2), of k None] sh(3) None s' by simp
    moreover have "call_step (?m, Pending (OpGet k now now)) (?m |` (- {k}), Pending (OpGet k now now))"
      using None by (intro call_step.forget) simp
    moreover have "?m |` (- {k}) = ?m(k := None)" by (auto simp: restrict_map_def)
    moreover have "call_step\<^sup>*\<^sup>* (?m(k := None), Pending (OpGet k now now)) (?m(k := None), Committed (Inr (RStr None)))"
      by (rule commits [where op = "OpGet k now now"]) (simp_all add: live_def)
    ultimately show ?thesis using None t' by (simp add: converse_rtranclp_into_rtranclp)
  next
    case (Some v)
    have "store_map e s' = ?m" using sh(3) Some s' by (simp add: store_map_put [OF assms(1)] fun_eq_iff store_map_def)
    with t' show ?thesis by (simp add: commits)
  qed
qed

lemma forget_refines:
  assumes "store_ok e s" and "i < SHARD_COUNT"
    and "\<And>k. shard_for e k = i \<Longrightarrow> contents sh k = (if k \<in> forgets op (store_map e s) then None else store_map e s k)"
  shows "call_step\<^sup>*\<^sup>* (store_map e s, Pending op) (store_map e (put_shard s i sh), Pending op)"
proof -
  let ?K = "{k \<in> forgets op (store_map e s). shard_for e k = i}"
  have "call_step (store_map e s, Pending op) (store_map e s |` (- ?K), Pending op)" by (rule call_step.forget) auto
  with forget_shard [OF assms] show ?thesis by (simp add: r_into_rtranclp)
qed

lemma flush_refines:
  assumes "store_ok e s" and "i < SHARD_COUNT" and "crit e s (Flush i) = (s', t')"
  shows "call_step\<^sup>*\<^sup>* (store_map e s, call_of (Flush i)) (store_map e s', call_of t')"
proof -
  obtain sh where sh: "flush_locked (shards s ! i) = Inr sh" "contents sh = Map.empty"
    using store_okD(2) [OF assms(1,2)] by (rule flush_locked_ok)
  then have "s' = put_shard s i sh" "t' = Flush (Suc i)" using assms(2,3) by (auto simp: in_shard_def)
  with sh(2) forget_refines [OF assms(1,2), of sh OpFlush] show ?thesis by simp
qed

lemma sweep_refines:
  assumes "store_ok e s" and "i < SHARD_COUNT" and "crit e s (Sweep now i removed) = (s', t')"
  shows "call_step\<^sup>*\<^sup>* (store_map e s, call_of (Sweep now i removed)) (store_map e s', call_of t')"
proof -
  obtain sh where sh: "sweep_locked now (shards s ! i) removed = Inr (removed + length (smap (shards s ! i)) - length (smap sh), sh)"
    "contents sh = (\<lambda>k. case contents (shards s ! i) k of None \<Rightarrow> None
         | Some (v, x) \<Rightarrow> if expired_at x now then None else Some (v, x))"
    using store_okD(2) [OF assms(1,2)] by (rule sweep_locked_ok)
  then have "s' = put_shard s i sh" "\<exists>n. t' = Sweep now (Suc i) n" using assms(2,3) by (auto simp: in_shard_def)
  moreover have "contents sh k = (if k \<in> forgets (OpSweep now) (store_map e s) then None else store_map e s k)"
    if "shard_for e k = i" for k
    using that by (auto simp: sh(2) store_map_def live_def split: option.splits)
  ultimately show ?thesis using forget_refines [OF assms(1,2), of sh "OpSweep now"] by auto
qed

lemma expire_refines:
  assumes "store_ok e s" and "crit e s (Expire k ttl now1 now2) = (s', t')"
  shows "call_step\<^sup>*\<^sup>* (store_map e s, call_of (Expire k ttl now1 now2)) (store_map e s', call_of t')"
proof (cases "live (store_map e s) now1 k \<noteq> None \<and> \<not> in_int64 (now2 + ttl)")
  case True
  with store_expire_overflow [of e s now1 k now2 ttl] assms(2) show ?thesis
    by (auto simp: in_shard_store store_expire_def [symmetric] commits)
next
  case False
  show ?thesis
  proof (cases "live (store_map e s) now1 k")
    case None
    with store_expire_missing [OF assms(1) None] assms(2) show ?thesis
      by (auto simp: in_shard_store store_expire_def [symmetric] commits)
  next
    case (Some v)
    with False have range: "in_int64 (now2 + ttl)" by simp
    obtain s1 where "store_expire e s k ttl now1 now2 = Inr (True, s1)"
      "store_map e s1 = (store_map e s)(k \<mapsto> (v, now2 + ttl))"
      using assms(1) range by (rule store_expire_ok [where k = k and ?now1.0 = now1]) (use Some in simp)
    with Some range assms(2) show ?thesis by (auto simp: in_shard_store store_expire_def [symmetric] commits)
  qed
qed

lemma incr_refines:
  assumes "store_ok e s" and "crit e s (Incr k now) = (s', t')"
  shows "call_step\<^sup>*\<^sup>* (store_map e s, call_of (Incr k now)) (store_map e s', call_of t')"
proof (cases "incr_base (live (store_map e s) now k)")
  case None
  with store_incr_not_integer [OF assms(1) None] assms(2) show ?thesis
    by (auto simp: in_shard_store store_incr_def [symmetric] commits)
next
  case (Some n)
  show ?thesis
  proof (cases "in_int64 (n + 1)")
    case True
    obtain s1 where "store_incr e s k now = Inr (Some (n + 1), s1)"
      "store_map e s1 = (store_map e s)(k \<mapsto> (to_string (n + 1), -1))"
      using assms(1) Some True by (rule store_incr_ok)
    with Some True assms(2) show ?thesis by (auto simp: in_shard_store store_incr_def [symmetric] commits)
  next
    case False
    with store_incr_overflow [OF assms(1) Some False] Some assms(2) show ?thesis
      by (auto simp: in_shard_store store_incr_def [symmetric] commits)
  qed
qed

lemma crit_refines:
  assumes "store_ok e s" and "thread_ok t" and "crit e s t = (s', t')"
  shows "call_step\<^sup>*\<^sup>* (store_map e s, call_of t) (store_map e s', call_of t')"
proof (cases t)
  case (SetSize k v ttl now i tot)
  with assms(3) call_step.evict [of _ k v ttl now None] show ?thesis
    by (auto simp: without_def split: if_splits)
next
  case (Get k now1 now2)
  with assms(3) call_step.reread [of "store_map e s" k now1 now2] show ?thesis
    by (auto simp: get_shared_eq live_def store_map_def commits split: option.splits if_splits get_phase.splits)
next
  case (Del k)
  obtain s1 where "store_del e s k = Inr (k \<in> dom (store_map e s), s1)" "store_map e s1 = (store_map e s)(k := None)"
    using assms(1) by (rule store_del_ok)
  with Del assms(3) show ?thesis by (auto simp: in_shard_store store_del_def [symmetric] commits)
next
  case (Exists k now)
  with assms(3) show ?thesis by (auto simp: exists_shared_eq live_store_map commits)
next
  case (Ttl k now)
  with assms(3) show ?thesis
    by (auto simp: store_ttl_def [symmetric] store_ttl_eq sub64_def commits split: option.splits if_splits)
next
  case (SetEvict k v ttl now i)
  with assms evict_refines [of e s i k v ttl now s' t'] show ?thesis by simp
next
  case (SetWrite k v ttl now)
  show ?thesis using write_refines [OF assms(1) assms(3) [unfolded SetWrite]] unfolding SetWrite .
next
  case (GetAgain k now)
  show ?thesis using get_again_refines [OF assms(1) assms(3) [unfolded GetAgain]] unfolding GetAgain .
next
  case (Expire k ttl now1 now2)
  show ?thesis using expire_refines [OF assms(1) assms(3) [unfolded Expire]] unfolding Expire .
next
  case (Incr k now)
  show ?thesis using incr_refines [OF assms(1) assms(3) [unfolded Incr]] unfolding Incr .
next
  case (Flush i)
  with assms flush_refines [of e s i s' t'] show ?thesis by (cases "i < SHARD_COUNT") (auto simp: scan_commits)
next
  case (Sweep now i removed)
  with assms sweep_refines [of e s i now removed s' t'] show ?thesis
    by (cases "i < SHARD_COUNT") (auto simp: scan_commits)
qed (use assms in \<open>auto simp: scan_commits split: if_splits\<close>)

section \<open>Simulation\<close>

text \<open>A call whose reply has been handed out is over; any other is where its thread is.\<close>

definition seen_as :: "thread \<Rightarrow> call" where
  "seen_as t = (if finished t then Returned else call_of t)"

definition simulates :: "externals \<Rightarrow> store \<times> thread list \<times> event list \<Rightarrow> cache \<times> call list \<times> event list \<Rightarrow> bool" where
  "simulates e st a \<longleftrightarrow>
     (case st of (s, ts, h) \<Rightarrow> store_ok e s \<and> list_all thread_ok ts \<and> a = (store_map e s, map seen_as ts, h))"

lemma spec_calls:
  assumes "call_step\<^sup>*\<^sup>* (m, c) (m', c')" and "i < length cs" and "cs ! i = c"
  shows "spec_step\<^sup>*\<^sup>* (m, cs, h) (m', cs[i := c'], h)"
  using assms(1)
proof (induction "(m', c')" arbitrary: m' c' rule: rtranclp_induct)
  case base
  show ?case using assms(3) by (metis list_update_id rtranclp.rtrancl_refl)
next
  case (step y)
  obtain m1 c1 where y: "y = (m1, c1)" by force
  from step(2) y spec_call [of i "cs[i := c1]" m1 m' c' h] assms(2)
  have "spec_step (m1, cs[i := c1], h) (m', cs[i := c'], h)" by simp
  with step(3) [OF y] show ?case by (rule rtranclp.rtrancl_into_rtrancl)
qed

lemma thread_ok_start [simp]: "thread_ok (start_op op)" "\<not> finished (start_op op)"
  by (cases op; simp add: start_set_def finished_def)+

interpretation lin: forward_simulation "client_step e" spec_step "simulates e" for e
proof
  fix st st' a
  assume step: "client_step e st st'" and rel: "simulates e st a"
  from step show "\<exists>a'. spec_step\<^sup>*\<^sup>* a a' \<and> simulates e st' a'"
  proof cases
    case (invoke s ts h op)
    let ?a = "(store_map e s, map seen_as (ts @ [start_op op]), h @ [Invoke (length ts) op])"
    have "spec_step a ?a"
      using rel invoke(1) spec_invoke [of "store_map e s" "map seen_as ts" h op] by (simp add: simulates_def seen_as_def)
    moreover have "simulates e st' ?a" using rel invoke by (simp add: simulates_def)
    ultimately show ?thesis by blast
  next
    case (advance i ts s s' t' h)
    let ?cs = "map seen_as ts"
    have ok: "store_ok e s" "thread_ok (ts ! i)" and a: "a = (store_map e s, ?cs, h)"
      using rel advance(1,3) by (simp_all add: simulates_def list_all_length)
    have i: "i < length ?cs" "?cs ! i = call_of (ts ! i)" using advance(3,4) by (simp_all add: seen_as_def)
    have run: "spec_step\<^sup>*\<^sup>* a (store_map e s', ?cs[i := call_of t'], h)"
      unfolding a using crit_refines [OF ok advance(5)] i by (rule spec_calls)
    let ?a = "(store_map e s', map seen_as (ts[i := t']), h @ response i t')"
    have "spec_step\<^sup>*\<^sup>* a ?a"
    proof (cases "outcome_of t'")
      case None
      with run show ?thesis by (simp add: map_update seen_as_def call_of_outcome(2) response_def)
    next
      case (Some r)
      have "spec_step (store_map e s', ?cs[i := Committed r], h) (store_map e s', ?cs[i := Returned], h @ [Return i r])"
        using spec_return [of i "?cs[i := Committed r]" r "store_map e s'" h] advance(3) by simp
      with run Some show ?thesis
        by (simp add: map_update seen_as_def call_of_outcome response_def)
    qed
    moreover have "simulates e st' ?a"
      using rel crit_ok [OF ok advance(5)] by (simp add: simulates_def advance(1,2) list_all_update)
    ultimately show ?thesis by blast
  qed
qed

section \<open>Property\<close>

text \<open>
  C2: Linearizability. Start with any well-formed store, let any number of clients invoke operations at
  any time, and interleave their critical sections in any order. The history of invocations and
  replies is then one of the specification, in which each operation on a key takes effect in a single
  step between its invocation and its reply, and the store ends with the contents of the specification.
  Besides these effects a \<open>set\<close> removes at most one key, a \<open>get\<close> or a sweep only expired keys.
\<close>

theorem store_linearizable:
  assumes "store_ok e s" and "(client_step e)\<^sup>*\<^sup>* (s, [], []) (s', ts, h)"
  shows "\<exists>cs. spec_step\<^sup>*\<^sup>* (store_map e s, [], []) (store_map e s', cs, h)"
proof -
  have "simulates e (s, [], []) (store_map e s, [], [])" using assms(1) by (simp add: simulates_def)
  from lin.sim_reachable [OF assms(2) this] show ?thesis by (auto simp: simulates_def)
qed

theorem store_linearizable_witness:
  "\<exists>s' cs. spec_step\<^sup>*\<^sup>* (store_map sample_externals full_store, [], [])
      (store_map sample_externals s', cs, [Invoke 0 (OpIncr ''a'' 5), Invoke 1 OpFlush, Return 0 (Inr (RIntOpt (Some 2)))])"
proof -
  let ?e = sample_externals and ?ts = "[Incr ''a'' 5, Flush 0]" and ?h = "[Invoke 0 (OpIncr ''a'' 5), Invoke 1 OpFlush]"
  have "rbind (store_incr ?e full_store ''a'' 5) (\<lambda>(r, s'). Inr r) = Inr (Some 2)" by code_simp
  then obtain s' where "store_incr ?e full_store ''a'' 5 = Inr (Some 2, s')" by auto
  then have "crit ?e full_store (?ts ! 0) = (s', Done (RIntOpt (Some 2)))"
    by (simp add: in_shard_store store_incr_def [symmetric])
  then have "client_step ?e (full_store, ?ts, ?h)
      (s', ?ts[0 := Done (RIntOpt (Some 2))], ?h @ response 0 (Done (RIntOpt (Some 2))))"
    by (intro client_step.advance) (simp_all add: finished_def)
  moreover have "(client_step ?e)\<^sup>*\<^sup>* (full_store, [], []) (full_store, ?ts, ?h)"
    using client_step.invoke [of ?e full_store "[]" "[]" "OpIncr ''a'' 5"]
      client_step.invoke [of ?e full_store "[Incr ''a'' 5]" "[Invoke 0 (OpIncr ''a'' 5)]" OpFlush] by simp
  ultimately have "(client_step ?e)\<^sup>*\<^sup>* (full_store, [], [])
      (s', ?ts[0 := Done (RIntOpt (Some 2))], ?h @ response 0 (Done (RIntOpt (Some 2))))"
    by (rule rtranclp.rtrancl_into_rtrancl [rotated])
  from store_linearizable [OF store_ok_full this] show ?thesis by (auto simp: response_def)
qed

end
