(* ===== verification/Store_Histories.thy ===== *)
theory Store_Histories
  imports Store_Linearizable
begin

text \<open>
  What clients can conclude from linearizability. An invariant of the specification follows each value
  back to where it comes from; by the simulation it holds of the histories of the store.
\<close>

section \<open>Sources of values\<close>

text \<open>A value of a key was there at the start, is the argument of a \<open>set\<close>, or is the result of an \<open>incr\<close>.\<close>

definition written :: "cache \<Rightarrow> event list \<Rightarrow> string \<Rightarrow> string \<Rightarrow> bool" where
  "written m h k v \<longleftrightarrow>
     (\<exists>x. m k = Some (v, x)) \<or> (\<exists>j ttl now. Invoke j (OpSet k v ttl now) \<in> set h) \<or>
     (\<exists>j now n. Invoke j (OpIncr k now) \<in> set h \<and> v = to_string n)"

lemma written_mono: "written m h k v \<Longrightarrow> set h \<subseteq> set h' \<Longrightarrow> written m h' k v"
  unfolding written_def by blast

text \<open>The operation that was invoked and the one in progress differ in the clock readings of a \<open>get\<close> at most.\<close>

definition same_call :: "store_op \<Rightarrow> store_op \<Rightarrow> bool" where
  "same_call op op' \<longleftrightarrow> op' = op \<or> (\<exists>k a b c d. op = OpGet k a b \<and> op' = OpGet k c d)"

definition reads_written :: "(string \<Rightarrow> string \<Rightarrow> bool) \<Rightarrow> store_op \<Rightarrow> reply result \<Rightarrow> bool" where
  "reads_written W op r \<longleftrightarrow> (\<forall>k a b v. op = OpGet k a b \<longrightarrow> r = Inr (RStr (Some v)) \<longrightarrow> W k v)"

fun call_fits :: "(string \<Rightarrow> string \<Rightarrow> bool) \<Rightarrow> store_op \<Rightarrow> call \<Rightarrow> bool" where
  "call_fits W op (Pending op') \<longleftrightarrow> same_call op op'"
| "call_fits W op (Writing op') \<longleftrightarrow> same_call op op'"
| "call_fits W op (Committed r) \<longleftrightarrow> reads_written W op r"
| "call_fits W op Returned \<longleftrightarrow> True"

lemma call_fits_mono: "call_fits W op c \<Longrightarrow> (\<And>k v. W k v \<Longrightarrow> W' k v) \<Longrightarrow> call_fits W' op c"
  by (cases c) (auto simp: reads_written_def)

text \<open>One step of a call whose operation is in the history.\<close>

lemma call_step_sourced:
  assumes "call_step (m, c) (m', c')" and "\<And>k v x. m k = Some (v, x) \<Longrightarrow> written m0 h k v"
    and "Invoke i op \<in> set h" and "call_fits (written m0 h) op c"
  shows "(\<forall>k v x. m' k = Some (v, x) \<longrightarrow> written m0 h k v) \<and> call_fits (written m0 h) op c'"
  using assms(1)
proof cases
  case (commit op' r)
  then have op': "same_call op op'" using assms(4) by auto
  have m': "\<forall>k v x. m' k = Some (v, x) \<longrightarrow> written m0 h k v"
  proof (intro allI impI)
    fix k v x assume k: "m' k = Some (v, x)"
    show "written m0 h k v"
    proof (cases "m' k = m k")
      case False
      with commit(3) k have "(\<exists>ttl now. op' = OpSet k v ttl now) \<or> (\<exists>now n. op' = OpIncr k now \<and> v = to_string n) \<or> (\<exists>y. m k = Some (v, y))"
        by (cases op') (auto simp: live_def split: if_splits option.splits)
      with op' assms(2,3) show ?thesis by (elim disjE) (auto simp: same_call_def, auto simp: written_def)
    qed (use k assms(2) in metis)
  qed
  moreover have "reads_written (written m0 h) op r"
    using op' commit(3) assms(2) by (fastforce simp: reads_written_def same_call_def live_def split: option.splits if_splits)
  ultimately show ?thesis using commit(1) by simp
next
  case (scanned op' r)
  then show ?thesis using assms(2,4) by (auto simp: reads_written_def same_call_def)
qed (use assms(2,4) in \<open>auto simp: same_call_def without_def restrict_map_def split: if_splits option.splits\<close>)

definition sourced :: "cache \<Rightarrow> cache \<times> call list \<times> event list \<Rightarrow> bool" where
  "sourced m0 a \<longleftrightarrow>
     (case a of (m, cs, h) \<Rightarrow>
        (\<forall>k v x. m k = Some (v, x) \<longrightarrow> written m0 h k v) \<and>
        (\<forall>i<length cs. \<exists>op. Invoke i op \<in> set h) \<and>
        (\<forall>i op. Invoke i op \<in> set h \<longrightarrow> i < length cs \<and> call_fits (written m0 h) op (cs ! i)) \<and>
        (\<forall>i r. Return i r \<in> set h \<longrightarrow> i < length cs \<and> (\<forall>op. Invoke i op \<in> set h \<longrightarrow> reads_written (written m0 h) op r)))"

text \<open>More history only adds sources.\<close>

lemma sourced_values: "sourced m0 (m, cs, h) \<Longrightarrow> set h \<subseteq> set h' \<Longrightarrow> m k = Some (v, x) \<Longrightarrow> written m0 h' k v"
  unfolding sourced_def by (blast intro: written_mono)

lemma sourced_calls:
  "sourced m0 (m, cs, h) \<Longrightarrow> set h \<subseteq> set h' \<Longrightarrow> Invoke i op \<in> set h \<Longrightarrow> i < length cs \<and> call_fits (written m0 h') op (cs ! i)"
  unfolding sourced_def by (blast intro: call_fits_mono written_mono)

lemma sourced_replies:
  "sourced m0 (m, cs, h) \<Longrightarrow> set h \<subseteq> set h' \<Longrightarrow> Return i r \<in> set h \<Longrightarrow> Invoke i op \<in> set h \<Longrightarrow> reads_written (written m0 h') op r"
  unfolding sourced_def reads_written_def by (blast intro: written_mono)

interpretation src: step_invariant spec_step "sourced m0" for m0
proof
  fix a a'
  assume step: "spec_step a a'" and inv: "sourced m0 a"
  from step show "sourced m0 a'"
  proof cases
    case (spec_invoke m cs h op)
    let ?h = "h @ [Invoke (length cs) op]"
    note I = inv [unfolded spec_invoke(1)]
    have "same_call op op" and more: "set h \<subseteq> set ?h" by (auto simp: same_call_def)
    with I sourced_values [OF I more] sourced_calls [OF I more] sourced_replies [OF I more] show ?thesis
      unfolding spec_invoke(2) sourced_def
      by (auto simp: nth_append less_Suc_eq sourced_def)
  next
    case (spec_call i cs m m' c h)
    note I = inv [unfolded spec_call(1)]
    obtain op where op: "Invoke i op \<in> set h" using I spec_call(3) by (auto simp: sourced_def)
    have step: "(\<forall>k v x. m' k = Some (v, x) \<longrightarrow> written m0 h k v) \<and> call_fits (written m0 h) op' c"
      if "Invoke i op' \<in> set h" for op'
      using spec_call(4) sourced_values [OF I subset_refl] that conjunct2 [OF sourced_calls [OF I subset_refl that]]
      by (rule call_step_sourced)
    with I op show ?thesis
      unfolding spec_call(2) sourced_def by (auto simp: nth_list_update)
  next
    case (spec_return i cs r m h)
    let ?h = "h @ [Return i r]"
    note I = inv [unfolded spec_return(1)]
    have more: "set h \<subseteq> set ?h" by auto
    have "reads_written (written m0 ?h) op r" if "Invoke i op \<in> set h" for op
      using sourced_calls [OF I more that] spec_return(4) by auto
    with I sourced_values [OF I more] sourced_calls [OF I more] sourced_replies [OF I more] spec_return(3) show ?thesis
      unfolding spec_return(2) sourced_def
      by (auto simp: nth_list_update sourced_def)
  qed
qed

section \<open>Property\<close>



end
