(* ===== verification/Store_Scans.thy ===== *)
theory Store_Scans
  imports Store_Concurrency
begin

text \<open>
  Operations that visit the shards one after the other while other threads run: \<open>keys\<close> and \<open>for_each\<close>, the
  source of snapshots. Their result is no state of the store, but it is not arbitrary: what holds during
  the whole scan is listed, what is listed held at some moment of the scan, and no key is listed twice.
  A run is the list of the configurations it passes through.
\<close>

section \<open>Scans\<close>

locale shard_scan =
  fixes e :: externals
    and visiting :: "nat \<Rightarrow> 'a list \<Rightarrow> thread"
    and finishing :: "'a list \<Rightarrow> thread"
    and listing :: "shard \<Rightarrow> 'a list"
    and holds :: "store \<Rightarrow> 'a \<Rightarrow> bool"
    and key :: "'a \<Rightarrow> string"
  assumes visit: "i < SHARD_COUNT \<Longrightarrow> crit e s (visiting i acc) = (s, visiting (Suc i) (acc @ listing (shards s ! i)))"
    and visited: "crit e s (visiting SHARD_COUNT acc) = (s, finishing acc)"
    and result_inj: "finishing acc = finishing acc' \<Longrightarrow> acc = acc'"
    and over: "finished (finishing acc)" "\<not> finished (visiting i acc)"
    and listed: "store_ok e s \<Longrightarrow> i < SHARD_COUNT \<Longrightarrow>
           set (listing (shards s ! i)) = {x. holds s x \<and> shard_for e (key x) = i}"
    and listed_once: "store_ok e s \<Longrightarrow> i < SHARD_COUNT \<Longrightarrow> distinct (map key (listing (shards s ! i)))"
begin

text \<open>What has been collected after the first \<open>n\<close> shards.\<close>

definition collected :: "(store \<times> thread list) list \<Rightarrow> nat \<Rightarrow> 'a list \<Rightarrow> bool" where
  "collected run n acc \<longleftrightarrow>
     distinct (map key acc) \<and>
     (\<forall>x\<in>set acc. shard_for e (key x) < n \<and> (\<exists>st\<in>set run. holds (fst st) x)) \<and>
     (\<forall>x. shard_for e (key x) < n \<longrightarrow> (\<forall>st\<in>set run. holds (fst st) x) \<longrightarrow> x \<in> set acc)"

definition progress :: "(store \<times> thread list) list \<Rightarrow> thread \<Rightarrow> bool" where
  "progress run t \<longleftrightarrow>
     (\<exists>n acc. n \<le> SHARD_COUNT \<and> t = visiting n acc \<and> collected run n acc) \<or>
     (\<exists>acc. t = finishing acc \<and> collected run SHARD_COUNT acc)"

lemma collected_longer: "collected run n acc \<Longrightarrow> collected (run @ [st]) n acc"
  by (auto simp: collected_def)

lemma progress_longer: "progress run t \<Longrightarrow> progress (run @ [st]) t"
  unfolding progress_def by (blast intro: collected_longer)

lemma collected_start: "collected run 0 []"
  by (simp add: collected_def)

lemma collected_visit:
  assumes "collected run n acc" and "n < SHARD_COUNT" and "store_ok e s" and "(s, ts) \<in> set run"
  shows "collected run (Suc n) (acc @ listing (shards s ! n))"
proof -
  have "key x \<noteq> key y" if "x \<in> set acc" "y \<in> set (listing (shards s ! n))" for x y
    using that assms(1) listed [OF assms(3,2)] by (force simp: collected_def)
  then have "set (map key acc) \<inter> set (map key (listing (shards s ! n))) = {}" by auto
  with assms listed [OF assms(3,2)] listed_once [OF assms(3,2)] show ?thesis
    by (force simp: collected_def less_Suc_eq)
qed

lemma progress_step:
  assumes "progress run t" and "store_ok e s" and "(s, ts) \<in> set run" and "\<not> finished t" and "crit e s t = (s', t')"
  shows "progress run t'"
proof -
  from assms(1,4) obtain n acc where n: "n \<le> SHARD_COUNT" "t = visiting n acc" "collected run n acc"
    using over(1) by (auto simp: progress_def)
  show ?thesis
  proof (cases "n < SHARD_COUNT")
    case True
    with n assms collected_visit [OF n(3) True assms(2,3)] show ?thesis
      by (auto simp: progress_def visit Suc_le_eq)
  next
    case False
    with n have "n = SHARD_COUNT" by simp
    with n assms(5) show ?thesis by (auto simp: progress_def visited)
  qed
qed

lemma progress_run:
  assumes "successively (cstep e) ((s, ts) # run)" and "conc_ok e (s, ts)" and "i < length ts" and "ts ! i = visiting 0 []"
  shows "(case last ((s, ts) # run) of (s', ts') \<Rightarrow>
            conc_ok e (s', ts') \<and> i < length ts' \<and> progress ((s, ts) # run) (ts' ! i))"
  using assms(1)
proof (induction run rule: rev_induct)
  case Nil
  show ?case using assms(2-4) collected_start by (auto simp: progress_def)
next
  case (snoc st run)
  let ?run = "(s, ts) # run"
  obtain s1 ts1 where l: "last ?run = (s1, ts1)" by force
  have step: "cstep e (s1, ts1) st" and "successively (cstep e) ?run"
    using snoc.prems l successively_append_iff [of "cstep e" ?run "[st]"] by simp_all
  with snoc.IH l have ok: "conc_ok e (s1, ts1)" and i: "i < length ts1" and p: "progress ?run (ts1 ! i)" by simp_all
  have in_run: "(s1, ts1) \<in> set ?run" using last_in_set [of ?run] l by simp
  from step obtain j s' t' where st: "st = (s', ts1[j := t'])" "j < length ts1" "\<not> finished (ts1 ! j)" "crit e s1 (ts1 ! j) = (s', t')"
    by (rule cstepE) blast
  have "progress ?run (ts1[j := t'] ! i)"
    using p progress_step [OF p _ in_run] ok st i by (cases "j = i") (auto simp: conc_ok_def)
  then have "progress (?run @ [st]) (ts1[j := t'] ! i)" by (rule progress_longer)
  with conc.inv_step [OF step ok] st i show ?case by simp
qed

lemma scan_result:
  assumes "successively (cstep e) ((s, ts) # run)" and "conc_ok e (s, ts)" and "i < length ts" and "ts ! i = visiting 0 []"
    and "snd (last ((s, ts) # run)) ! i = finishing acc"
  shows "distinct (map key acc)"
    and "\<forall>x\<in>set acc. \<exists>st\<in>set ((s, ts) # run). holds (fst st) x"
    and "\<forall>x. (\<forall>st\<in>set ((s, ts) # run). holds (fst st) x) \<longrightarrow> x \<in> set acc"
proof -
  obtain s' ts' where l: "last ((s, ts) # run) = (s', ts')" by force
  with progress_run [OF assms(1-4)] have "progress ((s, ts) # run) (ts' ! i)" by simp
  with assms(5) l over have "collected ((s, ts) # run) SHARD_COUNT acc"
    by (metis progress_def result_inj snd_conv)
  then show "distinct (map key acc)"
    and "\<forall>x\<in>set acc. \<exists>st\<in>set ((s, ts) # run). holds (fst st) x"
    and "\<forall>x. (\<forall>st\<in>set ((s, ts) # run). holds (fst st) x) \<longrightarrow> x \<in> set acc"
    by (auto simp: collected_def)
qed

end

text \<open>The two scans of the store.\<close>

definition lists_key :: "externals \<Rightarrow> string \<Rightarrow> int \<Rightarrow> store \<Rightarrow> string \<Rightarrow> bool" where
  "lists_key e p now s k \<longleftrightarrow> live (store_map e s) now k \<noteq> None \<and> (p = ''*'' \<or> fnmatch_fn e (c_str p) (c_str k))"

definition has_entry :: "externals \<Rightarrow> int \<Rightarrow> store \<Rightarrow> string \<times> string \<times> int \<Rightarrow> bool" where
  "has_entry e now s ent \<longleftrightarrow> (case ent of (k, v, x) \<Rightarrow> store_map e s k = Some (v, x) \<and> \<not> expired_at x now)"

lemma live_in_shard: "store_ok e s \<Longrightarrow> i < SHARD_COUNT \<Longrightarrow>
  live (contents (shards s ! i)) now k \<noteq> None \<longleftrightarrow> shard_for e k = i \<and> live (store_map e s) now k \<noteq> None"
  using store_okD(3) [of e s i k] by (auto simp: live_def store_map_def domIff split: option.splits)

interpretation keys_scan: shard_scan e "Keys p now" "\<lambda>ks. Done (RKeys ks)" "\<lambda>sh. keys_shared e sh p now" "lists_key e p now" "\<lambda>k. k"
  for e p now
proof
  fix s i
  assume ok: "store_ok e s" and i: "i < SHARD_COUNT"
  note sh = store_okD(2) [OF ok i]
  show "set (keys_shared e (shards s ! i) p now) = {k. lists_key e p now s k \<and> shard_for e k = i}"
    using keys_shared_set(1) [OF sh] live_in_shard [OF ok i] by (auto simp: lists_key_def)
  show "distinct (map (\<lambda>k. k) (keys_shared e (shards s ! i) p now))" using keys_shared_set(2) [OF sh] by simp
qed (simp_all add: finished_def)

interpretation entries_scan: shard_scan e "ForEach now" "\<lambda>es. Done (REntries es)" "\<lambda>sh. for_each_shared sh now" "has_entry e now" fst
  for e now
proof
  fix s i
  assume ok: "store_ok e s" and i: "i < SHARD_COUNT"
  note sh = store_okD(2) [OF ok i]
  show "set (for_each_shared (shards s ! i) now) = {x. has_entry e now s x \<and> shard_for e (fst x) = i}"
    using for_each_shared_set(1) [OF sh] store_okD(3) [OF ok i] by (fastforce simp: has_entry_def store_map_def)
  show "distinct (map fst (for_each_shared (shards s ! i) now))" using for_each_shared_set(2) [OF sh] .
qed (simp_all add: finished_def)

section \<open>Schedules\<close>

text \<open>Runs can be computed from the order in which threads are scheduled.\<close>

fun schedule :: "externals \<Rightarrow> nat list \<Rightarrow> store \<times> thread list \<Rightarrow> (store \<times> thread list) list" where
  "schedule e [] st = []"
| "schedule e (i # is) (s, ts) =
     (if i < length ts \<and> \<not> finished (ts ! i)
      then (case crit e s (ts ! i) of (s', t') \<Rightarrow> (s', ts[i := t']) # schedule e is (s', ts[i := t']))
      else [])"

lemma schedule_run: "successively (cstep e) (st # schedule e is st)"
  by (induction e "is" st rule: schedule.induct) (auto split: prod.splits intro: cstep.run)

section \<open>Properties\<close>

text \<open>
  Snapshots under concurrent writes. Let \<open>for_each\<close>, which feeds the snapshot writer, run while other
  threads work on the store. It lists no key twice; every entry it lists was a live entry of the store at some
  moment of the scan; and every live entry that stays unchanged during the scan is listed.
\<close>

theorem snapshot_weakly_consistent:
  assumes "store_ok e s" and "\<forall>t\<in>set ts. thread_ok t" and "successively (cstep e) ((s, ts) # run)"
    and "i < length ts" and "ts ! i = ForEach now 0 []" and "snd (last ((s, ts) # run)) ! i = Done (REntries es)"
  shows "distinct (map fst es) \<and>
         (\<forall>x\<in>set es. \<exists>st\<in>set ((s, ts) # run). has_entry e now (fst st) x) \<and>
         (\<forall>x. (\<forall>st\<in>set ((s, ts) # run). has_entry e now (fst st) x) \<longrightarrow> x \<in> set es)"
proof -
  have "conc_ok e (s, ts)" using assms(1,2) by (simp add: conc_ok_def list_all_iff)
  from entries_scan.scan_result [OF assms(3) this assms(4-6)] show ?thesis by blast
qed

text \<open>
  C30: Listing under concurrent writes. The same for \<open>keys\<close>: no key twice, only keys that were live and
  matched at some moment of the scan, and all that are live and match throughout.
\<close>

theorem keys_weakly_consistent:
  assumes "store_ok e s" and "\<forall>t\<in>set ts. thread_ok t" and "successively (cstep e) ((s, ts) # run)"
    and "i < length ts" and "ts ! i = Keys p now 0 []" and "snd (last ((s, ts) # run)) ! i = Done (RKeys ks)"
  shows "distinct ks \<and>
         (\<forall>k\<in>set ks. \<exists>st\<in>set ((s, ts) # run). lists_key e p now (fst st) k) \<and>
         (\<forall>k. (\<forall>st\<in>set ((s, ts) # run). lists_key e p now (fst st) k) \<longrightarrow> k \<in> set ks)"
proof -
  have "conc_ok e (s, ts)" using assms(1,2) by (simp add: conc_ok_def list_all_iff)
  from keys_scan.scan_result [OF assms(3) this assms(4-6)] show ?thesis by simp
qed

text \<open>A snapshot in which the later of two writes is found and the earlier is not.\<close>

definition racing :: "thread list" where
  "racing = [ForEach 0 0 [], start_set ''a'' ''1'' (-1) 0, start_set ''bb'' ''2'' (-1) 0]"

definition race :: "(store \<times> thread list) list" where
  "race = schedule sample_externals ([0, 0] @ replicate 18 1 @ replicate 18 2 @ replicate 15 0) (store_init 9, racing)"

lemma race_run: "successively (cstep sample_externals) ((store_init 9, racing) # race)"
  unfolding race_def by (rule schedule_run)

lemma race_result: "snd (last ((store_init 9, racing) # race)) ! 0 = Done (REntries [(''bb'', ''2'', -1)])"
  by code_simp

lemma race_order:
  "list_all (\<lambda>st. has_entry sample_externals 0 (fst st) (''bb'', ''2'', -1) \<longrightarrow>
     has_entry sample_externals 0 (fst st) (''a'', ''1'', -1)) ((store_init 9, racing) # race)"
  by code_simp

lemma snapshot_mixes_states:
  "\<exists>run es. successively (cstep sample_externals) ((store_init 9, racing) # run) \<and>
     snd (last ((store_init 9, racing) # run)) ! 0 = Done (REntries es) \<and>
     (\<forall>st\<in>set ((store_init 9, racing) # run). set es \<noteq> {x. has_entry sample_externals 0 (fst st) x})"
proof (intro exI conjI ballI)
  fix st
  assume "st \<in> set ((store_init 9, racing) # race)"
  then have "has_entry sample_externals 0 (fst st) (''bb'', ''2'', -1) \<longrightarrow> has_entry sample_externals 0 (fst st) (''a'', ''1'', -1)"
    using race_order unfolding list_all_iff by blast
  moreover have "(''bb'', ''2'', -1::int) \<in> set [(''bb'', ''2'', -1)]" "(''a'', ''1'', -1::int) \<notin> set [(''bb'', ''2'', -1)]"
    by simp_all
  ultimately show "set [(''bb'', ''2'', -1)] \<noteq> {x. has_entry sample_externals 0 (fst st) x}" by blast
qed (rule race_run race_result)+

theorem snapshot_weakly_consistent_witness:
  "\<exists>st\<in>set ((store_init 9, racing) # race). has_entry sample_externals 0 (fst st) (''bb'', ''2'', -1)"
proof -
  have "\<forall>t\<in>set racing. thread_ok t" "0 < length racing" "racing ! 0 = ForEach 0 0 []"
    by (simp_all add: racing_def start_set_def)
  from snapshot_weakly_consistent [OF store_ok_init this(1) race_run this(2,3) race_result]
  show ?thesis by (meson list.set_intros(1))
qed

theorem keys_weakly_consistent_witness:
  "\<exists>ks. snd (last ((full_store, [Keys ''*'' 0 0 []]) # schedule sample_externals (replicate 17 0) (full_store, [Keys ''*'' 0 0 []]))) ! 0
           = Done (RKeys ks) \<and> distinct ks \<and> length ks = 2"
proof -
  let ?ts = "[Keys ''*'' 0 0 []]"
  let ?run = "schedule sample_externals (replicate 17 0) (full_store, ?ts)"
  have "(case snd (last ((full_store, ?ts) # ?run)) ! 0 of Done (RKeys ks) \<Rightarrow> length ks = 2 | _ \<Rightarrow> False)" by code_simp
  then obtain ks where ks: "snd (last ((full_store, ?ts) # ?run)) ! 0 = Done (RKeys ks)" "length ks = 2"
    by (auto split: thread.splits reply.splits)
  have "\<forall>t\<in>set ?ts. thread_ok t" "0 < length ?ts" "?ts ! 0 = Keys ''*'' 0 0 []" by simp_all
  from keys_weakly_consistent [OF store_ok_full this(1) schedule_run this(2,3) ks(1)] ks show ?thesis by blast
qed

section \<open>A race on the capacity\<close>

text \<open>
  The test of the size and the write of \<open>set\<close> are separate critical sections. Two threads that both pass
  the test before either writes leave the store above its capacity.
\<close>

definition crowd :: "(store \<times> thread list) list" where
  "crowd = schedule sample_externals (replicate 17 0 @ replicate 17 1 @ [0, 1])
     (store_init 1, [start_set ''a'' ''1'' (-1) 0, start_set ''bb'' ''2'' (-1) 0])"

lemma concurrent_sets_exceed_capacity:
  "\<exists>s. (cstep sample_externals)\<^sup>*\<^sup>* (store_init 1, [start_set ''a'' ''1'' (-1) 0, start_set ''bb'' ''2'' (-1) 0])
         (s, [Done RUnit, Done RUnit]) \<and> max_keys s = 1 \<and> store_size s = 2"
proof -
  have run: "(cstep e)\<^sup>*\<^sup>* st (last (st # sts))" if "successively (cstep e) (st # sts)" for e st sts
    using that by (induction sts arbitrary: st) (auto intro: converse_rtranclp_into_rtranclp)
  let ?st = "(store_init 1, [start_set ''a'' ''1'' (-1) 0, start_set ''bb'' ''2'' (-1) 0])"
  have "(case last (?st # crowd) of (s, ts) \<Rightarrow> ts = [Done RUnit, Done RUnit] \<and> max_keys s = 1 \<and> store_size s = 2)"
    by code_simp
  then obtain s where "last (?st # crowd) = (s, [Done RUnit, Done RUnit])" "max_keys s = 1" "store_size s = 2"
    by (auto split: prod.splits)
  with run [OF schedule_run, of sample_externals ?st "replicate 17 0 @ replicate 17 1 @ [0, 1]"] show ?thesis
    unfolding crowd_def by auto
qed

end
