(* ===== verification/Snapshot_Concurrency.thy ===== *)
theory Snapshot_Concurrency
  imports Rdb_Correct Store_Scans
begin

text \<open>
  Snapshots that are written by the maintenance thread while clients use the store: the scan of theory
  \<open>Store_Scans\<close>, the file format and the loader of \<open>Rdb\<close> together.
\<close>

text \<open>
  C8: Restart from a snapshot taken under load. The maintenance thread saves while other threads work on
  the store, in any interleaving; later the file is loaded into a fresh store of sufficient capacity. The load
  succeeds, every key of the restored store has a value that the original store held under this key at
  some moment of the save, and every entry that stayed unchanged during the save and has not
  expired is restored, its deadline late by at most the time the load takes.
\<close>

theorem concurrent_snapshot_restores:
  assumes "store_ok e s" and "\<forall>t\<in>set ts. thread_ok t" and "successively (cstep e) ((s, ts) # run)"
    and "i < length ts" and "ts ! i = ForEach t 0 []" and "snd (last ((s, ts) # run)) ! i = Done (REntries es)"
    and "open_ok io" and "write_fails_at io = None" and "rename_ok io"
    and "\<forall>(k, v, x)\<in>set es. length k < 2 ^ 32 - 1 \<and> length v < 2 ^ 32 \<and> in_int64 x \<and> x + d < 2 ^ 63"
    and "length es \<le> n" and "0 \<le> now" and "\<forall>j. now \<le> clk j \<and> clk j \<le> now + d"
  shows "\<exists>fs' count s'. write_snapshot path io (rdb_file es) fs = (True, fs') \<and>
           rdb_load e clk now path fs' (store_init n) = Inr (count, s') \<and> store_ok e s' \<and>
           (\<forall>k v y. store_map e s' k = Some (v, y) \<longrightarrow>
              (\<exists>st\<in>set ((s, ts) # run). \<exists>x. has_entry e t (fst st) (k, v, x))) \<and>
           (\<forall>k v x. (\<forall>st\<in>set ((s, ts) # run). has_entry e t (fst st) (k, v, x)) \<longrightarrow>
              restored now d (v, x) (store_map e s' k))"
proof -
  have "conc_ok e (s, ts)" using assms(1,2) by (simp add: conc_ok_def list_all_iff)
  note scan = entries_scan.scan_result [OF assms(3) this assms(4-6)]
  obtain fs' where fs': "write_snapshot path io (rdb_file es) fs = (True, fs')" "fs' path = Some (rdb_file es)"
    using assms(7-9) by (simp add: write_snapshot_def)
  obtain count s' where l: "rdb_load e clk now path fs' (store_init n) = Inr (count, s')" "store_ok e s'"
    "\<forall>k. case map_of es k of None \<Rightarrow> store_map e s' k = None | Some r \<Rightarrow> restored now d r (store_map e s' k)"
    using scan(1) assms(10-13) fs'(2) by (rule load_file)
  have "\<exists>st\<in>set ((s, ts) # run). \<exists>x. has_entry e t (fst st) (k, v, x)" if "store_map e s' k = Some (v, y)" for k v y
  proof -
    from that spec [OF l(3), of k] obtain x where "map_of es k = Some (v, x)"
      by (auto simp: restored_def split: option.splits if_splits)
    then have "(k, v, x) \<in> set es" by (rule map_of_SomeD)
    with scan(2) show ?thesis by blast
  qed
  moreover have "restored now d (v, x) (store_map e s' k)"
    if "\<forall>st\<in>set ((s, ts) # run). has_entry e t (fst st) (k, v, x)" for k v x
  proof -
    from scan(3) that have "(k, v, x) \<in> set es" by blast
    with scan(1) have "map_of es k = Some (v, x)" by simp
    with spec [OF l(3), of k] show ?thesis by simp
  qed
  ultimately show ?thesis using fs'(1) l(1,2) by blast
qed

theorem concurrent_snapshot_restores_witness:
  "\<exists>fs' count s'. write_snapshot ''dump'' \<lparr>open_ok = True, write_fails_at = None, rename_ok = True\<rparr>
       (rdb_file [(''bb'', ''2'', -1)]) Map.empty = (True, fs') \<and>
     rdb_load sample_externals (\<lambda>_. 105) 100 ''dump'' fs' (store_init 9) = Inr (count, s') \<and>
     store_ok sample_externals s'"
proof -
  have "\<forall>t\<in>set racing. thread_ok t" "0 < length racing" "racing ! 0 = ForEach 0 0 []"
    by (simp_all add: racing_def start_set_def)
  moreover have "\<forall>(k, v, x)\<in>set [(''bb'', ''2'', -1)]. length k < 2 ^ 32 - 1 \<and> length v < 2 ^ 32 \<and> in_int64 x \<and> x + 5 < 2 ^ 63"
    by (simp add: in_int64_def)
  ultimately show ?thesis
    using concurrent_snapshot_restores [OF store_ok_init _ race_run _ _ race_result, where d = 5 and n = 9 and now = 100
        and clk = "\<lambda>_. 105" and path = "''dump''" and fs = Map.empty and
        io = "\<lparr>open_ok = True, write_fails_at = None, rename_ok = True\<rparr>"] by simp blast
qed

end
