(* ===== verification/Time_Utils.thy ===== *)
theory Time_Utils
  imports Store_Interface "HOL-Library.Signed_Division"
begin

text \<open>
  The clocks (\<open>src/src/util/TimeUtils.hpp\<close>). A clock of the standard library counts ticks since its epoch;
  how many ticks make a millisecond or a microsecond is up to the implementation and a parameter.
  \<open>duration_cast\<close> divides and truncates. The second part says what this means for the lifetime of keys.
\<close>

section \<open>Clock readings\<close>

definition now_ms :: "int \<Rightarrow> int \<Rightarrow> int" where
  "now_ms ticks_per_ms system_ticks = system_ticks sdiv ticks_per_ms"

definition now_us :: "int \<Rightarrow> int \<Rightarrow> int" where
  "now_us ticks_per_us steady_ticks = steady_ticks sdiv ticks_per_us"

lemma now_ms_div: "0 < p \<Longrightarrow> 0 \<le> t \<Longrightarrow> now_ms p t = t div p"
  by (simp add: now_ms_def signed_divide_int_def sgn_if)

lemma now_us_div: "0 < p \<Longrightarrow> 0 \<le> t \<Longrightarrow> now_us p t = t div p"
  by (simp add: now_us_def signed_divide_int_def sgn_if)

text \<open>After at least \<open>n\<close> milliseconds the reading has grown by at least \<open>n\<close>, after at most \<open>n\<close> by at most \<open>n\<close>.\<close>

lemma now_ms_advance:
  assumes "0 < p" and "0 \<le> t0" and "t0 \<le> t1"
  shows "n * p \<le> t1 - t0 \<Longrightarrow> now_ms p t0 + n \<le> now_ms p t1"
    and "t1 - t0 \<le> n * p \<Longrightarrow> now_ms p t1 \<le> now_ms p t0 + n"
proof -
  have "(t0 + n * p) div p = t0 div p + n" using assms(1) by simp
  with assms show "n * p \<le> t1 - t0 \<Longrightarrow> now_ms p t0 + n \<le> now_ms p t1"
    and "t1 - t0 \<le> n * p \<Longrightarrow> now_ms p t1 \<le> now_ms p t0 + n"
    using zdiv_mono1 [of "t0 + n * p" t1 p] zdiv_mono1 [of t1 "t0 + n * p" p] by (simp_all add: now_ms_div)
qed

text \<open>The latency of a command is never negative, because the steady clock never goes back.\<close>

lemma now_us_mono: "0 < p \<Longrightarrow> 0 \<le> t0 \<Longrightarrow> t0 \<le> t1 \<Longrightarrow> now_us p t0 \<le> now_us p t1"
  by (simp add: now_us_div zdiv_mono1)

section \<open>Property\<close>

text \<open>
  C31: Lifetime of a key in clock time. A key is set with a time to live of \<open>ttl\<close> milliseconds when the system clock
  shows \<open>t0\<close> ticks, and read when it shows \<open>t1\<close> (and \<open>t2\<close>, if it is read again). If \<open>ttl\<close> milliseconds or more have passed, the key is
  gone; if no more than \<open>ttl - 1\<close> have passed, it still has its value. Truncation never prolongs a life.
\<close>

theorem lifetime_in_clock_time:
  assumes "store_ok e s" and "0 < p" and "0 \<le> t0" and "t0 \<le> t1" and "t1 \<le> t2" and "0 < ttl"
    and "in_int64 (now_ms p t0 + ttl)" and "store_set e s k v ttl (now_ms p t0) = Inr s'"
  shows "(ttl * p \<le> t1 - t0 \<longrightarrow> (\<exists>s''. store_get e s' k (now_ms p t1) (now_ms p t2) = Inr (None, s''))) \<and>
         (t1 - t0 \<le> (ttl - 1) * p \<longrightarrow> (\<exists>s''. store_get e s' k (now_ms p t1) (now_ms p t2) = Inr (Some v, s'')))"
proof (intro conjI impI)
  have range: "0 < ttl \<longrightarrow> in_int64 (now_ms p t0 + ttl)" using assms(7) by simp
  have pos: "0 \<le> now_ms p t0" using assms(2,3) by (simp add: now_ms_div pos_imp_zdiv_nonneg_iff)
  show "\<exists>s''. store_get e s' k (now_ms p t1) (now_ms p t2) = Inr (None, s'')" if "ttl * p \<le> t1 - t0"
  proof -
    have "now_ms p t0 + ttl \<le> now_ms p t1" using now_ms_advance(1) [OF assms(2-4) that] .
    moreover have "now_ms p t1 \<le> now_ms p t2" using now_ms_advance(1) [of p t1 t2 0] assms(2-5) by simp
    ultimately show ?thesis
      using st.set_then_get_expired [OF assms(1,8,6,7) pos, of "now_ms p t1" "now_ms p t2"] by auto
  qed
  show "\<exists>s''. store_get e s' k (now_ms p t1) (now_ms p t2) = Inr (Some v, s'')" if "t1 - t0 \<le> (ttl - 1) * p"
  proof -
    have "now_ms p t1 \<le> now_ms p t0 + (ttl - 1)" using now_ms_advance(2) [OF assms(2-4) that] .
    then have "\<not> expired_at (deadline ttl (now_ms p t0)) (now_ms p t1)"
      using assms(6) by (simp add: deadline_def expired_at_def)
    from st.set_then_get [OF assms(1,8) range this] show ?thesis by blast
  qed
qed

theorem lifetime_in_clock_time_witness:
  "\<exists>s' s1 s2. store_set sample_externals full_store ''k'' ''v'' 50 (now_ms 1000000 3999999) = Inr s' \<and>
     store_get sample_externals s' ''k'' (now_ms 1000000 52999999) (now_ms 1000000 53000000) = Inr (Some ''v'', s1) \<and>
     store_get sample_externals s' ''k'' (now_ms 1000000 53999999) (now_ms 1000000 54000000) = Inr (None, s2)"
proof -
  have now: "now_ms 1000000 3999999 = 3" by (simp add: now_ms_div)
  then have r: "in_int64 (now_ms 1000000 3999999 + 50)" by (simp add: in_int64_def)
  then have "0 < (50::int) \<longrightarrow> in_int64 (now_ms 1000000 3999999 + 50)" by simp
  with store_ok_full obtain s' where s': "store_set sample_externals full_store ''k'' ''v'' 50 (now_ms 1000000 3999999) = Inr s'"
    by (rule store_set_ok)
  from lifetime_in_clock_time [OF store_ok_full _ _ _ _ _ r s', of 52999999 53000000]
    lifetime_in_clock_time [OF store_ok_full _ _ _ _ _ r s', of 53999999 54000000] s'
  show ?thesis by auto
qed

end
