(* ===== verification/Metrics_Correct.thy ===== *)
theory Metrics_Correct
  imports Metrics
begin

text \<open>
  The moving average of latencies in floating-point arithmetic. The hypothesis on the arithmetic is
  the one IEEE 754 makes for doubles in the normal range: a result differs from the exact one by at most
  one part in \<open>2 ^ 53\<close>, and zero is exact.
\<close>

section \<open>Rounding\<close>

definition double_rounding :: "float_env \<Rightarrow> bool" where
  "double_rounding E \<longleftrightarrow>
     fl E 0 = 0 \<and> (\<forall>x. 1 \<le> \<bar>x\<bar> * 2 ^ 1022 \<and> \<bar>x\<bar> \<le> 2 ^ 1023 \<longrightarrow> \<bar>fl E x - x\<bar> \<le> \<bar>x\<bar> / 2 ^ 53)"

text \<open>Zero, or at least \<open>2 ^ (- n)\<close>: far from underflow.\<close>

definition apart :: "nat \<Rightarrow> real \<Rightarrow> bool" where
  "apart n x \<longleftrightarrow> x = 0 \<or> 1 \<le> x * 2 ^ n"

lemma apart_nonneg: "apart n x \<Longrightarrow> 0 \<le> x"
  by (auto simp: apart_def) (metis less_eq_real_def linorder_not_le mult_less_0_iff order_less_le_trans zero_less_numeral zero_less_one zero_less_power)

lemma apart_mono:
  assumes "apart n x" and "n \<le> m"
  shows "apart m x"
proof -
  have "x * 2 ^ n \<le> x * 2 ^ m"
    using apart_nonneg [OF assms(1)] assms(2) by (intro mult_left_mono power_increasing) auto
  with assms(1) show ?thesis by (auto simp: apart_def)
qed

lemma apart_mult:
  assumes "apart n x" and "apart m y"
  shows "apart (n + m) (x * y)"
proof (cases "x = 0 \<or> y = 0")
  case False
  then have "1 \<le> x * 2 ^ n" "1 \<le> y * 2 ^ m" using assms by (auto simp: apart_def)
  then have "1 * 1 \<le> (x * 2 ^ n) * (y * 2 ^ m)" by (intro mult_mono) auto
  then show ?thesis by (simp add: apart_def power_add algebra_simps)
qed (auto simp: apart_def)

lemma apart_add:
  assumes "apart n x" and "apart n y"
  shows "apart n (x + y)"
  using assms apart_nonneg [OF assms(1)] apart_nonneg [OF assms(2)]
  by (auto simp: apart_def distrib_right)

abbreviation ulp :: real where
  "ulp \<equiv> 1 / 2 ^ 53"

lemma fl_bounds:
  assumes "double_rounding E" and "apart n x" and "n \<le> 1000" and "x \<le> 2 ^ 100"
  shows "apart (Suc n) (fl E x)" and "x * (1 - ulp) \<le> fl E x" and "fl E x \<le> x * (1 + ulp)"
proof -
  have "apart (Suc n) (fl E x) \<and> x * (1 - ulp) \<le> fl E x \<and> fl E x \<le> x * (1 + ulp)"
  proof (cases "x = 0")
    case True
    with assms(1) show ?thesis by (simp add: apart_def double_rounding_def)
  next
    case False
    then have pos: "0 < x" and n: "1 \<le> x * 2 ^ n" using apart_nonneg [OF assms(2)] assms(2) by (auto simp: apart_def)
    have "apart 1022 x" using assms(2,3) by (auto intro: apart_mono)
    with False have "1 \<le> \<bar>x\<bar> * 2 ^ 1022" using pos by (simp add: apart_def)
    moreover have "\<bar>x\<bar> \<le> 2 ^ 1023"
      using assms(4) pos power_increasing [of 100 1023 "2 :: real"] by (simp del: power_increasing)
    ultimately have "\<bar>fl E x - x\<bar> \<le> \<bar>x\<bar> / 2 ^ 53" using assms(1) unfolding double_rounding_def by blast
    then have b: "fl E x \<le> x + x / 2 ^ 53" "x - x / 2 ^ 53 \<le> fl E x"
      using abs_le_D1 [of "fl E x - x" "\<bar>x\<bar> / 2 ^ 53"] abs_le_D2 [of "fl E x - x" "\<bar>x\<bar> / 2 ^ 53"] pos by linarith+
    then have "x / 2 \<le> fl E x" using pos by (simp add: field_simps)
    then have "x / 2 * 2 ^ Suc n \<le> fl E x * 2 ^ Suc n" by (intro mult_right_mono) auto
    moreover have "x / 2 * 2 ^ Suc n = x * 2 ^ n" by simp
    ultimately have "apart (Suc n) (fl E x)" using n unfolding apart_def by linarith
    with b show ?thesis by (simp add: algebra_simps)
  qed
  then show "apart (Suc n) (fl E x)" and "x * (1 - ulp) \<le> fl E x" and "fl E x \<le> x * (1 + ulp)" by auto
qed

text \<open>Values that are a small multiple of a bound \<open>L\<close>.\<close>

lemma fl_scaled:
  assumes "double_rounding E" and "apart n x" and "n \<le> 1000" and "x \<le> L * k" and "0 \<le> L" and "L \<le> 2 ^ 40" and "k \<le> 1000"
  shows "apart (Suc n) (fl E x)" and "fl E x \<le> L * (k * (1 + ulp))"
proof -
  have "L * k \<le> 2 ^ 40 * 1000"
  proof (cases "0 \<le> k")
    case True
    with assms(5-7) show ?thesis by (intro mult_mono) auto
  next
    case False
    with assms(5) have "L * k \<le> 0" by (simp add: mult_nonneg_nonpos)
    then show ?thesis by simp
  qed
  with assms(4) have x: "x \<le> 2 ^ 100" by simp
  note fl = fl_bounds [OF assms(1-3) x]
  show "apart (Suc n) (fl E x)" by (rule fl(1))
  have "x * (1 + ulp) \<le> L * k * (1 + ulp)" using assms(4) by (intro mult_right_mono) auto
  with fl(3) show "fl E x \<le> L * (k * (1 + ulp))" by (simp add: mult.assoc)
qed

section \<open>The moving average\<close>

text \<open>One update, for a sample of at most \<open>L\<close> and an average of at most \<open>L\<close>.\<close>

lemma alpha_bounds:
  assumes "double_rounding E"
  shows "apart 6 (fl E (1 / 20))" and "fl E (1 / 20) \<le> 1 / 20 * (1 + ulp)"
    and "apart 1 (1 - fl E (1 / 20))" and "1 - fl E (1 / 20) \<le> 1 - 1 / 20 * (1 - ulp)"
proof -
  have "apart 5 (1 / 20)" by (simp add: apart_def)
  from fl_bounds [OF assms this] have b: "apart 6 (fl E (1 / 20))" "1 / 20 * (1 - ulp) \<le> fl E (1 / 20)"
    "fl E (1 / 20) \<le> 1 / 20 * (1 + ulp)" by simp_all
  then show "apart 6 (fl E (1 / 20))" and "fl E (1 / 20) \<le> 1 / 20 * (1 + ulp)"
    and "1 - fl E (1 / 20) \<le> 1 - 1 / 20 * (1 - ulp)" by simp_all
  from b(3) have "fl E (1 / 20) \<le> 1 / 2" by simp
  then show "apart 1 (1 - fl E (1 / 20))" by (simp add: apart_def)
qed

lemma mult_scaled: "0 \<le> x \<Longrightarrow> x \<le> c \<Longrightarrow> 0 \<le> y \<Longrightarrow> y \<le> L * k \<Longrightarrow> x * y \<le> L * (c * k)" for x y :: real
  using mult_mono [of x c y "L * k"] by (simp add: algebra_simps)

lemma ema_bounds:
  assumes "double_rounding E" and "apart 0 s" and "apart 0 old" and "s \<le> L" and "old \<le> L * 100" and "L \<le> 2 ^ 40"
  defines "alpha \<equiv> fl E (1 / 20)" and "ema \<equiv> fl E (fl E old / 100)"
  shows "0 \<le> fl E (fl E (fl E (alpha * fl E s) + fl E (fl E (1 - alpha) * ema)) * 100)"
    and "fl E (fl E (fl E (alpha * fl E s) + fl E (fl E (1 - alpha) * ema)) * 100) < L * 100 + 1"
proof -
  let ?W = "1 + ulp"
  have L: "0 \<le> L" using apart_nonneg [OF assms(2)] assms(4) by simp
  note fl = fl_scaled [OF assms(1) _ _ _ L assms(6)] and al = alpha_bounds [OF assms(1), folded alpha_def]
  have s: "apart 1 (fl E s)" "fl E s \<le> L * ?W" using fl [of 0 s 1] assms(2,4) by simp_all
  have new: "apart 8 (fl E (alpha * fl E s))" "fl E (alpha * fl E s) \<le> L * (1 / 20 * ?W * ?W * ?W)"
    using fl [OF apart_mult [OF al(1) s(1)] _ mult_scaled [OF apart_nonneg [OF al(1)] al(2) apart_nonneg [OF s(1)] s(2)]] by simp_all
  have o: "apart 1 (fl E old)" "fl E old \<le> L * (100 * ?W)" using fl [of 0 old 100] assms(3,5) by simp_all
  have "apart 8 (fl E old * (1 / 100))" using apart_mult [OF o(1), of 7 "1 / 100"] by (simp add: apart_def)
  then have ema: "apart 9 ema" "ema \<le> L * (?W * ?W)"
    using fl [of 8 "fl E old / 100" ?W] o(2) unfolding ema_def by simp_all
  have om: "apart 2 (fl E (1 - alpha))" "fl E (1 - alpha) \<le> (1 - 1 / 20 * (1 - ulp)) * ?W"
  proof -
    have "1 - alpha \<le> 2 ^ 100" using apart_nonneg [OF al(1)] by simp
    note b = fl_bounds [OF assms(1) al(3) _ this]
    then show "apart 2 (fl E (1 - alpha))" by (simp add: numeral_2_eq_2)
    have "(1 - alpha) * ?W \<le> (1 - 1 / 20 * (1 - ulp)) * ?W" using al(4) by (intro mult_right_mono) auto
    with b(3) show "fl E (1 - alpha) \<le> (1 - 1 / 20 * (1 - ulp)) * ?W" by simp
  qed
  have kept: "apart 12 (fl E (fl E (1 - alpha) * ema))"
    "fl E (fl E (1 - alpha) * ema) \<le> L * ((1 - 1 / 20 * (1 - ulp)) * ?W * (?W * ?W) * ?W)"
    using fl [OF apart_mult [OF om(1) ema(1)] _ mult_scaled [OF apart_nonneg [OF om(1)] om(2) apart_nonneg [OF ema(1)] ema(2)]] by simp_all
  let ?k = "1 / 20 * ?W * ?W * ?W + (1 - 1 / 20 * (1 - ulp)) * ?W * (?W * ?W) * ?W"
  let ?sum = "fl E (alpha * fl E s) + fl E (fl E (1 - alpha) * ema)"
  have "apart 12 ?sum" using new(1) kept(1) by (intro apart_add) (auto intro: apart_mono)
  moreover have "?sum \<le> L * ?k" using new(2) kept(2) by (simp add: distrib_left)
  ultimately have sum: "apart 13 (fl E ?sum)" "fl E ?sum \<le> L * (?k * ?W)"
    using fl [of 12 ?sum ?k] by simp_all
  have "apart 13 (fl E ?sum * 100)" using apart_mult [OF sum(1), of 0 100] by (simp add: apart_def)
  moreover have "fl E ?sum * 100 \<le> L * (?k * ?W * 100)" using sum(2) by simp
  ultimately have r: "apart 14 (fl E (fl E ?sum * 100))" "fl E (fl E ?sum * 100) \<le> L * (?k * ?W * 100 * ?W)"
    using fl [of 13 "fl E ?sum * 100" "?k * ?W * 100"] by simp_all
  then show "0 \<le> fl E (fl E ?sum * 100)" using apart_nonneg by blast
  have "?k * ?W * 100 * ?W \<le> 100 + 1 / 2 ^ 41" by simp
  then have "L * (?k * ?W * 100 * ?W) \<le> L * (100 + 1 / 2 ^ 41)" using L by (rule mult_left_mono)
  also have "\<dots> < L * 100 + 1" using assms(6) by (simp add: distrib_left)
  finally show "fl E (fl E ?sum * 100) < L * 100 + 1" using r(2) by linarith
qed

section \<open>Property\<close>

text \<open>
  C32: The latency average is an average. If the average recorded so far and the latency of the next
  command are at most \<open>L\<close> microseconds, then recording the command succeeds and the average is again
  between zero and \<open>L\<close>, in spite of rounding at every operation: the conversion back to an integer
  neither overflows nor exceeds the bound. \<open>L\<close> may be any number up to \<open>2 ^ 40\<close>, about twelve days.
\<close>

theorem latency_average_bounded:
  assumes "double_rounding E" and "0 \<le> latency" and "latency \<le> L" and "L \<le> 2 ^ 40"
    and "0 \<le> latency_ema_x100 m" and "latency_ema_x100 m \<le> 100 * L"
  shows "\<exists>m'. record_command E latency m = Inr m' \<and> 0 \<le> latency_ema_x100 m' \<and> latency_ema_x100 m' \<le> 100 * L \<and>
              total_commands m' = wrap64 (total_commands m + 1)"
proof -
  let ?old = "real_of_int (latency_ema_x100 m)" and ?s = "fl E (of_int latency)"
  let ?ema = "fl E (fl E (fl E (fl E (1 / 20) * ?s) + fl E (fl E (1 - fl E (1 / 20)) * fl E (fl E ?old / 100))) * 100)"
  have nat: "apart 0 (real_of_int n)" if "0 \<le> n" for n using that by (auto simp: apart_def)
  have "real_of_int latency \<le> real_of_int L" "?old \<le> real_of_int L * 100" using assms(3,6) by linarith+
  moreover have "real_of_int L \<le> 2 ^ 40" using assms(4) by simp
  ultimately
  have b: "0 \<le> ?ema" "?ema < real_of_int L * 100 + 1"
    using ema_bounds [OF assms(1) nat [OF assms(2)] nat [OF assms(5)]] by blast+
  define n where "n = \<lfloor>?ema\<rfloor>"
  have n: "0 \<le> n" "n \<le> 100 * L" using b unfolding n_def by linarith+
  with assms(4) have "in_int64 n" by (simp add: in_int64_def)
  with b(1) have "truncate64 ?ema = Inr n" by (simp add: truncate64_def Let_def n_def [symmetric])
  with n show ?thesis by (simp add: record_command_def update_latency_ema_def Let_def)
qed

theorem latency_average_bounded_witness:
  "\<exists>m'. record_command \<lparr>fl = (\<lambda>x. x), fmt_fixed = (\<lambda>n x. [])\<rparr> 250 (metrics_init\<lparr>latency_ema_x100 := 10000\<rparr>) = Inr m' \<and>
        latency_ema_x100 m' \<le> 30000 \<and> total_commands m' = 1"
proof -
  let ?E = "\<lparr>fl = (\<lambda>x. x), fmt_fixed = (\<lambda>n x. [])\<rparr>"
  have "double_rounding ?E" by (simp add: double_rounding_def)
  from latency_average_bounded [OF this, of 250 300 "metrics_init\<lparr>latency_ema_x100 := 10000\<rparr>"] show ?thesis
    by (auto simp: metrics_init_def in_int64_def)
qed

end
