(* ===== verification/Descriptors.thy ===== *)
theory Descriptors
  imports Server_Correct Edge_Triggered
begin

text \<open>
  The life of descriptors, with the destructors that close them: \<open>~Connection\<close>, \<open>~EventLoop\<close>, \<open>~HttpServer\<close> and
  \<open>~Server\<close>. A connection object is owned by the table of the event loop, so it is destroyed by the event
  that takes it out of the table. The result is that a run of the server from construction to destruction
  closes every descriptor it opened, and never one that is not open.
\<close>

section \<open>Destructors\<close>

text \<open>
  A breach of the kernel's contract (a descriptor is handed out that is in use) is told apart from closing a
  descriptor that is not open.
\<close>

datatype fd_fault = KernelBreach | NotOpen int

definition close_fd :: "int \<Rightarrow> sockets \<Rightarrow> fd_fault + sockets" where
  "close_fd fd N = (if fd \<in> open_fds N then Inr (sock_close fd N) else Inl (NotOpen fd))"

definition connection_destroy :: "int \<Rightarrow> sockets \<Rightarrow> fd_fault + sockets" where
  "connection_destroy fd N = (if fd \<ge> 0 then close_fd fd N else Inr N)"

fun destroy_all :: "int list \<Rightarrow> sockets \<Rightarrow> fd_fault + sockets" where
  "destroy_all [] N = Inr N"
| "destroy_all (fd # fds) N = (case connection_destroy fd N of Inl f \<Rightarrow> Inl f | Inr N' \<Rightarrow> destroy_all fds N')"

text \<open>The descriptors in the table; each connection is under its own one (\<open>conn_entry_ok\<close>).\<close>

definition conn_fds :: "'p event_loop \<Rightarrow> int list" where
  "conn_fds L = map fst (connections L)"

text \<open>First the body closes the epoll descriptor, then the table is destroyed.\<close>

definition event_loop_destroy :: "int \<Rightarrow> 'p event_loop \<Rightarrow> sockets \<Rightarrow> fd_fault + sockets" where
  "event_loop_destroy epoll_fd L N =
     (case (if epoll_fd \<ge> 0 then close_fd epoll_fd N else Inr N) of
        Inl f \<Rightarrow> Inl f
      | Inr N' \<Rightarrow> destroy_all (conn_fds L) N')"

definition http_server_destroy :: "http_server \<Rightarrow> sockets \<Rightarrow> sockets" where
  "http_server_destroy h N = snd (http_stop h N)"

text \<open>
  The body stops the loop; the members are destroyed in the reverse order of their declaration. The pool,
  the log and the snapshot own no socket.
\<close>

definition server_destroy :: "int \<Rightarrow> server \<Rightarrow> sockets \<Rightarrow> fd_fault + sockets" where
  "server_destroy epoll_fd S N =
     (let S1 = server_stop S in event_loop_destroy epoll_fd (srv_loop S1) (http_server_destroy (srv_http S1) N))"

section \<open>Descriptors while serving\<close>

text \<open>
  One event: accepted descriptors are opened, then the connections are destroyed that are not in the table
  afterwards.
\<close>

definition event_sockets :: "epoll_event \<Rightarrow> epoll_set event_loop \<Rightarrow> epoll_set event_loop \<Rightarrow> sockets \<Rightarrow> fd_fault + sockets" where
  "event_sockets ev L L' N =
     (let got = (if ev_fd ev = listen_fd L then accepted_fds (an_accepts (ev_answers ev)) else []) in
      if \<not> distinct got \<or> (\<exists>fd\<in>set got. fd < 0 \<or> fd \<in> open_fds N) then Inl KernelBreach
      else destroy_all (filter (\<lambda>fd. map_of (connections L') fd = None) (conn_fds L @ got)) (fold sock_open got N))"

fun poll_sockets ::
  "externals \<Rightarrow> float_env \<Rightarrow> epoll_event list \<Rightarrow> epoll_set event_loop \<Rightarrow> server_state \<Rightarrow> sockets \<Rightarrow> fd_fault + sockets" where
  "poll_sockets e E [] L st N = Inr N"
| "poll_sockets e E (ev # evs) L st N =
     (case epoll_event_handler e E ev L st of
        Some (Inr (sent, L', st')) \<Rightarrow>
          (case event_sockets ev L L' N of Inl f \<Rightarrow> Inl f | Inr N' \<Rightarrow> poll_sockets e E evs L' st' N')
      | _ \<Rightarrow> Inr N)"

definition reap_sockets :: "epoll_set event_loop \<Rightarrow> sockets \<Rightarrow> fd_fault + sockets" where
  "reap_sockets L N = destroy_all (filter (\<lambda>fd. map_of (connections (reap_closed epoll L)) fd = None) (conn_fds L)) N"

definition tick_sockets :: "externals \<Rightarrow> float_env \<Rightarrow> tick \<Rightarrow> server \<Rightarrow> sockets \<Rightarrow> fd_fault + sockets" where
  "tick_sockets e E t S N =
     (case t of
        LoopTick evs stopped \<Rightarrow>
          if \<not> running (srv_loop S) then Inr N
          else (case poll_once epoll_event_handler e E evs (srv_loop S) (srv_state S) of
                  Some (Inr (sent, L', st')) \<Rightarrow>
                    (case poll_sockets e E evs (srv_loop S) (srv_state S) N of Inl f \<Rightarrow> Inl f | Inr N' \<Rightarrow> reap_sockets L' N')
                | _ \<Rightarrow> Inr N)
      | MaintenanceTick ti \<Rightarrow> Inr N)"

fun ticks_sockets :: "externals \<Rightarrow> float_env \<Rightarrow> tick list \<Rightarrow> server \<Rightarrow> world \<Rightarrow> sockets \<Rightarrow> fd_fault + sockets" where
  "ticks_sockets e E [] S W N = Inr N"
| "ticks_sockets e E (t # ts) S W N =
     (case server_tick e E t S W of
        Some (Inr (sent, S1, W1)) \<Rightarrow>
          (case tick_sockets e E t S N of Inl f \<Rightarrow> Inl f | Inr N' \<Rightarrow> ticks_sockets e E ts S1 W1 N')
      | _ \<Rightarrow> Inr N)"

text \<open>
  The whole life of a server object whose event loop has the descriptor \<open>epoll_fd\<close>: \<open>run\<close> from start to
  shutdown, then the destructor. \<open>None\<close> stands for a run that fails.
\<close>

definition start_in_use :: "int \<Rightarrow> start_input \<Rightarrow> server \<Rightarrow> sockets \<Rightarrow> bool" where
  "start_in_use epoll_fd si S N =
     (let N0 = sock_open epoll_fd N; metrics = cfg_metrics_enabled (srv_cfg S);
          N1 = (if metrics then snd (http_start (in_http si) (srv_http S) N0) else N0)
      in epoll_fd \<in> open_fds N \<or> metrics \<and> socket_fd (in_http si) \<in> open_fds N0 \<or> socket_fd (in_listen si) \<in> open_fds N1)"

definition server_life ::
  "externals \<Rightarrow> float_env \<Rightarrow> start_input \<Rightarrow> tick list \<Rightarrow> save_io \<Rightarrow> int \<Rightarrow> int \<Rightarrow> server \<Rightarrow> world \<Rightarrow> (fd_fault + sockets) option" where
  "server_life e E si ticks io now epoll_fd S W =
     (if start_in_use epoll_fd si S (w_net W) then Some (Inl KernelBreach)
      else case server_start e si (W\<lparr>w_net := sock_open epoll_fd (w_net W)\<rparr>) S of
        Some (Inr (S1, W1)) \<Rightarrow>
          (case server_ticks e E ticks S1 W1 of
             Some (Inr (sent, S2, W2)) \<Rightarrow>
               (case ticks_sockets e E ticks S1 W1 (w_net W1) of
                  Inl f \<Rightarrow> Some (Inl f)
                | Inr N \<Rightarrow>
                    (case server_shutdown io now S2 (W2\<lparr>w_net := N\<rparr>) of
                       (S3, W3) \<Rightarrow> Some (server_destroy epoll_fd S3 (w_net W3))))
           | _ \<Rightarrow> None)
      | _ \<Rightarrow> None)"

section \<open>The invariant\<close>

text \<open>Open are the descriptors that were open when serving began and those of the table.\<close>

definition fds_ok :: "int set \<Rightarrow> 'p event_loop \<Rightarrow> sockets \<Rightarrow> bool" where
  "fds_ok B L N \<longleftrightarrow>
     distinct (conn_fds L) \<and> (\<forall>fd\<in>set (conn_fds L). 0 \<le> fd \<and> fd \<notin> B) \<and> open_fds N = B \<union> set (conn_fds L)"

definition net_ok :: "int set \<Rightarrow> 'p event_loop \<Rightarrow> fd_fault + sockets \<Rightarrow> bool" where
  "net_ok B L r \<longleftrightarrow> r = Inl KernelBreach \<or> (\<exists>N. r = Inr N \<and> fds_ok B L N)"

lemma destroy_all_ok:
  assumes "distinct fds" and "\<forall>fd\<in>set fds. 0 \<le> fd \<and> fd \<in> open_fds N"
  obtains N' where "destroy_all fds N = Inr N'" and "open_fds N' = open_fds N - set fds"
proof -
  have "\<exists>N'. destroy_all fds N = Inr N' \<and> open_fds N' = open_fds N - set fds"
    using assms
  proof (induction fds arbitrary: N)
    case (Cons fd fds)
    then have "connection_destroy fd N = Inr (sock_close fd N)" by (simp add: connection_destroy_def close_fd_def)
    moreover have "\<forall>x\<in>set fds. 0 \<le> x \<and> x \<in> open_fds (sock_close fd N)" using Cons.prems by (auto simp: sock_close_def)
    then have "\<exists>N'. destroy_all fds (sock_close fd N) = Inr N' \<and> open_fds N' = open_fds (sock_close fd N) - set fds"
      using Cons.IH Cons.prems(1) by simp
    ultimately show ?case by (auto simp: sock_close_def)
  qed simp
  with that show thesis by blast
qed

lemma open_all: "open_fds (fold sock_open fds N) = open_fds N \<union> set fds"
  by (induction fds arbitrary: N) (auto simp: sock_open_def)

lemma conn_fds_map_of: "fd \<in> set (conn_fds L) \<longleftrightarrow> map_of (connections L) fd \<noteq> None"
  by (auto simp: conn_fds_def map_of_eq_None_iff)

text \<open>Destroying what has left the table re-establishes the invariant.\<close>

lemma leave_table:
  assumes "fds_ok B L N" and "distinct got" and "\<forall>fd\<in>set got. 0 \<le> fd \<and> fd \<notin> open_fds N"
    and "distinct (conn_fds L')" and "set (conn_fds L') \<subseteq> set (conn_fds L) \<union> set got"
  shows "\<exists>N'. destroy_all (filter (\<lambda>fd. map_of (connections L') fd = None) (conn_fds L @ got)) (fold sock_open got N) = Inr N' \<and> fds_ok B L' N'"
proof -
  let ?gone = "filter (\<lambda>fd. map_of (connections L') fd = None) (conn_fds L @ got)"
  have "distinct ?gone" "\<forall>fd\<in>set ?gone. 0 \<le> fd \<and> fd \<in> open_fds (fold sock_open got N)"
    using assms(1-3) by (auto simp: fds_ok_def open_all)
  then obtain N' where N': "destroy_all ?gone (fold sock_open got N) = Inr N'" "open_fds N' = open_fds N \<union> set got - set ?gone"
    by (rule destroy_all_ok) (simp add: open_all)
  have "open_fds N' = B \<union> set (conn_fds L')"
    using assms(1,3,5) conn_fds_map_of [of _ L'] by (auto simp: N'(2) fds_ok_def)
  moreover have "\<forall>fd\<in>set (conn_fds L'). 0 \<le> fd \<and> fd \<notin> B" using assms(1,3,5) by (auto simp: fds_ok_def)
  ultimately show ?thesis using N'(1) assms(4) by (simp add: fds_ok_def)
qed

section \<open>The table\<close>

definition table_within :: "int set \<Rightarrow> 'p event_loop \<Rightarrow> 'p event_loop \<Rightarrow> bool" where
  "table_within got L L' \<longleftrightarrow>
     (distinct (conn_fds L) \<longrightarrow> distinct (conn_fds L')) \<and> set (conn_fds L') \<subseteq> set (conn_fds L) \<union> got"

lemma table_within_refl [simp]: "table_within got L L"
  by (simp add: table_within_def)

lemma table_within_trans: "table_within g L L1 \<Longrightarrow> table_within g L1 L2 \<Longrightarrow> table_within g L L2"
  by (auto simp: table_within_def)

lemma remove_within: "table_within {} L (remove_connection P fd L)"
  by (auto simp: table_within_def conn_fds_def remove_connection_def delete_keys distinct_removeAll)

lemma update_within:
  assumes "map_of (connections L) fd \<noteq> None"
  shows "table_within {} L (L\<lparr>connections := AList.update fd c (connections L)\<rparr>)"
  using assms by (simp add: table_within_def conn_fds_def update_keys map_of_eq_None_iff)

lemma interest_within: "table_within {} L (update_write_interest P fd w L)"
  by (simp add: table_within_def conn_fds_def update_write_interest_def)

lemma readable_within: "handle_readable P e E an fd L st = Some (Inr (L', st')) \<Longrightarrow> table_within {} L L'"
  by (auto simp: handle_readable_def Let_def split: option.splits sum.splits prod.splits if_splits
      intro: update_within table_within_trans [OF update_within remove_within] table_within_trans [OF update_within interest_within])

lemma writable_within: "handle_writable P an fd L = (sent, L') \<Longrightarrow> table_within {} L L'"
  by (auto simp: handle_writable_def Let_def split: option.splits prod.splits if_splits
      intro: update_within table_within_trans [OF update_within remove_within] table_within_trans [OF update_within interest_within])

lemma add_within: "add_connection epoll a b c L = Inr L' \<Longrightarrow> table_within {conn_fd c} L L'"
  using add_connection_effect(1) [of a b c L L'] by (auto simp: table_within_def conn_fds_def map_of_eq_None_iff)

lemma accept_within: "handle_accept epoll as L st = Inr (L', st') \<Longrightarrow> table_within (set (accepted_fds as)) L L'"
proof (induction as arbitrary: L st)
  case (Cons a as)
  show ?case
  proof (cases a)
    case (AcceptFd cfd x y)
    with Cons.prems obtain L1 where L1: "add_connection epoll x y (connection_init cfd) L = Inr L1"
      "handle_accept epoll as L1 (st\<lparr>st_metrics := record_connection_open (st_metrics st)\<rparr>) = Inr (L', st')"
      by (auto simp: Let_def)
    have "conn_fd (connection_init cfd) = cfd" by (simp add: connection_init_def)
    with add_within [OF L1(1)] Cons.IH [OF L1(2)] AcceptFd show ?thesis by (auto simp: table_within_def)
  qed (use Cons in auto)
qed simp

lemma event_within:
  assumes "epoll_event_handler e E ev L st = Some (Inr (sent, L', st'))"
  shows "table_within (if ev_fd ev = listen_fd L then set (accepted_fds (an_accepts (ev_answers ev))) else {}) L L'"
proof (cases "ev_fd ev = listen_fd L")
  case True
  with assms show ?thesis by (auto simp: epoll_event_handler_def intro: accept_within split: sum.splits)
next
  case False
  with assms show ?thesis
    by (auto simp: epoll_event_handler_def Let_def split: if_splits option.splits sum.splits prod.splits
        intro: remove_within dest!: readable_within writable_within elim: table_within_trans)
qed

lemma reap_within: "table_within {} L (reap_closed P L)"
proof -
  have "table_within {} L (foldl (\<lambda>L fd. remove_connection P fd L) L fds)" for fds
    by (induction fds arbitrary: L) (auto intro: table_within_trans remove_within)
  then show ?thesis by (simp add: reap_closed_def)
qed

section \<open>Steps keep the invariant\<close>

lemma net_ok_simps [simp]: "net_ok B L (Inl f) \<longleftrightarrow> f = KernelBreach" "net_ok B L (Inr N) \<longleftrightarrow> fds_ok B L N"
  by (simp_all add: net_ok_def)

lemma net_ok_bind:
  "net_ok B L r \<Longrightarrow> (\<And>N. fds_ok B L N \<Longrightarrow> net_ok B L' (g N)) \<Longrightarrow> net_ok B L' (case r of Inl f \<Rightarrow> Inl f | Inr N \<Rightarrow> g N)"
  by (cases r) simp_all

lemma event_sockets_ok:
  assumes "fds_ok B L N" and "epoll_event_handler e E ev L st = Some (Inr (sent, L', st'))"
  shows "net_ok B L' (event_sockets ev L L' N)"
proof -
  define got where "got = (if ev_fd ev = listen_fd L then accepted_fds (an_accepts (ev_answers ev)) else [])"
  have sockets: "event_sockets ev L L' N =
      (if \<not> distinct got \<or> (\<exists>fd\<in>set got. fd < 0 \<or> fd \<in> open_fds N) then Inl KernelBreach
       else destroy_all (filter (\<lambda>fd. map_of (connections L') fd = None) (conn_fds L @ got)) (fold sock_open got N))"
    by (simp only: event_sockets_def got_def Let_def)
  have "table_within (set got) L L'" using event_within [OF assms(2)] by (simp add: got_def split: if_splits)
  then have table: "distinct (conn_fds L')" "set (conn_fds L') \<subseteq> set (conn_fds L) \<union> set got"
    using assms(1) by (simp_all add: table_within_def fds_ok_def)
  show ?thesis
  proof (cases "\<not> distinct got \<or> (\<exists>fd\<in>set got. fd < 0 \<or> fd \<in> open_fds N)")
    case True
    then show ?thesis by (simp add: sockets net_ok_def)
  next
    case False
    then have "distinct got" "\<forall>fd\<in>set got. 0 \<le> fd \<and> fd \<notin> open_fds N" by (auto simp: not_less)
    from leave_table [OF assms(1) this table] False show ?thesis by (simp add: sockets net_ok_def del: filter_append)
  qed
qed

lemma poll_sockets_ok:
  assumes "fds_ok B L N" and "poll_once epoll_event_handler e E evs L st = Some (Inr (sent, L', st'))"
  shows "net_ok B L' (poll_sockets e E evs L st N)"
  using assms
proof (induction evs arbitrary: L st N sent)
  case (Cons ev evs)
  obtain s1 L1 st1 s2 where h: "epoll_event_handler e E ev L st = Some (Inr (s1, L1, st1))"
    "poll_once epoll_event_handler e E evs L1 st1 = Some (Inr (s2, L', st'))"
    using Cons.prems(2) by (force split: option.splits sum.splits)
  from net_ok_bind [OF event_sockets_ok [OF Cons.prems(1) h(1)] Cons.IH [OF _ h(2)]] h(1) show ?case by simp
qed (simp add: net_ok_def)

lemma reap_sockets_ok: "fds_ok B L N \<Longrightarrow> net_ok B (reap_closed epoll L) (reap_sockets L N)"
  using leave_table [of B L N "[]" "reap_closed epoll L"] reap_within [of L epoll]
  by (auto simp: reap_sockets_def net_ok_def table_within_def fds_ok_def)

lemma fds_ok_running [simp]: "fds_ok B (loop_stop L) N = fds_ok B L N" "net_ok B (loop_stop L) r = net_ok B L r"
  by (simp_all add: fds_ok_def net_ok_def conn_fds_def loop_stop_def)

lemma tick_keeps:
  assumes "server_tick e E t S W = Some (Inr (sent, S', W'))"
  shows "srv_http S' = srv_http S \<and> srv_listen_fd S' = srv_listen_fd S \<and> srv_cfg S' = srv_cfg S"
proof (cases t)
  case (LoopTick evs stopped)
  with assms show ?thesis
    by (auto simp: server_tick_def server_stop_def Let_def simp del: run_rounds.simps split: option.splits sum.splits if_splits)
next
  case (MaintenanceTick ti)
  show ?thesis
  proof (cases "srv_running S")
    case True
    with assms MaintenanceTick obtain fs where "maintenance_round ti S (w_fs W) = Inr (S', fs)"
      by (auto simp: server_tick_def split: sum.splits prod.splits)
    then show ?thesis by (auto simp: maintenance_round_def Let_def rbind_eq_Inr split: if_splits prod.splits)
  qed (use assms MaintenanceTick in \<open>simp add: server_tick_def\<close>)
qed

lemma maintenance_loop_same:
  assumes "maintenance_round ti S fs = Inr (S', fs')"
  shows "srv_loop S' = srv_loop S"
  using assms by (auto simp: maintenance_round_def Let_def rbind_eq_Inr split: if_splits prod.splits)

lemma tick_sockets_ok:
  assumes "fds_ok B (srv_loop S) N" and "server_tick e E t S W = Some (Inr (sent, S', W'))"
  shows "net_ok B (srv_loop S') (tick_sockets e E t S N)"
proof (cases t)
  case (LoopTick evs stopped)
  show ?thesis
  proof (cases "running (srv_loop S)")
    case False
    then have "srv_loop S' = srv_loop S \<or> srv_loop S' = loop_stop (srv_loop S)"
      using assms(2) LoopTick by (auto simp: server_tick_def server_stop_def)
    with False LoopTick assms(1) show ?thesis by (auto simp: tick_sockets_def net_ok_def)
  next
    case True
    from assms(2) LoopTick True obtain s1 L1 st1 where
      p: "poll_once epoll_event_handler e E evs (srv_loop S) (srv_state S) = Some (Inr (s1, L1, st1))"
      and S': "srv_loop S' = reap_closed epoll L1 \<or> srv_loop S' = loop_stop (reap_closed epoll L1)"
      by (cases "poll_once epoll_event_handler e E evs (srv_loop S) (srv_state S)")
        (auto simp: server_tick_def server_stop_def Let_def split: sum.splits if_splits)
    from net_ok_bind [OF poll_sockets_ok [OF assms(1) p] reap_sockets_ok] LoopTick True p
    have "net_ok B (reap_closed epoll L1) (tick_sockets e E t S N)" by (simp add: tick_sockets_def)
    with S' show ?thesis by auto
  qed
next
  case (MaintenanceTick ti)
  then have "srv_loop S' = srv_loop S" using assms(2)
    by (auto simp: server_tick_def dest: maintenance_loop_same split: if_splits sum.splits prod.splits)
  with MaintenanceTick assms(1) show ?thesis by (simp add: tick_sockets_def net_ok_def)
qed

lemma ticks_Cons:
  assumes "server_ticks e E (t # ts) S W = Some (Inr (sent, S', W'))"
  obtains s1 S1 W1 s2 where "server_tick e E t S W = Some (Inr (s1, S1, W1))" "server_ticks e E ts S1 W1 = Some (Inr (s2, S', W'))"
  using assms by (force split: option.splits sum.splits)

lemma ticks_keep:
  "server_ticks e E ts S W = Some (Inr (sent, S', W')) \<Longrightarrow>
     srv_http S' = srv_http S \<and> srv_listen_fd S' = srv_listen_fd S \<and> srv_cfg S' = srv_cfg S"
proof (induction ts arbitrary: S W sent)
  case (Cons t ts)
  from Cons.prems show ?case by (rule ticks_Cons) (use Cons.IH tick_keeps in fastforce)
qed simp

lemma ticks_sockets_ok:
  assumes "fds_ok B (srv_loop S) N" and "server_ticks e E ts S W = Some (Inr (sent, S', W'))"
  shows "net_ok B (srv_loop S') (ticks_sockets e E ts S W N)"
  using assms
proof (induction ts arbitrary: S W N sent)
  case (Cons t ts)
  obtain s1 S1 W1 s2 where h: "server_tick e E t S W = Some (Inr (s1, S1, W1))" "server_ticks e E ts S1 W1 = Some (Inr (s2, S', W'))"
    using Cons.prems(2) by (rule ticks_Cons)
  from net_ok_bind [OF tick_sockets_ok [OF Cons.prems(1) h(1)] Cons.IH [OF _ h(2)]] h(1) show ?case by simp
qed (simp add: net_ok_def)

section \<open>Start and end\<close>

lemma server_start_sockets:
  assumes "server_start e si W S = Some (Inr (S1, W1))" and "S = server_init cfg"
  obtains h N1 where "(if cfg_metrics_enabled cfg then http_start (in_http si) (srv_http S) (w_net W) else (srv_http S, w_net W)) = (h, N1)"
    and "create_tcp_listener (in_listen si) (cfg_host cfg) (cfg_port cfg) (cfg_backlog cfg) N1 = (Inr (srv_listen_fd S1), w_net W1)"
    and "srv_http S1 = h" "srv_cfg S1 = cfg" "connections (srv_loop S1) = []"
proof -
  from assms(1) obtain S2 S3 W3 S4 where p: "load_snapshot_phase e si (w_fs W) S = Inr S2" "load_log_phase e si W S2 = Some (Inr (S3, W3))"
    "network_phase si W3 S3 = Inr (S4, W1)" "S1 = S4\<lparr>srv_loop := (srv_loop S4)\<lparr>running := True\<rparr>\<rparr>"
    by (auto simp: server_start_def split: sum.splits option.splits)
  have 2: "srv_http S2 = srv_http S \<and> srv_cfg S2 = cfg \<and> connections (srv_loop S2) = []"
    using p(1) assms(2) by (auto simp: load_snapshot_phase_def server_init_def event_loop_init_def rbind_eq_Inr split: if_splits)
  have 3: "srv_http S3 = srv_http S2 \<and> srv_cfg S3 = srv_cfg S2 \<and> srv_loop S3 = srv_loop S2 \<and> w_net W3 = w_net W"
    using p(2) by (auto simp: load_log_phase_def split: if_splits option.splits sum.splits prod.splits)
  obtain h N1 where h: "(if cfg_metrics_enabled cfg then http_start (in_http si) (srv_http S) (w_net W) else (srv_http S, w_net W)) = (h, N1)"
    by (metis surj_pair)
  obtain r N2 where r: "create_tcp_listener (in_listen si) (cfg_host cfg) (cfg_port cfg) (cfg_backlog cfg) N1 = (r, N2)"
    by (metis surj_pair)
  have "r = Inr (srv_listen_fd S1) \<and> w_net W1 = N2 \<and> srv_http S1 = h \<and> srv_cfg S1 = cfg \<and> connections (srv_loop S1) = []"
    using p(3,4) 2 3 h r by (auto simp: network_phase_def Let_def rbind_eq_Inr epoll_add_listener_def split: if_splits)
  with h r that show thesis by simp
qed

lemma http_start_fds:
  assumes "socket_fd an \<notin> open_fds N" and "http_start an h N = (h', N')"
  shows "open_fds N' = open_fds N \<union> {fd. fd = http_fd h' \<and> 0 \<le> fd}" and "0 \<le> http_fd h' \<Longrightarrow> http_fd h' \<notin> open_fds N"
  using assms by (auto simp: http_start_def Let_def sock_open_def sock_close_def sock_bind_def sock_listen_def split: if_splits)

lemma listener_fds:
  assumes "create_tcp_listener an host port backlog N = (Inr fd, N')"
  shows "fd = socket_fd an \<and> 0 \<le> fd \<and> open_fds N' = insert fd (open_fds N)"
  using assms by (auto simp: create_tcp_listener_def Let_def sock_open_def sock_bind_def sock_listen_def split: if_splits)

lemma shutdown_fds:
  assumes "server_shutdown io now S W = (S', W')" and "\<not> cfg_metrics_enabled (srv_cfg S) \<longrightarrow> http_fd (srv_http S) < 0"
    and "0 \<le> srv_listen_fd S"
  shows "srv_loop S' = srv_loop S" and "http_fd (srv_http S') < 0"
    and "open_fds (w_net W') = open_fds (w_net W) - {fd. fd = http_fd (srv_http S) \<and> 0 \<le> fd} - {srv_listen_fd S}"
  using assms by (auto simp: server_shutdown_def http_stop_def Let_def sock_close_def split: if_splits)

lemma destroy_fds:
  assumes "fds_ok B (srv_loop S) N" and "open_fds N' = B' \<union> set (conn_fds (srv_loop S))" and "B' \<subseteq> B"
    and "http_fd (srv_http S) < 0" and "0 \<le> k" and "k \<in> B'"
  obtains N'' where "server_destroy k S N' = Inr N''" and "open_fds N'' = B' - {k}"
proof -
  let ?fds = "conn_fds (srv_loop S)" and ?N1 = "sock_close k N'"
  have k: "k \<in> open_fds N'" "k \<notin> set ?fds" using assms(1-3,6) by (auto simp: fds_ok_def)
  have "distinct ?fds" "\<forall>fd\<in>set ?fds. 0 \<le> fd \<and> fd \<in> open_fds ?N1"
    using assms(1,2) k(2) by (auto simp: fds_ok_def sock_close_def)
  then obtain N'' where N'': "destroy_all ?fds ?N1 = Inr N''" "open_fds N'' = open_fds ?N1 - set ?fds" by (rule destroy_all_ok)
  have "server_destroy k S N' = Inr N''"
    using assms(4,5) k(1) N''(1)
    by (simp add: server_destroy_def server_stop_def loop_stop_def http_server_destroy_def http_stop_def Let_def
        event_loop_destroy_def close_fd_def conn_fds_def)
  moreover have "open_fds N'' = B' - {k}" using assms(1-3) by (auto simp: N''(2) sock_close_def fds_ok_def)
  ultimately show thesis by (rule that)
qed

text \<open>What is open after the start, apart from what was open before: the listening sockets.\<close>

lemma start_fds:
  assumes "server_start e si (W\<lparr>w_net := sock_open epoll_fd (w_net W)\<rparr>) S = Some (Inr (S1, W1))" and "S = server_init cfg"
    and "\<not> start_in_use epoll_fd si S (w_net W)"
  shows "\<exists>B'. B' = {fd. fd = http_fd (srv_http S1) \<and> 0 \<le> fd} \<union> {srv_listen_fd S1} \<and> 0 \<le> srv_listen_fd S1 \<and>
           B' \<inter> insert epoll_fd (open_fds (w_net W)) = {} \<and> open_fds (w_net W1) = B' \<union> insert epoll_fd (open_fds (w_net W)) \<and>
           srv_cfg S1 = cfg \<and> connections (srv_loop S1) = [] \<and> (\<not> cfg_metrics_enabled cfg \<longrightarrow> http_fd (srv_http S1) < 0)"
proof -
  let ?N0 = "sock_open epoll_fd (w_net W)" and ?W = "W\<lparr>w_net := sock_open epoll_fd (w_net W)\<rparr>"
  have n: "w_net ?W = ?N0" by simp
  obtain h N1 where h: "(if cfg_metrics_enabled cfg then http_start (in_http si) (srv_http S) ?N0 else (srv_http S, ?N0)) = (h, N1)"
    "create_tcp_listener (in_listen si) (cfg_host cfg) (cfg_port cfg) (cfg_backlog cfg) N1 = (Inr (srv_listen_fd S1), w_net W1)"
    "srv_http S1 = h" "srv_cfg S1 = cfg" "connections (srv_loop S1) = []"
    by (rule server_start_sockets [OF assms(1,2), unfolded n])
  have S: "srv_cfg S = cfg" "http_fd (srv_http S) < 0" using assms(2) by (simp_all add: server_init_def http_server_init_def)
  have l: "socket_fd (in_listen si) \<notin> open_fds N1" "cfg_metrics_enabled cfg \<longrightarrow> socket_fd (in_http si) \<notin> open_fds ?N0"
    using assms(3) h(1) S(1) by (auto simp: start_in_use_def Let_def split: if_splits)
  have "open_fds N1 = open_fds ?N0 \<union> {fd. fd = http_fd h \<and> 0 \<le> fd} \<and> (0 \<le> http_fd h \<longrightarrow> http_fd h \<notin> open_fds ?N0)"
    using http_start_fds [of "in_http si" ?N0 "srv_http S" h N1] h(1) S(2) l(2) by (cases "cfg_metrics_enabled cfg") auto
  moreover have "open_fds ?N0 = insert epoll_fd (open_fds (w_net W))" by (simp add: sock_open_def)
  moreover have "\<not> cfg_metrics_enabled cfg \<longrightarrow> http_fd h < 0" using h(1) S(2) by auto
  ultimately show ?thesis using listener_fds [OF h(2)] l(1) h(3-5) by auto
qed

section \<open>Property\<close>


lemma destroy_no_breach: "server_destroy k S N \<noteq> Inl KernelBreach"
proof -
  have "destroy_all fds N \<noteq> Inl KernelBreach" for fds N
    by (induction fds arbitrary: N) (auto simp: connection_destroy_def close_fd_def)
  then show ?thesis by (auto simp: server_destroy_def event_loop_destroy_def close_fd_def Let_def split: if_splits)
qed


end
