(* ===== verification/Dashboard.thy ===== *)
theory Dashboard
  imports Http_Server
begin

text \<open>
  The admin dashboard (\<open>src/dashboard/src\<close>): \<open>fetchStats\<close> of \<open>api/metrics.ts\<close>, the state of \<open>App.tsx\<close> and what a poll
  does to it, the number formatting, and the texts of the stat cards. The proxy rules of \<open>nginx.conf\<close> and
  \<open>vite.config.ts\<close> that lie between the dashboard and the metrics server are included. What is drawn by React and
  Recharts from these values is not. Characters outside ASCII are their UTF-8 bytes.
\<close>

section \<open>JavaScript\<close>

text \<open>
  What is left to the engine: rounding to a double, the rendering of a number that is not an integer, and
  the message of a syntax error.
\<close>

record js_env =
  js_round :: "real \<Rightarrow> real"
  js_number :: "real \<Rightarrow> string"
  js_syntax :: "string \<Rightarrow> string"

datatype json = JNum real | JStr string

type_synonym json_object = "(string \<times> json) list"

text \<open>
  \<open>JSON.parse\<close> on the documents of the metrics server: an object of numbers and strings, written without
  blanks, exponents and escapes. Other documents are refused.
\<close>

definition json_number :: "string \<Rightarrow> (real \<times> string) option" where
  "json_number s =
     (let neg = (s \<noteq> [] \<and> hd s = CHR ''-''); t = (if neg then tl s else s);
          ds = takeWhile is_digit t; rest = dropWhile is_digit t;
          signed = (\<lambda>x. if neg then - x else x :: real)
      in if ds = [] \<or> hd ds = CHR ''0'' \<and> ds \<noteq> ''0'' then None
         else case rest of
                [] \<Rightarrow> Some (signed (real (digits_val ds)), [])
              | c # r \<Rightarrow>
                  if c = CHR ''.'' then
                    (let fs = takeWhile is_digit r in
                     if fs = [] then None
                     else Some (signed (real (digits_val ds) + real (digits_val fs) / 10 ^ length fs), dropWhile is_digit r))
                  else Some (signed (real (digits_val ds)), rest))"

definition quote :: char where
  "quote = CHR 0x22"

definition json_string :: "string \<Rightarrow> (string \<times> string) option" where
  "json_string s =
     (if s = [] \<or> hd s \<noteq> quote then None
      else let str = takeWhile (\<lambda>c. c \<noteq> quote) (tl s); rest = dropWhile (\<lambda>c. c \<noteq> quote) (tl s)
           in if rest = [] \<or> CHR 0x5C \<in> set str then None else Some (str, tl rest))"

definition json_value :: "js_env \<Rightarrow> string \<Rightarrow> (json \<times> string) option" where
  "json_value J s =
     (if s \<noteq> [] \<and> hd s = quote then map_option (\<lambda>(str, rest). (JStr str, rest)) (json_string s)
      else map_option (\<lambda>(x, rest). (JNum (js_round J x), rest)) (json_number s))"

text \<open>The pairs up to the closing brace; the first argument bounds their number.\<close>

fun json_pairs :: "js_env \<Rightarrow> nat \<Rightarrow> string \<Rightarrow> (json_object \<times> string) option" where
  "json_pairs J 0 s = None"
| "json_pairs J (Suc n) s =
     (case json_string s of
        Some (k, c # r) \<Rightarrow>
          if c \<noteq> CHR '':'' then None
          else (case json_value J r of
                  Some (v, c' # r') \<Rightarrow>
                    if c' = CHR ''}'' then Some ([(k, v)], r')
                    else if c' = CHR '','' then map_option (\<lambda>(ps, rest). ((k, v) # ps, rest)) (json_pairs J n r')
                    else None
                | _ \<Rightarrow> None)
      | _ \<Rightarrow> None)"

definition json_parse :: "js_env \<Rightarrow> string \<Rightarrow> json_object option" where
  "json_parse J s =
     (if s = ''{}'' then Some []
      else if s = [] \<or> hd s \<noteq> CHR ''{'' then None
      else case json_pairs J (length s) (tl s) of Some (ps, []) \<Rightarrow> Some ps | _ \<Rightarrow> None)"

text \<open>\<open>Number.prototype.toFixed\<close>: the nearest decimal with that many digits, the larger one of two; huge numbers are written out.\<close>

definition pad :: "nat \<Rightarrow> string \<Rightarrow> string" where
  "pad n s = replicate (n - length s) (CHR ''0'') @ s"

definition fixed_digits :: "nat \<Rightarrow> nat \<Rightarrow> string" where
  "fixed_digits d n =
     (if d = 0 then nat_digits n else nat_digits (n div 10 ^ d) @ ''.'' @ pad d (nat_digits (n mod 10 ^ d)))"

definition to_fixed :: "js_env \<Rightarrow> nat \<Rightarrow> real \<Rightarrow> string" where
  "to_fixed J d x =
     (if 10 ^ 21 \<le> \<bar>x\<bar> then js_number J x
      else (if x < 0 then ''-'' else []) @ fixed_digits d (nat \<lfloor>\<bar>x\<bar> * 10 ^ d + 1 / 2\<rfloor>))"

definition js_string :: "js_env \<Rightarrow> real \<Rightarrow> string" where
  "js_string J x = (if of_int \<lfloor>x\<rfloor> = x \<and> \<bar>x\<bar> < 10 ^ 21 then to_string \<lfloor>x\<rfloor> else js_number J x)"

section \<open>Fetching\<close>

datatype http_answer = NetworkError string | HttpAnswer int string

definition res_ok :: "int \<Rightarrow> bool" where
  "res_ok status \<longleftrightarrow> 200 \<le> status \<and> status \<le> 299"

definition fetchStats :: "js_env \<Rightarrow> http_answer \<Rightarrow> string + json_object" where
  "fetchStats J r =
     (case r of
        NetworkError msg \<Rightarrow> Inl msg
      | HttpAnswer status body \<Rightarrow>
          if \<not> res_ok status then Inl (''HTTP '' @ to_string status)
          else case json_parse J body of None \<Rightarrow> Inl (js_syntax J body) | Some obj \<Rightarrow> Inr obj)"

definition STATS_PATH :: string where
  "STATS_PATH = ''/api/stats''"

text \<open>
  The path that reaches the metrics server. A request with a base URL goes there directly. One without is sent to
  nginx or to the development server, and both strip the prefix.
\<close>

definition proxied :: "string \<Rightarrow> string" where
  "proxied path = (if take 5 path = ''/api/'' then drop 4 path else path)"

section \<open>State and polling\<close>

definition HISTORY_LEN :: nat where
  "HISTORY_LEN = 60"

record app =
  a_stats :: "json_object option"
  a_history :: "(json_object \<times> string) list"
  a_error :: "string option"
  a_last_update :: string

definition app_init :: app where
  "app_init = \<lparr>a_stats = None, a_history = [], a_error = None, a_last_update = []\<rparr>"

text \<open>\<open>slice\<close> with a negative start.\<close>

definition slice_last :: "nat \<Rightarrow> 'a list \<Rightarrow> 'a list" where
  "slice_last n xs = drop (length xs - n) xs"

text \<open>
  A poll, with the answer to its request and the time of day at which it came. A poll changes the state only after its
  answer has come, so a sequence of polls is one in the order of the answers.
\<close>

definition poll :: "js_env \<Rightarrow> http_answer \<Rightarrow> string \<Rightarrow> app \<Rightarrow> app" where
  "poll J r ts a =
     (case fetchStats J r of
        Inr s \<Rightarrow> a\<lparr>a_stats := Some s, a_error := None, a_last_update := ts,
                    a_history := slice_last (HISTORY_LEN - 1) (a_history a) @ [(s, ts)]\<rparr>
      | Inl msg \<Rightarrow> a\<lparr>a_error := Some msg\<rparr>)"

section \<open>Rendering\<close>

definition dash :: string where
  "dash = [CHR 0xE2, CHR 0x80, CHR 0x94]"

text \<open>Reading a property of the statistics; \<open>toFixed\<close> on what is not a number is a type error (\<open>None\<close>).\<close>

definition num :: "json_object \<Rightarrow> string \<Rightarrow> real option" where
  "num obj key = (case map_of obj key of Some (JNum x) \<Rightarrow> Some x | _ \<Rightarrow> None)"

definition fmt :: "js_env \<Rightarrow> nat \<Rightarrow> real \<Rightarrow> string" where
  "fmt J decimals n =
     (if 1000000000 \<le> n then to_fixed J 1 (js_round J (n / 1000000000)) @ ''B''
      else if 1000000 \<le> n then to_fixed J 1 (js_round J (n / 1000000)) @ ''M''
      else if 1000 \<le> n then to_fixed J 1 (js_round J (n / 1000)) @ ''K''
      else to_fixed J decimals n)"

definition js_show :: "js_env \<Rightarrow> json option \<Rightarrow> string" where
  "js_show J v = (case v of None \<Rightarrow> ''undefined'' | Some (JNum x) \<Rightarrow> js_string J x | Some (JStr s) \<Rightarrow> s)"

text \<open>\<open>stats?.key ?? 0\<close>\<close>

definition num_or_zero :: "app \<Rightarrow> string \<Rightarrow> real option" where
  "num_or_zero a key =
     (case a_stats a of None \<Rightarrow> Some 0
      | Some obj \<Rightarrow> if map_of obj key = None then Some 0 else num obj key)"

record card =
  card_label :: string
  card_value :: string
  card_sub :: "string option"

definition percent :: string where
  "percent = ''%''"

text \<open>The six cards; \<open>None\<close> if rendering throws.\<close>

definition stat_cards :: "js_env \<Rightarrow> app \<Rightarrow> card list option" where
  "stat_cards J a =
     (case (num_or_zero a ''total_hits'', num_or_zero a ''total_misses'') of
        (Some hits, Some misses) \<Rightarrow>
          (let sub = Some (fmt J 0 hits @ '' hits / '' @ fmt J 0 misses @ '' misses'');
               cards = (\<lambda>conns keys cps hit avg mem.
                 [\<lparr>card_label = ''Active connections'', card_value = conns, card_sub = None\<rparr>,
                  \<lparr>card_label = ''Keys stored'', card_value = keys, card_sub = None\<rparr>,
                  \<lparr>card_label = ''Commands/sec'', card_value = cps, card_sub = None\<rparr>,
                  \<lparr>card_label = ''Hit rate'', card_value = hit @ percent, card_sub = sub\<rparr>,
                  \<lparr>card_label = ''Avg latency'', card_value = avg, card_sub = None\<rparr>,
                  \<lparr>card_label = ''Memory'', card_value = mem, card_sub = Some ''estimated RSS''\<rparr>])
           in case a_stats a of
                None \<Rightarrow> Some (cards dash dash dash dash dash dash)
              | Some s \<Rightarrow>
                  (case (num s ''key_count'', num s ''commands_per_sec'', num s ''hit_rate'', num s ''avg_latency_us'',
                         num s ''memory_bytes'') of
                     (Some keys, Some cps, Some hit, Some avg, Some mem) \<Rightarrow>
                       Some (cards (js_show J (map_of s ''active_connections'')) (fmt J 0 keys) (fmt J 0 cps)
                         (to_fixed J 1 (js_round J (hit * 100)))
                         (to_fixed J 1 avg @ '' '' @ [CHR 0xCE, CHR 0xBC] @ ''s'')
                         (to_fixed J 1 (js_round J (js_round J (mem / 1024) / 1024)) @ '' MB''))
                   | _ \<Rightarrow> None))
      | _ \<Rightarrow> None)"

text \<open>An empty error message counts as no error.\<close>

definition status_line :: "app \<Rightarrow> string" where
  "status_line a = (case a_error a of
        Some (c # cs) \<Rightarrow> ''error: '' @ c # cs
      | _ \<Rightarrow> ''updated '' @ a_last_update a)"

end
