(* ===== verification/Http_Correct.thy ===== *)
theory Http_Correct
  imports Http_Server Resp_Parser
begin

text \<open>
  Responses of the metrics server as a client reads them: header lines up to the first empty line, then
  the body. The reader is a reference definition, independent of how the response is written.
\<close>

section \<open>Reading a response\<close>

function header_lines :: "string \<Rightarrow> (string list \<times> string) option" where
  "header_lines s =
     (case find_crlf s of
        None \<Rightarrow> None
      | Some n \<Rightarrow>
          if n = 0 then Some ([], drop 2 s)
          else map_option (\<lambda>(lines, body). (take n s # lines, body)) (header_lines (drop (n + 2) s)))"
  by pat_completeness auto
termination
  by (relation "measure length") (auto dest: find_crlf_length)

declare header_lines.simps [simp del]

lemma header_lines_line:
  assumes "CR \<notin> set l" and "l \<noteq> []"
  shows "header_lines (l @ crlf @ rest) = map_option (\<lambda>(lines, body). (l # lines, body)) (header_lines rest)"
  using assms find_crlf_no_CR [OF assms(1), of rest] header_lines.simps [of "l @ crlf @ rest"]
  by (simp add: crlf_def)

lemma header_lines_blank: "header_lines (crlf @ body) = Some ([], body)"
  using find_crlf_no_CR [of "[]" body] header_lines.simps [of "crlf @ body"] by (simp add: crlf_def)

lemma header_lines_lines:
  assumes "\<forall>l\<in>set ls. CR \<notin> set l \<and> l \<noteq> []"
  shows "header_lines (concat (map (\<lambda>l. l @ crlf) ls) @ crlf @ body) = Some (ls, body)"
  using assms
proof (induction ls)
  case (Cons l ls)
  with header_lines_line [of l "concat (map (\<lambda>l. l @ crlf) ls) @ crlf @ body"] show ?case by simp
qed (simp add: header_lines_blank)

lemma header_lines_response:
  assumes "decimal_fmt e" and "CR \<notin> set content_type"
  shows "header_lines (http_response e content_type body) =
           Some ([''HTTP/1.1 200 OK'', ''Content-Type: '' @ content_type, ''Content-Length: '' @ to_string (int (length body)),
                  ''Access-Control-Allow-Origin: *'', ''Connection: close''], body)" (is "_ = Some (?ls, body)")
proof -
  have "\<forall>l\<in>set ?ls. CR \<notin> set l \<and> l \<noteq> []" using assms(2) by simp
  then have "header_lines (concat (map (\<lambda>l. l @ crlf) ?ls) @ crlf @ body) = Some (?ls, body)" by (rule header_lines_lines)
  moreover have "http_response e content_type body = concat (map (\<lambda>l. l @ crlf) ?ls) @ crlf @ body"
    using assms(1) by (simp add: http_response_def decimal_fmt_def)
  ultimately show ?thesis by simp
qed

section \<open>Property\<close>

text \<open>
  C35: Framing of HTTP responses. Whatever a client sends, if the metrics server answers, then reading header
  lines up to the first empty line gives exactly the five header lines, the declared content length is
  the number of bytes that follow, and these are the body that the route of the requested path produced.
\<close>

theorem http_response_framed:
  assumes "decimal_fmt e" and "handle_client e E now received m = Inr (Some resp, m')"
  shows "\<exists>meth path rest body content_type.
           next_word (take 2047 received) = (meth, rest) \<and> path = fst (next_word rest) \<and>
           route e E now meth path m = Inr (body, m') \<and>
           (content_type = ''application/json'' \<longleftrightarrow> path \<noteq> ''/metrics'') \<and>
           header_lines resp =
             Some ([''HTTP/1.1 200 OK'', ''Content-Type: '' @ content_type, ''Content-Length: '' @ to_string (int (length body)),
                    ''Access-Control-Allow-Origin: *'', ''Connection: close''], body)"
proof -
  obtain meth rest where w1: "next_word (take 2047 received) = (meth, rest)" by force
  obtain path rest' where w2: "next_word rest = (path, rest')" by force
  let ?ct = "if path = ''/metrics'' then ''text/plain; version=0.0.4; charset=utf-8'' else ''application/json''"
  from assms(2) w1 w2 obtain body where r: "route e E now meth path m = Inr (body, m')" "resp = http_response e ?ct body"
    by (auto simp: handle_client_def Let_def split: if_splits)
  have "CR \<notin> set ?ct" by simp
  from header_lines_response [OF assms(1) this, of body] r w1 w2 show ?thesis
    by (intro exI [of _ meth] exI [of _ path] exI [of _ rest] exI [of _ body] exI [of _ ?ct]) simp
qed

theorem http_response_framed_witness:
  "\<exists>resp. handle_client sample_externals \<lparr>fl = (\<lambda>x. x), fmt_fixed = (\<lambda>n x. [])\<rparr> 0 ''GET /health HTTP/1.1'' metrics_init =
            Inr (Some resp, metrics_init) \<and>
          map_option snd (header_lines resp) = Some ''{\"status\":\"ok\"}''"
proof -
  let ?E = "\<lparr>fl = (\<lambda>x. x), fmt_fixed = (\<lambda>n x. [])\<rparr>"
  have w: "next_word (take 2047 ''GET /health HTTP/1.1'') = (''GET'', '' /health HTTP/1.1'')" "next_word '' /health HTTP/1.1'' = (''/health'', '' HTTP/1.1'')"
    by (simp_all add: next_word_def is_space_def)
  then obtain resp where r: "handle_client sample_externals ?E 0 ''GET /health HTTP/1.1'' metrics_init = Inr (Some resp, metrics_init)"
    by (simp add: handle_client_def route_def)
  from http_response_framed [OF decimal_fmt_sample r] w have "map_option snd (header_lines resp) = Some ''{\"status\":\"ok\"}''"
    by (auto simp: route_def)
  with r show ?thesis by blast
qed

end
