(* ===== verification/Dashboard_Correct.thy ===== *)
theory Dashboard_Correct
  imports Dashboard Http_Correct
begin

text \<open>
  The dashboard shows what the server counted: the statistics document that the metrics server writes is
  read back field by field, and the chart data is the window of the last sixty successful polls.
\<close>

section \<open>Reading numbers\<close>

lemma takeWhile_digits: "\<forall>c\<in>set ds. is_digit c \<Longrightarrow> \<not> is_digit c \<Longrightarrow> takeWhile is_digit (ds @ c # r) = ds"
  and dropWhile_digits: "\<forall>c\<in>set ds. is_digit c \<Longrightarrow> \<not> is_digit c \<Longrightarrow> dropWhile is_digit (ds @ c # r) = c # r"
  by (induction ds) auto

lemma nat_digits_hd: "n \<noteq> 0 \<Longrightarrow> hd (nat_digits n) \<noteq> CHR ''0''"
proof (induction n rule: nat_digits.induct)
  case (1 n)
  show ?case
  proof (cases "n < 10")
    case True
    have "digit_char n \<noteq> CHR ''0''"
    proof
      assume "digit_char n = CHR ''0''"
      then have "(of_char (digit_char n) :: nat) = of_char (CHR ''0'')" by simp
      with True "1.prems" show False by simp
    qed
    with True show ?thesis by (subst nat_digits.simps) simp
  next
    case False
    with "1.IH" have "hd (nat_digits (n div 10)) \<noteq> CHR ''0''" by simp
    with False show ?thesis by (subst nat_digits.simps) simp
  qed
qed

lemma nat_digits_canonical: "\<not> (hd (nat_digits n) = CHR ''0'' \<and> nat_digits n \<noteq> ''0'')"
proof (cases "n = 0")
  case True
  have "nat_digits 0 = ''0''" by code_simp
  with True show ?thesis by simp
qed (simp add: nat_digits_hd)

text \<open>A literal is read up to the comma or brace that follows it.\<close>

definition reads :: "string \<Rightarrow> real \<Rightarrow> bool" where
  "reads lit x \<longleftrightarrow> lit \<noteq> [] \<and> hd lit \<noteq> quote \<and> (\<forall>c\<in>{CHR '','', CHR ''}''}. \<forall>r. json_number (lit @ c # r) = Some (x, c # r))"

lemma separators [simp]: "\<not> is_digit (CHR '','')" "\<not> is_digit (CHR ''}'')" "\<not> is_digit (CHR ''.'')" "\<not> is_digit (CHR ''-'')"
  "\<not> is_digit quote"
  by (simp_all add: is_digit_def quote_def)

lemma all_digits: "\<forall>c\<in>set (nat_digits n). is_digit c"
  using nat_digits_is_digit by blast

lemma json_number_int:
  assumes "\<not> is_digit c" and "c \<noteq> CHR ''.''"
  shows "json_number (nat_digits n @ c # r) = Some (real n, c # r)"
    and "json_number (CHR ''-'' # nat_digits n @ c # r) = Some (- real n, c # r)"
proof -
  have "hd (nat_digits n @ c # r) \<noteq> CHR ''-''" using hd_nat_digits [of n] by (auto simp: hd_append)
  with takeWhile_digits [OF all_digits assms(1)] dropWhile_digits [OF all_digits assms(1)] nat_digits_canonical [of n] assms(2)
  show "json_number (nat_digits n @ c # r) = Some (real n, c # r)"
    and "json_number (CHR ''-'' # nat_digits n @ c # r) = Some (- real n, c # r)"
    by (auto simp: json_number_def Let_def)
qed

lemma reads_to_string: "reads (to_string i) (of_int i)"
proof (cases "i < 0")
  case True
  with json_number_int(2) [of _ "nat (- i)"] show ?thesis by (auto simp: reads_def to_string_def quote_def)
next
  case False
  have "hd (nat_digits (nat i)) \<noteq> quote" using hd_nat_digits [of "nat i"] by auto
  with False json_number_int(1) [of _ "nat i"] show ?thesis by (auto simp: reads_def to_string_def)
qed

lemma pad_digits: "\<forall>c\<in>set (pad d (nat_digits n)). is_digit c" "pad d (nat_digits n) \<noteq> []"
  "digits_val (pad d (nat_digits n)) = n"
proof -
  show "\<forall>c\<in>set (pad d (nat_digits n)). is_digit c" using nat_digits_is_digit by (auto simp: pad_def is_digit_def)
  show "pad d (nat_digits n) \<noteq> []" by (simp add: pad_def)
  have "digits_val (replicate k (CHR ''0'') @ ds) = digits_val ds" for k ds
    by (induction k) (simp_all add: digits_val_def digit_val_def)
  then show "digits_val (pad d (nat_digits n)) = n" by (simp add: pad_def)
qed

lemma length_nat_digits: "n < 10 ^ d \<Longrightarrow> 0 < d \<Longrightarrow> length (nat_digits n) \<le> d"
proof (induction n arbitrary: d rule: nat_digits.induct)
  case (1 n)
  show ?case
  proof (cases "n < 10")
    case True
    with "1.prems"(2) show ?thesis by (subst nat_digits.simps) simp
  next
    case False
    obtain d' where d: "d = Suc d'" using "1.prems"(2) by (cases d) auto
    with False "1.prems"(1) have "0 < d'" by (cases d') auto
    moreover have "n div 10 < 10 ^ d'" using "1.prems"(1) d by (simp add: less_mult_imp_div_less mult.commute)
    ultimately have "length (nat_digits (n div 10)) \<le> d'" using False by (intro "1.IH")
    with False d show ?thesis by (subst nat_digits.simps) simp
  qed
qed

lemma length_pad: "n < 10 ^ d \<Longrightarrow> 0 < d \<Longrightarrow> length (pad d (nat_digits n)) = d"
  using length_nat_digits [of n d] by (simp add: pad_def)

lemma json_number_fraction:
  assumes ds: "\<forall>x\<in>set ds. is_digit x" "ds \<noteq> []" "\<not> (hd ds = CHR ''0'' \<and> ds \<noteq> ''0'')"
    and fs: "\<forall>x\<in>set fs. is_digit x" "fs \<noteq> []" and c: "\<not> is_digit c"
  shows "json_number (ds @ CHR ''.'' # fs @ c # r) =
           Some (real (digits_val ds) + real (digits_val fs) / 10 ^ length fs, c # r)"
proof -
  have "hd (ds @ CHR ''.'' # fs @ c # r) \<noteq> CHR ''-''" using ds(1,2) by (cases ds) auto
  moreover have "takeWhile is_digit (ds @ CHR ''.'' # fs @ c # r) = ds"
    and "dropWhile is_digit (ds @ CHR ''.'' # fs @ c # r) = CHR ''.'' # fs @ c # r"
    using takeWhile_digits [OF ds(1)] dropWhile_digits [OF ds(1)] by simp_all
  moreover have "takeWhile is_digit (fs @ c # r) = fs" "dropWhile is_digit (fs @ c # r) = c # r"
    using takeWhile_digits [OF fs(1) c] dropWhile_digits [OF fs(1) c] by simp_all
  ultimately show ?thesis using ds(2,3) fs(2) unfolding json_number_def Let_def by simp
qed

lemma reads_fixed:
  assumes "0 < d"
  shows "reads (fixed_digits d n) (real n / 10 ^ d)"
proof -
  define a b where "a = n div 10 ^ d" and "b = n mod 10 ^ d"
  have "n = a * 10 ^ d + b" unfolding a_def b_def by (rule div_mult_mod_eq [symmetric])
  then have "real n = real a * 10 ^ d + real b" by simp
  then have n: "real n / 10 ^ d = real a + real b / 10 ^ d" by (simp add: field_simps)
  have "b < 10 ^ d" by (simp add: b_def)
  then have len: "length (pad d (nat_digits b)) = d" using assms by (rule length_pad)
  have lit: "fixed_digits d n = nat_digits a @ CHR ''.'' # pad d (nat_digits b)"
    using assms by (simp add: fixed_digits_def a_def b_def)
  have "json_number (fixed_digits d n @ c # r) = Some (real n / 10 ^ d, c # r)" if c: "\<not> is_digit c" for c r
    using json_number_fraction [OF all_digits [of a] _ nat_digits_canonical pad_digits(1,2) [of d b] c, of r]
    unfolding lit n len pad_digits(3) by simp
  moreover have "hd (nat_digits a) \<noteq> quote" using hd_nat_digits [of a] by auto
  ultimately show ?thesis by (auto simp: reads_def lit)
qed

section \<open>Reading the document\<close>

fun json_text :: "(string \<times> string) list \<Rightarrow> string" where
  "json_text [] = []"
| "json_text [(k, lit)] = quote # k @ quote # CHR '':'' # lit"
| "json_text ((k, lit) # p # ps) = quote # k @ quote # CHR '':'' # lit @ CHR '','' # json_text (p # ps)"

definition plain_key :: "string \<Rightarrow> bool" where
  "plain_key k \<longleftrightarrow> quote \<notin> set k \<and> CHR 0x5C \<notin> set k"

lemma json_string_plain:
  assumes "plain_key k"
  shows "json_string (quote # k @ quote # r) = Some (k, r)"
proof -
  have "\<And>c. c \<in> set k \<Longrightarrow> c \<noteq> quote" using assms by (auto simp: plain_key_def)
  then have "takeWhile (\<lambda>c. c \<noteq> quote) (k @ quote # r) = k" "dropWhile (\<lambda>c. c \<noteq> quote) (k @ quote # r) = quote # r"
    by (simp_all add: takeWhile_append2 dropWhile_append2)
  with assms show ?thesis by (simp add: json_string_def plain_key_def)
qed

lemma json_value_reads:
  "reads lit x \<Longrightarrow> c = CHR '','' \<or> c = CHR ''}'' \<Longrightarrow> json_value J (lit @ c # r) = Some (JNum (js_round J x), c # r)"
  by (auto simp: reads_def json_value_def hd_append)

lemma json_pairs_text:
  assumes "ps \<noteq> []" and "\<forall>(k, lit, x)\<in>set ps. plain_key k \<and> reads lit x" and "length ps \<le> n"
  shows "json_pairs J n (json_text (map (\<lambda>(k, lit, x). (k, lit)) ps) @ ''}'') =
           Some (map (\<lambda>(k, lit, x). (k, JNum (js_round J x))) ps, [])"
  using assms
proof (induction ps arbitrary: n)
  case (Cons p ps)
  obtain k lit x where p: "p = (k, lit, x)" by (cases p)
  obtain m where n: "n = Suc m" using Cons.prems(3) by (cases n) auto
  have k: "plain_key k" "reads lit x" using Cons.prems(2) p by auto
  show ?case
  proof (cases ps)
    case Nil
    with p n json_string_plain [OF k(1)] json_value_reads [OF k(2), of "CHR ''}''" J "[]"] show ?thesis by simp
  next
    case (Cons q qs)
    then have "json_pairs J m (json_text (map (\<lambda>(k, lit, x). (k, lit)) ps) @ ''}'') =
        Some (map (\<lambda>(k, lit, x). (k, JNum (js_round J x))) ps, [])"
      using Cons.IH [of m] Cons.prems n by auto
    with p n Cons json_string_plain [OF k(1)] json_value_reads [OF k(2), of "CHR '',''" J] show ?thesis
      by (cases q) simp
  qed
qed simp

lemma length_json_text: "length ps \<le> length (json_text ps)"
  by (induction ps rule: json_text.induct) auto

lemma json_parse_text:
  assumes "ps \<noteq> []" and "\<forall>(k, lit, x)\<in>set ps. plain_key k \<and> reads lit x"
  shows "json_parse J (''{'' @ json_text (map (\<lambda>(k, lit, x). (k, lit)) ps) @ ''}'') =
           Some (map (\<lambda>(k, lit, x). (k, JNum (js_round J x))) ps)"
proof -
  let ?t = "json_text (map (\<lambda>(k, lit, x). (k, lit)) ps)"
  have "length ps \<le> length ?t" using length_json_text [of "map (\<lambda>(k, lit, x). (k, lit)) ps"] by simp
  moreover from this assms(1) have "?t \<noteq> []" by auto
  ultimately show ?thesis using json_pairs_text [OF assms, of "length (''{'' @ ?t @ ''}'')" J] by (simp add: json_parse_def)
qed

text \<open>
  Fixed-point formatting of a number that is not negative: a decimal of that many digits within half a unit
  of the last one.
\<close>

definition fixed_fmt :: "float_env \<Rightarrow> bool" where
  "fixed_fmt E \<longleftrightarrow>
     (\<forall>d x. 0 < d \<and> 0 \<le> x \<longrightarrow> (\<exists>n. fmt_fixed E d x = fixed_digits d n \<and> \<bar>real n / 10 ^ d - x\<bar> \<le> 1 / (2 * 10 ^ d)))"

lemma fixed_fmt_reads:
  assumes "fixed_fmt E" and "0 < d" and "0 \<le> x"
  obtains y where "reads (fmt_fixed E d x) y" and "\<bar>y - x\<bar> \<le> 1 / (2 * 10 ^ d)"
  using assms reads_fixed [OF assms(2)] unfolding fixed_fmt_def by metis

text \<open>The object that the statistics document stands for, with the two fractions as they were printed.\<close>

definition stats_object :: "js_env \<Rightarrow> snapshot \<Rightarrow> real \<Rightarrow> real \<Rightarrow> json_object" where
  "stats_object J s avg rate =
     [(''total_commands'', JNum (js_round J (of_int (snap_total_commands s)))),
      (''total_hits'', JNum (js_round J (of_int (snap_total_hits s)))),
      (''total_misses'', JNum (js_round J (of_int (snap_total_misses s)))),
      (''active_connections'', JNum (js_round J (of_int (snap_active_connections s)))),
      (''key_count'', JNum (js_round J (of_int (snap_key_count s)))),
      (''memory_bytes'', JNum (js_round J (of_int (snap_memory_bytes s)))),
      (''avg_latency_us'', JNum (js_round J avg)),
      (''hit_rate'', JNum (js_round J rate)),
      (''commands_per_sec'', JNum (js_round J (of_int (snap_commands_per_sec s))))]"

lemma json_parse_stats:
  assumes "decimal_fmt e" and avg: "reads (fmt_fixed E 2 (avg_latency_us s)) avg" and rate: "reads (fmt_fixed E 4 (hit_rate s)) rate"
  shows "json_parse J (stats_json e E s) = Some (stats_object J s avg rate)"
proof -
  define ps where "ps =
     [(''total_commands'', to_string (snap_total_commands s), of_int (snap_total_commands s)),
      (''total_hits'', to_string (snap_total_hits s), of_int (snap_total_hits s)),
      (''total_misses'', to_string (snap_total_misses s), of_int (snap_total_misses s)),
      (''active_connections'', to_string (snap_active_connections s), of_int (snap_active_connections s)),
      (''key_count'', to_string (snap_key_count s), of_int (snap_key_count s)),
      (''memory_bytes'', to_string (snap_memory_bytes s), of_int (snap_memory_bytes s)),
      (''avg_latency_us'', fmt_fixed E 2 (avg_latency_us s), avg),
      (''hit_rate'', fmt_fixed E 4 (hit_rate s), rate),
      (''commands_per_sec'', to_string (snap_commands_per_sec s), of_int (snap_commands_per_sec s))]"
  have "\<forall>(k, lit, x)\<in>set ps. plain_key k \<and> reads lit x"
    using avg rate by (simp add: ps_def plain_key_def quote_def reads_to_string)
  moreover have "ps \<noteq> []" by (simp add: ps_def)
  moreover have "stats_json e E s = ''{'' @ json_text (map (\<lambda>(k, lit, x). (k, lit)) ps) @ ''}''"
    using assms(1) by (simp add: ps_def stats_json_def decimal_fmt_def quote_def)
  ultimately show ?thesis using json_parse_text [of ps J] by (simp add: ps_def stats_object_def)
qed

text \<open>The request that the proxy passes on.\<close>

definition stats_request :: "string \<Rightarrow> string \<Rightarrow> string" where
  "stats_request path headers = ''GET '' @ path @ '' HTTP/1.1'' @ crlf @ headers"

lemma proxied_stats: "proxied STATS_PATH = ''/stats''"
  by (simp add: proxied_def STATS_PATH_def)

lemma handle_client_stats:
  assumes "decimal_fmt e" and "metrics_snapshot E now m = Inr (s, m')"
  obtains resp lines where "handle_client e E now (stats_request ''/stats'' headers) m = Inr (Some resp, m')"
    and "header_lines resp = Some (''HTTP/1.1 200 OK'' # lines, stats_json e E s)"
proof -
  let ?resp = "http_response e ''application/json'' (stats_json e E s)"
  have "handle_client e E now (stats_request ''/stats'' headers) m = Inr (Some ?resp, m')"
    using assms(2) by (simp add: handle_client_def stats_request_def next_word_def is_space_def route_def)
  moreover have "CR \<notin> set ''application/json''" by simp
  ultimately show thesis using header_lines_response [OF assms(1), of "''application/json''" "stats_json e E s"] that by simp
qed

lemma stat_cards_object:
  assumes "a_stats a = Some (stats_object J s avg rate)"
  shows "map_option (map card_value) (stat_cards J a) =
           Some [js_string J (js_round J (of_int (snap_active_connections s))),
                 fmt J 0 (js_round J (of_int (snap_key_count s))),
                 fmt J 0 (js_round J (of_int (snap_commands_per_sec s))),
                 to_fixed J 1 (js_round J (js_round J rate * 100)) @ ''%'',
                 to_fixed J 1 (js_round J avg) @ '' '' @ [CHR 0xCE, CHR 0xBC] @ ''s'',
                 to_fixed J 1 (js_round J (js_round J (js_round J (of_int (snap_memory_bytes s)) / 1024) / 1024)) @ '' MB'']"
  using assms by (simp add: stat_cards_def num_or_zero_def num_def stats_object_def js_show_def percent_def)

text \<open>Rounding to the nearest decimal is such a formatting.\<close>

definition nearest_fmt :: float_env where
  "nearest_fmt = \<lparr>fl = (\<lambda>x. x), fmt_fixed = (\<lambda>d x. fixed_digits d (nat \<lfloor>x * 10 ^ d + 1 / 2\<rfloor>))\<rparr>"

lemma fixed_fmt_nearest: "fixed_fmt nearest_fmt"
proof -
  have "\<bar>real (nat \<lfloor>x * 10 ^ d + 1 / 2\<rfloor>) / 10 ^ d - x\<bar> \<le> 1 / (2 * 10 ^ d)" if "0 \<le> x" for d and x :: real
  proof -
    define y where "y = x * 10 ^ d"
    have "0 \<le> y" using that by (simp add: y_def)
    then have "\<bar>real (nat \<lfloor>y + 1 / 2\<rfloor>) - y\<bar> \<le> 1 / 2" by linarith
    moreover have "real (nat \<lfloor>y + 1 / 2\<rfloor>) / 10 ^ d - x = (real (nat \<lfloor>y + 1 / 2\<rfloor>) - y) / 10 ^ d" by (simp add: y_def field_simps)
    ultimately show ?thesis unfolding y_def [symmetric] by (simp add: abs_divide field_simps)
  qed
  then show ?thesis by (auto simp: fixed_fmt_def nearest_fmt_def)
qed

definition sample_js :: js_env where
  "sample_js = \<lparr>js_round = (\<lambda>x. x), js_number = (\<lambda>x. []), js_syntax = (\<lambda>s. ''Unexpected token'')\<rparr>"

section \<open>The window\<close>

definition polls :: "js_env \<Rightarrow> (http_answer \<times> string) list \<Rightarrow> app" where
  "polls J rs = fold (\<lambda>(r, ts). poll J r ts) rs app_init"

fun fetched :: "js_env \<Rightarrow> (http_answer \<times> string) list \<Rightarrow> (json_object \<times> string) list" where
  "fetched J [] = []"
| "fetched J ((r, ts) # rs) = (case fetchStats J r of Inr s \<Rightarrow> (s, ts) # fetched J rs | Inl msg \<Rightarrow> fetched J rs)"

lemma fetched_append: "fetched J (xs @ ys) = fetched J xs @ fetched J ys"
  by (induction J xs rule: fetched.induct) (simp_all split: sum.split)

lemma polls_snoc: "polls J (rs @ [(r, ts)]) = poll J r ts (polls J rs)"
  by (simp add: polls_def)

lemma window_snoc: "0 < n \<Longrightarrow> slice_last (n - 1) (drop (length xs - n) xs) @ [x] = drop (length (xs @ [x]) - n) (xs @ [x])"
  by (cases "length xs < n") (auto simp: slice_last_def not_less Suc_diff_le)

section \<open>Properties\<close>

text \<open>
  C23: What the dashboard shows is what the server counted. The request of a poll, with the path as the proxy rewrites
  it, is answered by the metrics server with the statistics document. After the poll the dashboard's state
  holds the nine counters of the server's snapshot, each rounded to a double, with the latency within half a
  hundredth and the hit rate within half a ten-thousandth. The error is cleared, the chart data ends in this object, and the
  cards show these values.
\<close>

theorem dashboard_shows_counters:
  assumes "decimal_fmt e" and "fixed_fmt E" and "metrics_snapshot E now m = Inr (s, m')"
    and "0 \<le> avg_latency_us s" and "0 \<le> hit_rate s"
  shows "\<exists>resp lines body avg rate.
           handle_client e E now (stats_request (proxied STATS_PATH) headers) m = Inr (Some resp, m') \<and>
           header_lines resp = Some (''HTTP/1.1 200 OK'' # lines, body) \<and>
           \<bar>avg - avg_latency_us s\<bar> \<le> 1 / 200 \<and> \<bar>rate - hit_rate s\<bar> \<le> 1 / 20000 \<and>
           (let a' = poll J (HttpAnswer 200 body) ts a; obj = stats_object J s avg rate in
            a_stats a' = Some obj \<and> a_error a' = None \<and> a_last_update a' = ts \<and>
            last (a_history a') = (obj, ts) \<and>
            map_option (map card_value) (stat_cards J a') =
              Some [js_string J (js_round J (of_int (snap_active_connections s))),
                    fmt J 0 (js_round J (of_int (snap_key_count s))),
                    fmt J 0 (js_round J (of_int (snap_commands_per_sec s))),
                    to_fixed J 1 (js_round J (js_round J rate * 100)) @ ''%'',
                    to_fixed J 1 (js_round J avg) @ '' '' @ [CHR 0xCE, CHR 0xBC] @ ''s'',
                    to_fixed J 1 (js_round J (js_round J (js_round J (of_int (snap_memory_bytes s)) / 1024) / 1024)) @ '' MB''])"
proof -
  obtain avg where avg: "reads (fmt_fixed E 2 (avg_latency_us s)) avg" "\<bar>avg - avg_latency_us s\<bar> \<le> 1 / (2 * 10 ^ 2)"
    using fixed_fmt_reads [OF assms(2) _ assms(4), of 2] by auto
  obtain rate where rate: "reads (fmt_fixed E 4 (hit_rate s)) rate" "\<bar>rate - hit_rate s\<bar> \<le> 1 / (2 * 10 ^ 4)"
    using fixed_fmt_reads [OF assms(2) _ assms(5), of 4] by auto
  obtain resp lines where r: "handle_client e E now (stats_request ''/stats'' headers) m = Inr (Some resp, m')"
    "header_lines resp = Some (''HTTP/1.1 200 OK'' # lines, stats_json e E s)"
    using handle_client_stats [OF assms(1,3)] by blast
  define a' where "a' = poll J (HttpAnswer 200 (stats_json e E s)) ts a"
  have a': "a_stats a' = Some (stats_object J s avg rate)" "a_error a' = None" "a_last_update a' = ts"
    "last (a_history a') = (stats_object J s avg rate, ts)"
    using json_parse_stats [OF assms(1) avg(1) rate(1), of J]
    by (simp_all add: a'_def poll_def fetchStats_def res_ok_def)
  show ?thesis
    unfolding proxied_stats Let_def
    using r avg(2) rate(2) a' stat_cards_object [OF a'(1)] unfolding a'_def
    by (intro exI [of _ resp] exI [of _ lines] exI [of _ "stats_json e E s"] exI [of _ avg] exI [of _ rate]) simp
qed

theorem dashboard_shows_counters_witness:
  "\<exists>resp lines body avg rate m'.
     handle_client sample_externals nearest_fmt 50
       (stats_request ''/stats'' []) (metrics_init\<lparr>total_hits := 3, total_misses := 1, latency_ema_x100 := 1250, key_count := 7\<rparr>) =
         Inr (Some resp, m') \<and>
     header_lines resp = Some (''HTTP/1.1 200 OK'' # lines, body) \<and> \<bar>avg - 25 / 2\<bar> \<le> 1 / 200 \<and> \<bar>rate - 3 / 4\<bar> \<le> 1 / 20000 \<and>
     map_option (\<lambda>obj. map (num obj) [''total_hits'', ''total_misses'', ''key_count'', ''avg_latency_us'', ''hit_rate''])
       (a_stats (poll sample_js (HttpAnswer 200 body) ''noon'' app_init)) = Some [Some 3, Some 1, Some 7, Some avg, Some rate]"
proof -
  let ?m = "metrics_init\<lparr>total_hits := 3, total_misses := 1, latency_ema_x100 := 1250, key_count := 7\<rparr>"
  obtain s m' where s: "metrics_snapshot nearest_fmt 50 ?m = Inr (s, m')" "snap_total_hits s = 3" "snap_total_misses s = 1"
    "snap_key_count s = 7" "avg_latency_us s = 25 / 2" "hit_rate s = 3 / 4"
    by (simp add: metrics_snapshot_def metrics_init_def nearest_fmt_def add64_def sub64_def in_int64_def)
  from dashboard_shows_counters [OF decimal_fmt_sample fixed_fmt_nearest s(1), of "[]" sample_js "''noon''" app_init] s(2-)
  obtain resp lines body avg rate where
    "handle_client sample_externals nearest_fmt 50 (stats_request ''/stats'' []) ?m = Inr (Some resp, m')"
    "header_lines resp = Some (''HTTP/1.1 200 OK'' # lines, body)" "\<bar>avg - 25 / 2\<bar> \<le> 1 / 200" "\<bar>rate - 3 / 4\<bar> \<le> 1 / 20000"
    "a_stats (poll sample_js (HttpAnswer 200 body) ''noon'' app_init) = Some (stats_object sample_js s avg rate)"
    unfolding proxied_stats Let_def by auto
  with s(2-) show ?thesis
    by (intro exI [of _ resp] exI [of _ lines] exI [of _ body] exI [of _ avg] exI [of _ rate] exI [of _ m'])
      (simp add: num_def stats_object_def sample_js_def)
qed

text \<open>
  C36: The window of the charts. After any sequence of polls, successful or not, the chart data is the last sixty successful
  polls in order. The statistics shown and the time of the update are those of the last success. The error is that of
  the last poll, and a success clears it.
\<close>

theorem history_window:
  "let ok = fetched J rs; a = polls J rs in
     a_history a = drop (length ok - 60) ok \<and> length (a_history a) \<le> 60 \<and>
     a_stats a = (if ok = [] then None else Some (fst (last ok))) \<and>
     a_last_update a = (if ok = [] then [] else snd (last ok)) \<and>
     a_error a = (if rs = [] then None else case fetchStats J (fst (last rs)) of Inl msg \<Rightarrow> Some msg | Inr s \<Rightarrow> None)"
proof (induction rs rule: rev_induct)
  case Nil
  show ?case by (simp add: polls_def app_init_def)
next
  case (snoc p rs)
  obtain r ts where p: "p = (r, ts)" by (cases p)
  have "slice_last 59 (drop (length ok - 60) ok) @ [x] = drop (length (ok @ [x]) - 60) (ok @ [x])" for ok :: "(json_object \<times> string) list" and x
    using window_snoc [of 60 ok x] by simp
  with snoc p show ?case
    by (cases "fetchStats J r") (auto simp: polls_snoc fetched_append poll_def HISTORY_LEN_def Let_def)
qed

section \<open>Divergences\<close>

text \<open>
  With a base URL the request is not rewritten. The path \<open>/api/stats\<close> is none of the server's routes, and its answer has status 200.
  The poll takes the error document for statistics, and rendering throws.
\<close>

lemma direct_url_breaks_rendering:
  assumes "decimal_fmt e"
  shows "\<exists>resp lines body.
           handle_client e E now (stats_request STATS_PATH headers) m = Inr (Some resp, m) \<and>
           header_lines resp = Some (''HTTP/1.1 200 OK'' # lines, body) \<and>
           a_error (poll J (HttpAnswer 200 body) ts a) = None \<and> stat_cards J (poll J (HttpAnswer 200 body) ts a) = None"
proof -
  let ?body = "''{\"error\":\"not found\"}''"
  let ?resp = "http_response e ''application/json'' ?body"
  have "handle_client e E now (stats_request STATS_PATH headers) m = Inr (Some ?resp, m)"
    by (simp add: handle_client_def stats_request_def STATS_PATH_def next_word_def is_space_def route_def)
  moreover have "CR \<notin> set ''application/json''" by simp
  moreover have "json_parse J ?body = Some [(''error'', JStr ''not found'')]"
    by (simp add: json_parse_def json_string_def json_value_def quote_def)
  ultimately show ?thesis using header_lines_response [OF assms, of "''application/json''" ?body]
    by (intro exI [of _ ?resp] exI [of _ ?body])
      (auto simp: poll_def fetchStats_def res_ok_def stat_cards_def num_or_zero_def num_def)
qed

text \<open>A count just below a million is shown as a thousand thousands.\<close>

lemma fmt_rounds_past_unit: "fmt sample_js 0 999950 = ''1000.0K''"
proof -
  have "fmt sample_js 0 999950 = fixed_digits 1 10000 @ ''K''" by (simp add: fmt_def to_fixed_def sample_js_def)
  moreover have "digit_char 0 = CHR ''0''" "digit_char 1 = CHR ''1''" by code_simp+
  then have "fixed_digits 1 10000 = ''1000.0''" by (simp add: fixed_digits_def pad_def nat_digits.simps)
  ultimately show ?thesis by simp
qed

end
