(* ===== verification/Bench_Store.thy ===== *)
theory Bench_Store
  imports Store_Correct Config Metrics
begin

text \<open>
  The microbenchmark of the store (\<open>src/benchmarks/bench_store.cpp\<close>): the timed loops of \<open>bench_set\<close> and
  \<open>bench_get\<close>, the concurrent part of \<open>main\<close>, percentiles and printed report. The clock readings are arguments, and
  so are the random indices of the reads. The main results are that the reported percentiles are the
  order statistics of the measured latencies, and that the read benchmark reads only keys that are present.
\<close>

section \<open>Floating-point results\<close>

text \<open>A quotient of doubles may be infinite or not a number.\<close>

datatype double = Finite real | Infinite bool | NotANumber

definition fdiv :: "float_env \<Rightarrow> real \<Rightarrow> real \<Rightarrow> double" where
  "fdiv E a b = (if b \<noteq> 0 then Finite (fl E (a / b)) else if a = 0 then NotANumber else Infinite (a < 0))"

fun fadd :: "float_env \<Rightarrow> double \<Rightarrow> double \<Rightarrow> double" where
  "fadd E (Finite a) (Finite b) = Finite (fl E (a + b))"
| "fadd E (Infinite a) (Infinite b) = (if a = b then Infinite a else NotANumber)"
| "fadd E (Infinite a) (Finite b) = Infinite a"
| "fadd E (Finite a) (Infinite b) = Infinite b"
| "fadd E NotANumber y = NotANumber"
| "fadd E x NotANumber = NotANumber"

text \<open>\<open>static_cast<int>\<close>; a value that does not fit is undefined behaviour.\<close>

definition double_to_int :: "double \<Rightarrow> int result" where
  "double_to_int d =
     (case d of
        Finite x \<Rightarrow> (let n = (if x \<ge> 0 then \<lfloor>x\<rfloor> else \<lceil>x\<rceil>) in
                     if - (2 ^ 31) \<le> n \<and> n < 2 ^ 31 then Inr n else Inl BadConversion)
      | _ \<Rightarrow> Inl BadConversion)"

section \<open>Latencies\<close>

record bench_result =
  ops_per_sec :: double
  p50_us :: int
  p99_us :: int
  p999_us :: int

text \<open>\<open>reserve\<close>, with the limit of the implementation, and an unchecked access by index.\<close>

definition reserve :: "nat \<Rightarrow> 64 word \<Rightarrow> unit result" where
  "reserve lat_max n = (if lat_max < unat n then Inl LengthError else Inr ())"

definition vec_at :: "int list \<Rightarrow> 64 word \<Rightarrow> int result" where
  "vec_at xs i = (if unat i < length xs then Inr (xs ! unat i) else Inl DanglingNode)"

text \<open>What the three benchmarks compute from the latencies and the elapsed time.\<close>

definition summarize :: "float_env \<Rightarrow> int \<Rightarrow> int \<Rightarrow> int list \<Rightarrow> bench_result result" where
  "summarize E num_ops elapsed_us latencies =
     (let sorted_lat = sort latencies; n = word_of_int num_ops in
      rbind (vec_at sorted_lat (n * 50 div 100)) (\<lambda>p50.
      rbind (vec_at sorted_lat (n * 99 div 100)) (\<lambda>p99.
      rbind (vec_at sorted_lat (n * 999 div 1000)) (\<lambda>p999.
        Inr \<lparr>ops_per_sec = fdiv E (fl E (fl E (of_int num_ops) * 1000000)) (fl E (of_int elapsed_us)),
             p50_us = p50, p99_us = p99, p999_us = p999\<rparr>))))"

text \<open>The readings of \<open>now_us\<close> before and after each operation, and those around the whole loop.\<close>

record bench_clock =
  op_before :: "nat \<Rightarrow> int"
  op_after :: "nat \<Rightarrow> int"
  all_before :: int
  all_after :: int

section \<open>Writing\<close>

text \<open>The loops run \<open>n\<close> more times, from index \<open>i\<close> on.\<close>

fun set_loop ::
  "externals \<Rightarrow> bench_clock \<Rightarrow> (nat \<Rightarrow> int) \<Rightarrow> nat \<Rightarrow> nat \<Rightarrow> store \<Rightarrow> int list \<Rightarrow> (int list \<times> store) result" where
  "set_loop e clk now 0 i s latencies = Inr (latencies, s)"
| "set_loop e clk now (Suc n) i s latencies =
     rbind (store_set e s (''bench_key_'' @ to_string (int i)) ''value'' (-1) (now i)) (\<lambda>s'.
     rbind (sub64 (op_after clk i) (op_before clk i)) (\<lambda>lat.
       set_loop e clk now n (Suc i) s' (latencies @ [lat])))"

definition bench_set ::
  "externals \<Rightarrow> float_env \<Rightarrow> nat \<Rightarrow> bench_clock \<Rightarrow> (nat \<Rightarrow> int) \<Rightarrow> store \<Rightarrow> int \<Rightarrow> (bench_result \<times> store) result" where
  "bench_set e E lat_max clk now s num_ops =
     rbind (reserve lat_max (word_of_int num_ops)) (\<lambda>_.
     rbind (set_loop e clk now (nat num_ops) 0 s []) (\<lambda>(latencies, s').
     rbind (sub64 (all_after clk) (all_before clk)) (\<lambda>elapsed_us.
     rbind (summarize E num_ops elapsed_us latencies) (\<lambda>r. Inr (r, s')))))"

section \<open>Reading\<close>

text \<open>
  The loops that write and read the keys \<open>key i\<close>, for the two benchmarks that read. The values read are part
  of the result; the program ignores them. Each read has its two readings of the clock of the store.
\<close>

fun populate :: "externals \<Rightarrow> (nat \<Rightarrow> string) \<Rightarrow> (nat \<Rightarrow> int) \<Rightarrow> nat \<Rightarrow> nat \<Rightarrow> store \<Rightarrow> store result" where
  "populate e key now 0 i s = Inr s"
| "populate e key now (Suc n) i s =
     rbind (store_set e s (key i) ''v'' (-1) (now i)) (\<lambda>s'. populate e key now n (Suc i) s')"

fun get_loop ::
  "externals \<Rightarrow> bench_clock \<Rightarrow> (nat \<Rightarrow> string) \<Rightarrow> (nat \<Rightarrow> int \<times> int) \<Rightarrow> nat \<Rightarrow> nat \<Rightarrow> store \<Rightarrow> int list \<Rightarrow>
   (string option list \<times> int list \<times> store) result" where
  "get_loop e clk key now 0 i s latencies = Inr ([], latencies, s)"
| "get_loop e clk key now (Suc n) i s latencies =
     rbind (store_get e s (key i) (fst (now i)) (snd (now i))) (\<lambda>(v, s').
     rbind (sub64 (op_after clk i) (op_before clk i)) (\<lambda>lat.
     rbind (get_loop e clk key now n (Suc i) s' (latencies @ [lat])) (\<lambda>(vs, r). Inr (v # vs, r))))"

definition get_key :: "int \<Rightarrow> string" where
  "get_key i = ''g_'' @ to_string i"

text \<open>
  The index of each read is the answer of the random distribution. A distribution over an empty range is
  undefined behaviour.
\<close>

definition bench_get ::
  "externals \<Rightarrow> float_env \<Rightarrow> nat \<Rightarrow> bench_clock \<Rightarrow> (nat \<Rightarrow> int) \<Rightarrow> (nat \<Rightarrow> int) \<Rightarrow> (nat \<Rightarrow> int \<times> int) \<Rightarrow> store \<Rightarrow> int \<Rightarrow>
   (string option list \<times> bench_result \<times> store) result" where
  "bench_get e E lat_max clk set_now pick now s num_ops =
     rbind (populate e (\<lambda>i. get_key (int i)) set_now (nat num_ops) 0 s) (\<lambda>s1.
     rbind (reserve lat_max (word_of_int num_ops)) (\<lambda>_.
     if num_ops - 1 < 0 then Inl InvalidRange
     else rbind (get_loop e clk (\<lambda>i. get_key (pick i)) now (nat num_ops) 0 s1 []) (\<lambda>(vs, latencies, s2).
          rbind (sub64 (all_after clk) (all_before clk)) (\<lambda>elapsed_us.
          rbind (summarize E num_ops elapsed_us latencies) (\<lambda>r. Inr (vs, r, s2))))))"

section \<open>Reporting\<close>

text \<open>The unit is written with the Greek letter mu, two bytes in UTF-8.\<close>

definition mu :: string where
  "mu = [CHR 0xCE, CHR 0xBC]"

definition print_result :: "string \<Rightarrow> bench_result \<Rightarrow> string result" where
  "print_result name r =
     rbind (double_to_int (ops_per_sec r)) (\<lambda>ops.
       Inr (''['' @ name @ '']'' @ [LF] @
            ''  throughput : '' @ to_string ops @ '' ops/sec'' @ [LF] @
            ''  p50 latency: '' @ to_string (p50_us r) @ '' '' @ mu @ ''s'' @ [LF] @
            ''  p99 latency: '' @ to_string (p99_us r) @ '' '' @ mu @ ''s'' @ [LF] @
            ''  p999 latency: '' @ to_string (p999_us r) @ '' '' @ mu @ ''s'' @ [LF, LF]))"

section \<open>The concurrent benchmark\<close>

definition N_THREADS :: nat where
  "N_THREADS = 8"

definition mt_key :: "nat \<Rightarrow> nat \<Rightarrow> string" where
  "mt_key t i = ''mt_'' @ to_string (int t) @ ''_'' @ to_string (int i)"

record worker_input =
  wi_clk :: bench_clock
  wi_set_now :: "nat \<Rightarrow> int"
  wi_get_now :: "nat \<Rightarrow> int \<times> int"

definition worker ::
  "externals \<Rightarrow> float_env \<Rightarrow> nat \<Rightarrow> worker_input \<Rightarrow> nat \<Rightarrow> int \<Rightarrow> store \<Rightarrow> (bench_result \<times> store) result" where
  "worker e E lat_max wi t ops_per_thread s =
     rbind (populate e (mt_key t) (wi_set_now wi) (nat ops_per_thread) 0 s) (\<lambda>s1.
     rbind (reserve lat_max (word_of_int ops_per_thread)) (\<lambda>_.
     rbind (get_loop e (wi_clk wi) (mt_key t) (wi_get_now wi) (nat ops_per_thread) 0 s1 []) (\<lambda>(vs, lat, s2).
     rbind (sub64 (all_after (wi_clk wi)) (all_before (wi_clk wi))) (\<lambda>el.
     rbind (summarize E ops_per_thread el lat) (\<lambda>r. Inr (r, s2))))))"

text \<open>
  The workers run at the same time. Their report depends on their own clock readings only and not on the
  order in which their operations reach the store; here they follow one another. What interleaving does
  to the store is the subject of \<open>Store_Concurrency\<close>.
\<close>

fun workers ::
  "externals \<Rightarrow> float_env \<Rightarrow> nat \<Rightarrow> (nat \<Rightarrow> worker_input) \<Rightarrow> int \<Rightarrow> nat \<Rightarrow> nat \<Rightarrow> store \<Rightarrow>
   (bench_result list \<times> store) result" where
  "workers e E lat_max wis ops_per_thread t 0 s = Inr ([], s)"
| "workers e E lat_max wis ops_per_thread t (Suc n) s =
     rbind (worker e E lat_max (wis t) t ops_per_thread s) (\<lambda>(r, s1).
     rbind (workers e E lat_max wis ops_per_thread (Suc t) n s1) (\<lambda>(rs, s2). Inr (r # rs, s2)))"

text \<open>The throughputs are added up, the percentiles are those of the first worker.\<close>

definition aggregate :: "float_env \<Rightarrow> bench_result list \<Rightarrow> bench_result" where
  "aggregate E results =
     (hd results)\<lparr>ops_per_sec := foldl (\<lambda>total r. fadd E total (ops_per_sec r)) (Finite 0) results\<rparr>"

section \<open>The program\<close>

text \<open>Everything the run of the program depends on besides its arguments.\<close>

record bench_input =
  in_lat_max :: nat
  in_set_clk :: bench_clock
  in_set_now :: "nat \<Rightarrow> int"
  in_get_clk :: bench_clock
  in_populate_now :: "nat \<Rightarrow> int"
  in_pick :: "nat \<Rightarrow> int"
  in_get_now :: "nat \<Rightarrow> int \<times> int"
  in_workers :: "nat \<Rightarrow> worker_input"

definition DEFAULT_MAX_KEYS :: nat where
  "DEFAULT_MAX_KEYS = 1000000"

definition bench_main :: "externals \<Rightarrow> float_env \<Rightarrow> bench_input \<Rightarrow> string list \<Rightarrow> string result" where
  "bench_main e E bi args =
     rbind (case args of [] \<Rightarrow> Inr 100000 | arg # rest \<Rightarrow> stoi arg) (\<lambda>num_ops.
     let intro = ''Running store benchmark with '' @ to_string num_ops @ '' ops each...'' @ [LF, LF];
         ops_per_thread = num_ops sdiv int N_THREADS
     in rbind (bench_set e E (in_lat_max bi) (in_set_clk bi) (in_set_now bi) (store_init DEFAULT_MAX_KEYS) num_ops) (\<lambda>(r1, s1).
        rbind (print_result ''SET (single-thread)'' r1) (\<lambda>out1.
        rbind (bench_get e E (in_lat_max bi) (in_get_clk bi) (in_populate_now bi) (in_pick bi) (in_get_now bi)
                 (store_init DEFAULT_MAX_KEYS) num_ops) (\<lambda>(vs, r2, s2).
        rbind (print_result ''GET (single-thread, random)'' r2) (\<lambda>out2.
        rbind (workers e E (in_lat_max bi) (in_workers bi) ops_per_thread 0 N_THREADS (store_init DEFAULT_MAX_KEYS)) (\<lambda>(rs, s3).
        rbind (print_result ''GET (8 threads concurrent)'' (aggregate E rs)) (\<lambda>out3.
          Inr (intro @ out1 @ out2 @ out3))))))))"

section \<open>Percentiles\<close>

text \<open>
  The element at index \<open>length xs * a div b\<close> of the sorted list: at most that many elements are smaller, more
  than that many are not larger.
\<close>

definition is_quantile :: "nat \<Rightarrow> nat \<Rightarrow> int list \<Rightarrow> int \<Rightarrow> bool" where
  "is_quantile a b xs p \<longleftrightarrow>
     p \<in> set xs \<and> length (filter (\<lambda>x. x < p) xs) \<le> length xs * a div b \<and>
     length xs * a div b < length (filter (\<lambda>x. x \<le> p) xs)"

lemma sorted_nth_rank:
  assumes "sorted xs" and "i < length xs"
  shows "length (filter (\<lambda>x. x < xs ! i) xs) \<le> i" and "i < length (filter (\<lambda>x. x \<le> xs ! i) xs)"
proof -
  have "filter (\<lambda>x. x < xs ! i) (drop i xs) = []"
    using assms by (auto simp: filter_empty_conv in_set_conv_nth sorted_nth_mono not_less)
  then have "filter (\<lambda>x. x < xs ! i) xs = filter (\<lambda>x. x < xs ! i) (take i xs)"
    by (metis append_Nil2 append_take_drop_id filter_append)
  then show "length (filter (\<lambda>x. x < xs ! i) xs) \<le> i"
    using length_filter_le [of "\<lambda>x. x < xs ! i" "take i xs"] assms(2) by simp
  have "filter (\<lambda>x. x \<le> xs ! i) (take (Suc i) xs) = take (Suc i) xs"
    using assms by (auto simp: filter_id_conv in_set_conv_nth less_Suc_eq_le sorted_nth_mono)
  moreover have "length (filter (\<lambda>x. x \<le> xs ! i) xs) \<ge> length (filter (\<lambda>x. x \<le> xs ! i) (take (Suc i) xs))"
    by (metis append_take_drop_id filter_append le_add1 length_append)
  ultimately show "i < length (filter (\<lambda>x. x \<le> xs ! i) xs)" using assms(2) by simp
qed

lemma quantile_nth:
  assumes "length xs * a div b < length xs"
  shows "is_quantile a b xs (sort xs ! (length xs * a div b))"
proof -
  let ?i = "length xs * a div b"
  have "length (filter P (sort xs)) = length (filter P xs)" for P by (simp add: filter_sort)
  with sorted_nth_rank [of "sort xs" ?i] nth_mem [of ?i "sort xs"] assms show ?thesis
    by (simp add: is_quantile_def)
qed

lemma scaled_index:
  assumes "0 \<le> n" and "nat n * a < 2 ^ 64" and "b < 2 ^ 64"
  shows "unat ((word_of_int n :: 64 word) * of_nat a div of_nat b) = nat n * a div b"
proof -
  have "(word_of_int n :: 64 word) = of_nat (nat n)" using assms(1) by (metis nat_0_le of_int_of_nat_eq)
  then have "(word_of_int n :: 64 word) * of_nat a = of_nat (nat n * a)" by simp
  with assms(2,3) show ?thesis by (simp add: unat_div_distrib unat_of_nat del: of_nat_mult)
qed

lemma summarize_quantiles:
  assumes "0 < n" and "n < 2 ^ 31" and "length lats = nat n"
  obtains r where "summarize E n elapsed lats = Inr r" "is_quantile 50 100 lats (p50_us r)"
    "is_quantile 99 100 lats (p99_us r)" "is_quantile 999 1000 lats (p999_us r)"
    "p50_us r \<le> p99_us r" "p99_us r \<le> p999_us r"
proof -
  let ?m = "nat n" and ?w = "word_of_int n :: 64 word"
  have m: "0 < ?m" "?m < 2 ^ 31" using assms(1,2) by auto
  have i: "unat (?w * 50 div 100) = ?m * 50 div 100" "unat (?w * 99 div 100) = ?m * 99 div 100"
    "unat (?w * 999 div 1000) = ?m * 999 div 1000"
    using scaled_index [of n 50 100] scaled_index [of n 99 100] scaled_index [of n 999 1000] assms(1) m(2) by simp_all
  have lt: "?m * 50 div 100 < ?m" "?m * 99 div 100 < ?m" "?m * 999 div 1000 < ?m" using m(1) by linarith+
  have le: "?m * 50 div 100 \<le> ?m * 99 div 100" "?m * 99 div 100 \<le> ?m * 999 div 1000" by linarith+
  let ?r = "\<lparr>ops_per_sec = fdiv E (fl E (fl E (of_int n) * 1000000)) (fl E (of_int elapsed)),
    p50_us = sort lats ! (?m * 50 div 100), p99_us = sort lats ! (?m * 99 div 100), p999_us = sort lats ! (?m * 999 div 1000)\<rparr>"
  have "summarize E n elapsed lats = Inr ?r"
    using lt assms(3) unfolding summarize_def vec_at_def Let_def i by simp
  moreover have "is_quantile 50 100 lats (p50_us ?r)" "is_quantile 99 100 lats (p99_us ?r)" "is_quantile 999 1000 lats (p999_us ?r)"
    using quantile_nth [of lats 50 100] quantile_nth [of lats 99 100] quantile_nth [of lats 999 1000] lt assms(3) by simp_all
  moreover have "p50_us ?r \<le> p99_us ?r" "p99_us ?r \<le> p999_us ?r"
    using le lt assms(3) by (auto intro: sorted_nth_mono)
  ultimately show ?thesis by (rule that)
qed

section \<open>The loops\<close>

definition lap :: "bench_clock \<Rightarrow> nat \<Rightarrow> int" where
  "lap clk i = op_after clk i - op_before clk i"

lemma laps_Suc: "map (lap clk) [i..<i + Suc n] = lap clk i # map (lap clk) [Suc i..<Suc i + n]"
  by (simp add: upt_conv_Cons del: upt_Suc)

lemma sub64_lap: "in_int64 (lap clk i) \<Longrightarrow> sub64 (op_after clk i) (op_before clk i) = Inr (lap clk i)"
  by (simp add: lap_def)

lemma set_loop_ok:
  assumes "store_ok e s" and "\<forall>j. i \<le> j \<and> j < i + n \<longrightarrow> in_int64 (lap clk j)"
  shows "\<exists>s'. set_loop e clk now n i s lats = Inr (lats @ map (lap clk) [i..<i + n], s') \<and> store_ok e s'"
  using assms
proof (induction n arbitrary: i s lats)
  case (Suc n)
  obtain s1 where s1: "store_set e s (''bench_key_'' @ to_string (int i)) ''value'' (-1) (now i) = Inr s1" "store_ok e s1"
    by (rule store_set_ok [OF Suc.prems(1), of "-1" "now i"]) auto
  have "\<forall>j. Suc i \<le> j \<and> j < Suc i + n \<longrightarrow> in_int64 (lap clk j)" "in_int64 (lap clk i)" using Suc.prems(2) by auto
  with Suc.IH [OF s1(2), of "Suc i" "lats @ [lap clk i]"] s1(1) sub64_lap show ?case
    unfolding laps_Suc by simp
qed simp

lemma populate_ok:
  assumes "store_ok e s" and "store_size s + n \<le> max_keys s"
    and "\<forall>j<i. store_map e s (key j) = Some (''v'', -1)"
  shows "\<exists>s'. populate e key now n i s = Inr s' \<and> store_ok e s' \<and> (\<forall>j<i + n. store_map e s' (key j) = Some (''v'', -1))"
  using assms
proof (induction n arbitrary: i s)
  case (Suc n)
  obtain s1 where s1: "store_set e s (key i) ''v'' (-1) (now i) = Inr s1" "store_ok e s1" "max_keys s1 = max_keys s"
    "store_map e s1 = (store_map e s)(key i \<mapsto> (''v'', -1))" "store_size s1 \<le> Suc (store_size s)"
    using Suc.prems by (auto simp: deadline_def intro: store_set_fresh [OF Suc.prems(1), of "-1" "now i" "key i" "''v''"])
  have "\<forall>j<Suc i. store_map e s1 (key j) = Some (''v'', -1)" using s1(4) Suc.prems(3) by (simp add: less_Suc_eq)
  with Suc.IH [OF s1(2), of "Suc i"] s1(1,3,5) Suc.prems(2) show ?case by auto
qed simp

lemma get_loop_ok:
  assumes "store_ok e s" and "\<forall>j. i \<le> j \<and> j < i + n \<longrightarrow> in_int64 (lap clk j)"
    and "\<forall>j. i \<le> j \<and> j < i + n \<longrightarrow> store_map e s (key j) = Some (''v'', -1)"
  shows "get_loop e clk key now n i s lats = Inr (replicate n (Some ''v''), lats @ map (lap clk) [i..<i + n], s)"
  using assms
proof (induction n arbitrary: i lats)
  case (Suc n)
  have "store_map e s (key i) = Some (''v'', -1)" using Suc.prems(3) by simp
  then have "live (store_map e s) t (key i) = Some ''v''" for t by (simp add: live_def expired_at_def)
  then have g: "store_get e s (key i) (fst (now i)) (snd (now i)) = Inr (Some ''v'', s)"
    by (auto intro: store_get_ok [OF assms(1), of "key i" "fst (now i)" "snd (now i)"])
  have "\<forall>j. Suc i \<le> j \<and> j < Suc i + n \<longrightarrow> in_int64 (lap clk j)" "in_int64 (lap clk i)"
    "\<forall>j. Suc i \<le> j \<and> j < Suc i + n \<longrightarrow> store_map e s (key j) = Some (''v'', -1)"
    using Suc.prems(2,3) by auto
  with Suc.IH [OF assms(1), of "Suc i" "lats @ [lap clk i]"] g sub64_lap show ?case
    unfolding laps_Suc by simp
qed simp

text \<open>
  With no operation to measure, the percentiles are read outside the empty vector. With fewer operations
  than threads this happens in the concurrent part.
\<close>

lemma no_operations_reads_outside:
  "store_ok e s \<Longrightarrow> in_int64 (all_after clk - all_before clk) \<Longrightarrow> bench_set e E lat_max clk now s 0 = Inl DanglingNode"
  "in_int64 (all_after (wi_clk wi) - all_before (wi_clk wi)) \<Longrightarrow> 0 \<le> n \<Longrightarrow> n < 8 \<Longrightarrow>
   worker e E lat_max wi t (n sdiv int N_THREADS) s = Inl DanglingNode"
  by (simp_all add: bench_set_def worker_def summarize_def vec_at_def reserve_def Let_def signed_divide_int_def N_THREADS_def sub64_def)

text \<open>If the clock does not advance, the throughput is infinite and its conversion is undefined.\<close>

lemma instant_run_undefined:
  "fl E 0 = 0 \<Longrightarrow> summarize E n 0 lats = Inr r \<Longrightarrow> print_result name r = Inl BadConversion"
  by (auto simp: summarize_def print_result_def double_to_int_def fdiv_def Let_def)

section \<open>Properties\<close>

text \<open>
  C33: The reported percentiles are order statistics. For a positive number of operations and clock
  differences that fit, \<open>bench_set\<close> returns, and \<open>p50\<close>, \<open>p99\<close> and \<open>p999\<close> are measured latencies of the right rank: at
  most the stated share of the latencies is smaller, and more than that share is not larger.
\<close>

theorem bench_percentiles:
  assumes "0 < n" and "n < 2 ^ 31" and "nat n \<le> lat_max" and "store_ok e s"
    and "\<forall>i<nat n. in_int64 (op_after clk i - op_before clk i)" and "in_int64 (all_after clk - all_before clk)"
  shows "\<exists>r s'. bench_set e E lat_max clk now s n = Inr (r, s') \<and>
           (let lats = map (\<lambda>i. op_after clk i - op_before clk i) [0..<nat n]
            in is_quantile 50 100 lats (p50_us r) \<and> is_quantile 99 100 lats (p99_us r) \<and>
               is_quantile 999 1000 lats (p999_us r)) \<and>
           p50_us r \<le> p99_us r \<and> p99_us r \<le> p999_us r"
proof -
  have "\<forall>j. 0 \<le> j \<and> j < 0 + nat n \<longrightarrow> in_int64 (lap clk j)" using assms(5) by (simp add: lap_def)
  from set_loop_ok [OF assms(4) this, of now "[]"] obtain s' where
    l: "set_loop e clk now (nat n) 0 s [] = Inr (map (lap clk) [0..<nat n], s')" by auto
  have "unat (word_of_int n :: 64 word) = nat n" using scaled_index [of n 1 1] assms(1,2) by simp
  then have "reserve lat_max (word_of_int n) = Inr ()" using assms(3) by (simp add: reserve_def)
  moreover obtain r where "summarize E n (all_after clk - all_before clk) (map (lap clk) [0..<nat n]) = Inr r"
    "is_quantile 50 100 (map (lap clk) [0..<nat n]) (p50_us r)" "is_quantile 99 100 (map (lap clk) [0..<nat n]) (p99_us r)"
    "is_quantile 999 1000 (map (lap clk) [0..<nat n]) (p999_us r)" "p50_us r \<le> p99_us r" "p99_us r \<le> p999_us r"
    by (rule summarize_quantiles [OF assms(1,2), of "map (lap clk) [0..<nat n]" E "all_after clk - all_before clk"]) auto
  moreover have "lap clk = (\<lambda>i. op_after clk i - op_before clk i)" by (simp add: lap_def fun_eq_iff)
  ultimately show ?thesis using l assms(6) by (intro exI [of _ r] exI [of _ s']) (simp add: bench_set_def)
qed

theorem bench_percentiles_witness:
  "\<exists>r s'. bench_set sample_externals \<lparr>fl = (\<lambda>x. x), fmt_fixed = (\<lambda>_ _. [])\<rparr> 100
       \<lparr>op_before = (\<lambda>_. 0), op_after = int, all_before = 0, all_after = 9\<rparr> (\<lambda>_. 0) (store_init 10) 4 = Inr (r, s') \<and>
     is_quantile 50 100 [0, 1, 2, 3] (p50_us r)"
proof -
  have "[0..<4] = [0, 1, 2, 3]" by (simp add: upt_rec)
  with bench_percentiles [of 4 100 sample_externals "store_init 10"
      "\<lparr>op_before = (\<lambda>_. 0), op_after = int, all_before = 0, all_after = 9\<rparr>"
      "\<lparr>fl = (\<lambda>x. x), fmt_fixed = (\<lambda>_ _. [])\<rparr>" "\<lambda>_. 0"]
  show ?thesis by (auto simp: store_ok_init in_int64_def Let_def)
qed

text \<open>
  C34: The read benchmark measures hits. If the number of operations does not exceed the capacity of an empty
  store and the random indices are in range, every measured \<open>get\<close> finds its key, whatever the clock of
  the store shows.
\<close>

theorem bench_get_hits:
  assumes "0 < n" and "n < 2 ^ 31" and "nat n \<le> lat_max" and "nat n \<le> capacity"
    and "\<forall>i<nat n. 0 \<le> pick i \<and> pick i \<le> n - 1"
    and "\<forall>i<nat n. in_int64 (op_after clk i - op_before clk i)" and "in_int64 (all_after clk - all_before clk)"
  shows "\<exists>r s'. bench_get e E lat_max clk set_now pick now (store_init capacity) n = Inr (replicate (nat n) (Some ''v''), r, s')"
proof -
  have "store_size (store_init capacity) = 0" by (simp add: store_size_card [OF store_ok_init, where e = sample_externals])
  moreover have "max_keys (store_init capacity) = capacity" by (simp add: store_init_def)
  ultimately have "store_size (store_init capacity) + nat n \<le> max_keys (store_init capacity)" using assms(4) by simp
  from populate_ok [OF store_ok_init this, where i = 0 and e = e and now = set_now and key = "\<lambda>i. get_key (int i)"] obtain s1 where
    s1: "populate e (\<lambda>i. get_key (int i)) set_now (nat n) 0 (store_init capacity) = Inr s1" "store_ok e s1"
      "\<forall>j<nat n. store_map e s1 (get_key (int j)) = Some (''v'', -1)" by auto
  have "store_map e s1 (get_key (pick i)) = Some (''v'', -1)" if "i < nat n" for i
    using s1(3) [rule_format, of "nat (pick i)"] assms(1,5) that by fastforce
  moreover have "\<forall>j. 0 \<le> j \<and> j < 0 + nat n \<longrightarrow> in_int64 (lap clk j)" using assms(6) by (simp add: lap_def)
  ultimately have g: "get_loop e clk (\<lambda>i. get_key (pick i)) now (nat n) 0 s1 [] = Inr (replicate (nat n) (Some ''v''), map (lap clk) [0..<nat n], s1)"
    using get_loop_ok [OF s1(2), of 0 "nat n" clk "\<lambda>i. get_key (pick i)" now "[]"] by simp
  have "unat (word_of_int n :: 64 word) = nat n" using scaled_index [of n 1 1] assms(1,2) by simp
  then have "reserve lat_max (word_of_int n) = Inr ()" using assms(3) by (simp add: reserve_def)
  moreover obtain r where "summarize E n (all_after clk - all_before clk) (map (lap clk) [0..<nat n]) = Inr r"
    by (rule summarize_quantiles [OF assms(1,2), of "map (lap clk) [0..<nat n]" E "all_after clk - all_before clk"]) auto
  ultimately show ?thesis using g s1(1) assms(1,7) by (simp add: bench_get_def)
qed

theorem bench_get_hits_witness:
  "\<exists>r s'. bench_get sample_externals \<lparr>fl = (\<lambda>x. x), fmt_fixed = (\<lambda>_ _. [])\<rparr> 100
       \<lparr>op_before = (\<lambda>_. 0), op_after = int, all_before = 0, all_after = 9\<rparr> (\<lambda>_. 0) (\<lambda>_. 1) (\<lambda>_. (5, 6)) (store_init 10) 2 =
       Inr ([Some ''v'', Some ''v''], r, s')"
  using bench_get_hits [of 2 100 10 "\<lambda>_. 1" "\<lparr>op_before = (\<lambda>_. 0), op_after = int, all_before = 0, all_after = 9\<rparr>"
      sample_externals "\<lparr>fl = (\<lambda>x. x), fmt_fixed = (\<lambda>_ _. [])\<rparr>" "\<lambda>_. 0" "\<lambda>_. (5, 6)"]
  by (simp add: in_int64_def numeral_2_eq_2)

end
