(* ===== verification/Spec2Isabelle.thy ===== *)
theory Spec2Isabelle
  imports Server_Correct Connection_Stream Config_Correct Store_Histories Snapshot_Concurrency Time_Utils Metrics_Correct
    Edge_Triggered Descriptors Dashboard_Correct Bench_Store
begin

text \<open>
  Verification of the Redis-compatible cache server under \<^verbatim>\<open>src/src\<close>, with its dashboard (\<^verbatim>\<open>src/dashboard\<close>) and its
  benchmark (\<^verbatim>\<open>src/benchmarks\<close>).

  \<^bold>\<open>The program.\<close> A client connection delivers bytes to a buffer; the RESP parser cuts them into
  commands; the dispatcher looks up a handler for each command and the handler works on the store, a
  sharded hash map with expiry and least-recently-used eviction; replies are collected in an output
  buffer that the event loop flushes when the socket accepts data. A maintenance thread sweeps expired
  entries and writes snapshots; at start-up the snapshot and the append-only log are loaded. A small
  HTTP server reports metrics, which a browser page polls and shows. A thread pool is constructed but receives no tasks.

  \<^bold>\<open>Conventions.\<close> Fallible code returns \<^typ>\<open>'a result\<close>: a fault on the left is undefined behaviour or an
  exception (\<open>Cache_Prelude\<close>). Loops that are not structurally recursive and may not end are partial
  functions with \<open>None\<close> for not returning; for each of them a lemma shows that it returns. \<open>int64_t\<close>
  values are integers with checked operations, since their overflow is undefined; \<open>size_t\<close> values are
  64-bit words where the code relies on their wrap-around, and natural numbers elsewhere. The one
  bound is that of the JSON reader of the dashboard: the length of the document, which has fewer pairs than
  characters. Clock readings are arguments, one per call of the clock; \<open>Time_Utils\<close> relates them to clock
  ticks. What the code calls and this
  repository does not contain is a parameter: the record \<open>externals\<close> has \<open>std::hash\<close>, \<open>fnmatch\<close>, integer
  formatting of fmt (hypothesis \<open>decimal_fmt\<close>: it prints decimal), the greatest size of a vector, the
  longest string that can be allocated, and whether call arguments are evaluated from left to right;
  \<open>float_env\<close> has the rounding of floating-point operations (hypothesis \<open>double_rounding\<close>: the relative error
  of IEEE 754 doubles in the normal range) and their formatting (hypothesis \<open>fixed_fmt\<close>: within half a unit of
  the last digit); \<open>js_env\<close> has the number conversions of a JavaScript engine. The answers of the
  operating system (ready events, results of socket and file calls) are arguments, too.

  \<^bold>\<open>Theories.\<close>
  \<^item> \<open>Cache_Prelude\<close>, \<open>Charconv\<close>: outcomes, checked arithmetic, external code; \<open>std::from_chars\<close>,
    \<open>std::to_string\<close> and case conversion with their round trip.
  \<^item> \<open>Framing\<close>: the contract of a self-delimiting code as a locale (\<open>framed_codec\<close>), with unique
    decoding of streams and of cut streams. \<open>Resp_Types\<close> (\<^verbatim>\<open>protocol/RespTypes.hpp\<close>,
    \<^verbatim>\<open>RespSerializer.cpp\<close>) and \<open>Resp_Parser\<close> (\<^verbatim>\<open>RespParser.cpp\<close>): the serializer and the
    incremental parser, which interprets the locale: it reads back every serialized command, reports
    every proper prefix as incomplete, always makes progress, and can only throw \<open>length_error\<close>.
  \<^item> \<open>Lru_List\<close> (\<^verbatim>\<open>storage/LruEviction.*\<close>): the list with node identities, as an instance of the locale
    \<open>recency_list\<close>. \<open>Shard\<close>, \<open>Store\<close> (\<^verbatim>\<open>storage/Store.cpp\<close>, \<^verbatim>\<open>Entry.hpp\<close>): one definition per critical
    section, composed to the operations. \<open>Shard_Correct\<close>, \<open>Store_Correct\<close>: the invariant links every
    entry to its node cell, and every operation is related to a map from keys to values and deadlines.
    \<open>Store_Interface\<close>: the contract of the store as a locale (\<open>cache_store\<close>) and its properties.
    \<open>Store_Outcomes\<close>: under the invariant an operation completes or overflows.
  \<^item> \<open>Time_Utils\<close> (\<^verbatim>\<open>util/TimeUtils.hpp\<close>): conversion of clock ticks and the lifetime of a key in clock time.
  \<^item> \<open>Step_Systems\<close>: invariants and forward simulations of step relations, as locales. \<open>Store_Concurrency\<close>:
    threads as sequences of critical sections, interleaved arbitrarily; every reachable state is
    well-formed and increments are never lost. \<open>Store_Adequacy\<close>: run alone, the sections of every operation
    compose to the sequential operation, faults included. \<open>Store_Linearizable\<close>: the store with its clients
    refines a specification that executes each operation on a key in one step between its invocation and
    its reply; the only effects besides are the eviction of one key by a \<open>set\<close> and the removal of expired
    keys. \<open>Store_Histories\<close>: an invariant of that specification carried over to the store, no value comes
    from nowhere. \<open>Store_Scans\<close>: what \<open>keys\<close> and \<open>for_each\<close> list while others write (locale \<open>shard_scan\<close>), and
    computed schedules that show two races.
  \<^item> \<open>Commands\<close>, \<open>Commands_Correct\<close> (\<^verbatim>\<open>commands/Dispatcher.cpp\<close>, \<^verbatim>\<open>commands/handlers\<close>): all handlers
    and the dispatch table; safety, framing of replies, behaviour of SET, GET and DEL on the wire.
  \<^item> \<open>Bytes\<close>, \<open>Rdb\<close>, \<open>Rdb_Correct\<close> (\<^verbatim>\<open>persistence/Rdb.cpp\<close>): the snapshot format, atomic replacement
    of the file, the round trip, and what a truncated file does. \<open>Aof\<close> (\<^verbatim>\<open>persistence/Aof.cpp\<close>):
    appending, replay, recovery from a log that was cut anywhere. \<open>Snapshot_Concurrency\<close>: what a snapshot
    restores that was written while clients used the store.
  \<^item> \<open>Buffer\<close> (\<^verbatim>\<open>network/Buffer.hpp\<close>): the byte buffer as an instance of the locale \<open>byte_queue\<close>.
    \<open>Connection\<close>, \<open>Connection_Safety\<close> (\<^verbatim>\<open>network/Connection.cpp\<close>): receiving, executing a pipeline,
    flushing; termination of the command loop and the faults it can have. \<open>Connection_Stream\<close>: the replies a
    client receives over the life of its connection.
  \<^item> \<open>Event_Loop\<close> (\<^verbatim>\<open>network/EventLoop.cpp\<close>): the handlers over a record of registration operations,
    instantiated by epoll and kqueue. \<open>Event_Loop_Correct\<close>: the contract of the registration as a
    locale (\<open>poller_contract\<close>) in which the loop invariant is proved once. \<open>Event_Loop_Platforms\<close>: the two
    platforms agree. \<open>Event_Loop_Properties\<close>: safety of every run, and the way of a request to its reply.
    \<open>Edge_Triggered\<close>: the handlers together with the documented behaviour of edge-triggered epoll; no wake-up
    is lost.
  \<^item> \<open>Metrics\<close>, \<open>Metrics_Correct\<close> (\<^verbatim>\<open>metrics/Metrics.cpp\<close>): counters, the moving average of latencies and its
    bounds under rounding, reports. \<open>Http_Server\<close>, \<open>Http_Correct\<close> (\<^verbatim>\<open>metrics/HttpServer.cpp\<close>): requests, routes,
    and responses as a client reads them. \<open>Tcp_Listener\<close> (\<^verbatim>\<open>network/TcpListener.cpp\<close>).
    \<open>Thread_Pool\<close> (\<^verbatim>\<open>concurrency/ThreadPool.*\<close>): order and exactly-once execution of tasks, and
    draining at shutdown. \<open>Logger\<close> (\<^verbatim>\<open>util/Logger.hpp\<close>): what is set up, and when that fails.
  \<^item> \<open>Config\<close>, \<open>Config_Correct\<close> (\<^verbatim>\<open>server/Config.*\<close>, the command line in \<^verbatim>\<open>main.cpp\<close>): a configuration
    file is read back as written. \<open>Server\<close>, \<open>Server_Correct\<close> (\<^verbatim>\<open>server/Server.cpp\<close>, \<^verbatim>\<open>main.cpp\<close>):
    construction, start-up, maintenance, signals, shutdown, exit status; safety of whole runs, the cause of
    every exit status, and survival of data across a graceful restart. \<open>Descriptors\<close>: the destructors that close
    sockets; a run from construction to destruction leaks no descriptor and closes none twice.
  \<^item> \<open>Dashboard\<close>, \<open>Dashboard_Correct\<close> (\<^verbatim>\<open>dashboard/src/App.tsx\<close>, \<^verbatim>\<open>api/metrics.ts\<close>, \<^verbatim>\<open>nginx.conf\<close>,
    \<^verbatim>\<open>vite.config.ts\<close>): polling, the state of the page, the texts it shows. A poll brings the counters of the
    server to the page, and the chart data is a window of sixty successful polls.
  \<^item> \<open>Bench_Store\<close> (\<^verbatim>\<open>benchmarks/bench_store.cpp\<close>): the timed loops and the report. Percentiles are order
    statistics of the latencies, and the reads that are measured are hits.

  \<^bold>\<open>Bounds.\<close> Buffers are limited to \<open>MAX_CAP\<close> bytes by the code; views handed to the parser are assumed
  shorter than \<open>2 ^ 63\<close> bytes, which every object in memory is. The theorems about the event loop assume
  that no string of \<open>2 ^ 60\<close> bytes can be allocated, so that doubling a capacity does not wrap around.

  \<^bold>\<open>Not modelled.\<close> The lines that spdlog writes have no effect on the other parts. The destructors
  of the pool and of the log do what their shutdown and close operations do. Sockets that the metrics server
  accepts are closed in the turn that accepts them. The order in which a hash map is traversed is that of
  an association list; no property depends on it. Memory exhaustion is modelled where a client controls
  the size without a bound of its own: the reservation of an array and the batch of replies. A thread
  that cannot be created, and the mutex of the output buffer, which only the event loop thread takes,
  are left out. In \<open>Server\<close> rounds of the maintenance thread alternate with rounds of the event loop;
  finer interleavings of store operations are those of \<open>Store_Concurrency\<close> and the theories on top of it. What React and
  Recharts draw, the styles of the page and the timer that starts a poll are left out; a poll is a step of the model
  at any time. The workers of the benchmark run one after the other in \<open>bench_main\<close>, since their reports depend on
  their own clock readings only. Shell scripts, build files, container files and the test programs are not
  part of the system.
\<close>

end
